(* ===== verification/Nova_Prelude.thy ===== *)
theory Nova_Prelude
  imports Main "HOL-Library.Word" "HOL-Library.Monad_Syntax"
begin

text \<open>
  What the components share: the names of the machine types, the shape of a decoder, the
  contract of an encoder/decoder pair, and the generic facts about lists and words their
  proofs use.

  A \<^verbatim>\<open>std::string\<close> and a \<^verbatim>\<open>Slice\<close> are the list of their bytes. A routine that writes at
  \<^verbatim>\<open>char *dst\<close> and returns the number of bytes written is the list of the bytes it writes;
  the number is the length of that list. A routine that parses from the front of
  \<^verbatim>\<open>Slice *input\<close>, advances it and reports success is a \<^emph>\<open>decoder\<close>: \<open>None\<close> where it returns
  false, else the value and the rest of the input. A read through a raw pointer past the end
  of the modelled memory is \<open>None\<close> as well.
\<close>

unbundle bit_operations_syntax

type_synonym byte = "8 word"
type_synonym bytes = "byte list"
type_synonym u32 = "32 word"
type_synonym u64 = "64 word"
type_synonym 'a decoder = "bytes \<Rightarrow> ('a \<times> bytes) option"

named_theorems codec_simps \<open>round trips of the encoders, for decoding an encoded message\<close>
named_theorems size_simps \<open>lengths of encoded values\<close>

subsection \<open>Decoding loops\<close>

text \<open>The loop \<^verbatim>\<open>for (i = 0; i < n; i++) { if (!decode(input, &x)) return false; v.push_back(x); }\<close>.\<close>

fun decode_n :: "nat \<Rightarrow> 'a decoder \<Rightarrow> 'a list decoder" where
  "decode_n 0 dec input = Some ([], input)"
| "decode_n (Suc n) dec input =
     do { (x, input) \<leftarrow> dec input;
          (xs, input) \<leftarrow> decode_n n dec input;
          Some (x # xs, input) }"

lemma decode_n_length: "decode_n n dec input = Some (xs, rest) \<Longrightarrow> length xs = n"
  by (induction n arbitrary: input xs rest) (auto split: Option.bind_splits)

subsection \<open>The contract of an encoder and its decoder\<close>

text \<open>
  \<open>ok\<close> is what the encoder needs of a value (a length that fits its 32-bit prefix, a tag in
  range). The law is the round trip in front of any further input; from it follow that encoded
  values are uniquely readable and that a counted sequence of them reads back.
\<close>

locale codec =
  fixes enc :: "'a \<Rightarrow> bytes"
    and dec :: "'a decoder"
    and ok :: "'a \<Rightarrow> bool"
  assumes dec_enc: "ok x \<Longrightarrow> dec (enc x @ rest) = Some (x, rest)"
begin

lemma dec_enc_Nil: "ok x \<Longrightarrow> dec (enc x) = Some (x, [])"
  using dec_enc [of x "[]"] by simp

lemma enc_uniquely_readable:
  assumes "ok x" and "ok y" and "enc x @ r = enc y @ s"
  shows "x = y \<and> r = s"
proof -
  from assms have "Some (x, r) = Some (y, s)"
    by (metis dec_enc)
  then show ?thesis by simp
qed

lemma decode_n_enc:
  "list_all ok xs \<Longrightarrow> decode_n (length xs) dec (concat (map enc xs) @ rest) = Some (xs, rest)"
  by (induction xs) (auto simp: dec_enc)

end

text \<open>An encoding of constant width: a message made of it has a size known in advance.\<close>

locale fixed_codec = codec +
  fixes width :: nat
  assumes enc_width: "length (enc x) = width"
begin

lemma concat_enc_width: "length (concat (map enc xs)) = width * length xs"
  by (induction xs) (simp_all add: enc_width)

end

text \<open>
  A decoder that accepts nothing but what the encoder writes: what it consumed can be read off
  its result.
\<close>

locale exact_codec = codec +
  assumes dec_Some: "dec input = Some (x, rest) \<Longrightarrow> ok x \<and> input = enc x @ rest"
begin

lemma dec_iff: "dec input = Some (x, rest) \<longleftrightarrow> ok x \<and> input = enc x @ rest"
  using dec_enc dec_Some by blast

lemma decode_n_Some:
  "decode_n n dec input = Some (xs, rest) \<Longrightarrow>
    length xs = n \<and> list_all ok xs \<and> input = concat (map enc xs) @ rest"
  by (induction n arbitrary: input xs) (fastforce simp: dec_iff split: Option.bind_splits)+

lemma decode_n_iff:
  "decode_n n dec input = Some (xs, rest) \<longleftrightarrow>
    length xs = n \<and> list_all ok xs \<and> input = concat (map enc xs) @ rest"
  using decode_n_Some decode_n_enc by blast

end

subsection \<open>Lists\<close>

lemma list_all_iff_nth: "list_all P xs \<longleftrightarrow> (\<forall>i < length xs. P (xs ! i))"
  by (simp add: list_all_length)

lemma drop_append_length [simp]: "drop (length xs) (xs @ ys) = ys"
  by simp

subsection \<open>Words\<close>

text \<open>Bit positions of a byte and of a word: out of range, no bit is set.\<close>

lemma bit_byte_less: "bit (b :: byte) n \<Longrightarrow> n < 8"
  using bit_imp_le_length [of b n] by simp

lemma bit_byte_out: "8 \<le> n \<Longrightarrow> \<not> bit (b :: byte) n"
  using bit_byte_less [of b n] by auto

lemma unat_of_nat_u32 [simp]: "n < 2 ^ 32 \<Longrightarrow> unat (of_nat n :: u32) = n"
  by (simp add: unat_of_nat)

lemma unat_of_nat_u64 [simp]: "n < 2 ^ 64 \<Longrightarrow> unat (of_nat n :: u64) = n"
  by (simp add: unat_of_nat)

lemma unat_u32_less: "unat (v :: u32) < 2 ^ 32"
  using unsigned_less [of v, where 'a = nat] by simp

lemma unat_u64_less: "unat (v :: u64) < 2 ^ 64"
  using unsigned_less [of v, where 'a = nat] by simp

lemma unat_ucast_u32_u64 [simp]: "unat (ucast (v :: u32) :: u64) = unat v"
  using unat_u32_less [of v] by (simp add: unsigned_ucast_eq take_bit_nat_eq_self)

lemma ucast_u32_u64_u32 [simp]: "ucast (ucast (v :: u32) :: u64) = v"
  by (rule bit_word_eqI) (auto simp: bit_simps)

lemma word_split_shift_ucast:
  fixes w :: "'a::len word"
  shows "push_bit s (ucast (take_bit n w)) OR push_bit (s + n) (ucast (drop_bit n w)) =
    push_bit s (ucast w :: 'b::len word)"
proof (rule bit_word_eqI)
  fix i
  assume "i < LENGTH('b)"
  moreover have "s + n \<le> i \<Longrightarrow> n + (i - (s + n)) = i - s" by simp
  ultimately show "bit (push_bit s (ucast (take_bit n w)) OR
        push_bit (s + n) (ucast (drop_bit n w) :: 'b word)) i = bit (push_bit s (ucast w :: 'b word)) i"
    by (cases "s + n \<le> i") (auto simp: bit_simps)
qed

lemma word_split_shift:
  fixes w :: "'a::len word"
  shows "push_bit s (take_bit n w) OR push_bit (s + n) (drop_bit n w) = push_bit s w"
  using word_split_shift_ucast [of s n w, where 'b = 'a] by simp

text \<open>Reassembling a word from its bytes, one byte at a time.\<close>

lemma take_bit_next_byte:
  fixes w :: "'a::len word"
  shows "take_bit s w OR push_bit s (take_bit 8 (drop_bit s w)) = take_bit (s + 8) w"
  by (rule bit_word_eqI) (auto simp: bit_simps)

lemma take_bit_next_byte_OR:
  fixes w :: "'a::len word"
  shows "take_bit s w OR (push_bit s (take_bit 8 (drop_bit s w)) OR r) = take_bit (s + 8) w OR r"
  using take_bit_next_byte [of s w] by (simp flip: or.assoc)

lemma ucast_low_byte:
  fixes w :: "'a::len word"
  shows "ucast (ucast w :: byte) = take_bit 8 w"
  by (rule bit_word_eqI) (auto simp: bit_simps)

lemmas bytes_of_word = ucast_low_byte take_bit_next_byte take_bit_next_byte_OR take_bit_word_eq_self

text \<open>A varint byte: seven payload bits below the continuation bit.\<close>

lemma and_127_take_bit: "(x :: 'a::len word) AND 127 = take_bit 7 x"
  by (simp add: take_bit_eq_mask mask_eq_exp_minus_1)

lemma and_128_eq_0_iff: "(x :: 'a::len word) AND 128 = 0 \<longleftrightarrow> \<not> bit x 7"
  using and_exp_eq_0_iff_not_bit [of x 7] by simp

lemma bit_128_iff: "bit (128 :: 'a::len word) n \<longleftrightarrow> n = 7 \<and> n < LENGTH('a)"
  using bit_exp_iff [of 7 n, where 'a = "'a word"] bit_imp_le_length [of "128 :: 'a word" n] by auto

lemma continuation_bit: 
  "8 \<le> LENGTH('a) \<Longrightarrow> 8 \<le> LENGTH('b) \<Longrightarrow>
   bit (ucast (ucast (v OR 128 :: 'a::len word) :: byte) :: 'b::len word) 7"
  by (simp add: bit_simps bit_128_iff)

lemma continuation_payload:
  "8 \<le> LENGTH('a) \<Longrightarrow>
   take_bit 7 (ucast (ucast (v OR 128 :: 'a::len word) :: byte)) = ucast (take_bit 7 v)"
  by (rule bit_word_eqI)
    (simp only: bit_unsigned_iff bit_take_bit_iff bit_or_iff bit_128_iff, auto simp: bit_simps)

lemma small_take_bit: "v < 128 \<Longrightarrow> take_bit 7 v = v" for v :: "'a::len word"
  using less_mask_eq [of v 7] by (simp add: take_bit_eq_mask)

lemma small_not_bit_7: "v < 128 \<Longrightarrow> \<not> bit v 7" for v :: "'a::len word"
  using small_take_bit [of v] bit_take_bit_iff [of 7 v 7] by auto

lemma final_byte:
  "v < 128 \<Longrightarrow> \<not> bit (ucast (ucast (v :: 'a::len word) :: byte) :: 'b::len word) 7"
  using small_not_bit_7 [of v] by (auto simp: bit_simps)

lemma final_payload:
  fixes v :: "'a::len word"
  assumes "v < 128"
  shows "ucast (ucast v :: byte) = (ucast v :: 'b::len word)"
proof -
  have "ucast (ucast (take_bit 7 v) :: byte) = (ucast (take_bit 7 v) :: 'b::len word)"
    by (rule bit_word_eqI) (auto simp: bit_simps)
  with assms show ?thesis by (simp add: small_take_bit)
qed

lemmas varint_byte_simps = and_128_eq_0_iff and_127_take_bit continuation_bit continuation_payload
  final_byte final_payload small_not_bit_7 or.assoc word_split_shift word_split_shift_ucast

end
