(* ===== verification/Coding.thy ===== *)
theory Coding
  imports Nova_Prelude
begin

text \<open>
  The byte encodings of \<^verbatim>\<open>util/coding.h\<close> and \<^verbatim>\<open>util/coding.cc\<close>: fixed-width little-endian
  integers, varints, length-prefixed strings and booleans. Where C++ overloads a name, the
  variant that reads through a raw pointer carries the suffix \<open>_ptr\<close>.
\<close>

subsection \<open>Fixed-width integers\<close>

definition EncodeFixed32 :: "u32 \<Rightarrow> bytes" where
  "EncodeFixed32 value =
     [ucast value, ucast (drop_bit 8 value), ucast (drop_bit 16 value), ucast (drop_bit 24 value)]"

definition EncodeFixed64 :: "u64 \<Rightarrow> bytes" where
  "EncodeFixed64 value =
     [ucast value, ucast (drop_bit 8 value), ucast (drop_bit 16 value), ucast (drop_bit 24 value),
      ucast (drop_bit 32 value), ucast (drop_bit 40 value), ucast (drop_bit 48 value),
      ucast (drop_bit 56 value)]"

definition PutFixed32 :: "bytes \<Rightarrow> u32 \<Rightarrow> bytes" where
  "PutFixed32 dst value = dst @ EncodeFixed32 value"

definition PutFixed64 :: "bytes \<Rightarrow> u64 \<Rightarrow> bytes" where
  "PutFixed64 dst value = dst @ EncodeFixed64 value"

text \<open>The unchecked readers: they read the first bytes at \<open>ptr\<close>.\<close>

fun DecodeFixed32_ptr :: "bytes \<Rightarrow> u32 option" where
  "DecodeFixed32_ptr (b0 # b1 # b2 # b3 # _) =
     Some (ucast b0 OR push_bit 8 (ucast b1) OR push_bit 16 (ucast b2) OR push_bit 24 (ucast b3))"
| "DecodeFixed32_ptr _ = None"

fun DecodeFixed64_ptr :: "bytes \<Rightarrow> u64 option" where
  "DecodeFixed64_ptr (b0 # b1 # b2 # b3 # b4 # b5 # b6 # b7 # _) =
     Some (ucast b0 OR push_bit 8 (ucast b1) OR push_bit 16 (ucast b2) OR push_bit 24 (ucast b3) OR
           push_bit 32 (ucast b4) OR push_bit 40 (ucast b5) OR push_bit 48 (ucast b6) OR
           push_bit 56 (ucast b7))"
| "DecodeFixed64_ptr _ = None"

text \<open>The checked readers, which advance the slice.\<close>

definition DecodeFixed32 :: "u32 decoder" where
  "DecodeFixed32 ptr =
     (if length ptr < 4 then None
      else do { n \<leftarrow> DecodeFixed32_ptr ptr; Some (n, drop 4 ptr) })"

definition DecodeFixed64 :: "u64 decoder" where
  "DecodeFixed64 ptr =
     (if length ptr < 8 then None
      else do { n \<leftarrow> DecodeFixed64_ptr ptr; Some (n, drop 8 ptr) })"

lemma DecodeFixed32_ptr_Encode: "DecodeFixed32_ptr (EncodeFixed32 v @ rest) = Some v"
  by (simp add: EncodeFixed32_def bytes_of_word)

lemma DecodeFixed64_ptr_Encode: "DecodeFixed64_ptr (EncodeFixed64 v @ rest) = Some v"
  by (simp add: EncodeFixed64_def bytes_of_word)

lemma length_EncodeFixed32 [simp, size_simps]: "length (EncodeFixed32 v) = 4"
  by (simp add: EncodeFixed32_def)

lemma length_EncodeFixed64 [simp, size_simps]: "length (EncodeFixed64 v) = 8"
  by (simp add: EncodeFixed64_def)

text \<open>Every four (eight) bytes are the encoding of a number.\<close>

lemma EncodeFixed32_surj: "length bs = 4 \<Longrightarrow> \<exists>v. bs = EncodeFixed32 v"
proof -
  assume "length bs = 4"
  then obtain b0 b1 b2 b3 where bs: "bs = [b0, b1, b2, b3]"
    by (auto simp: numeral_eq_Suc length_Suc_conv)
  have "bs = EncodeFixed32 (ucast b0 OR push_bit 8 (ucast b1) OR push_bit 16 (ucast b2) OR
      push_bit 24 (ucast b3))"
    unfolding bs EncodeFixed32_def
    by (auto intro!: bit_word_eqI simp: bit_simps bit_byte_out)
  then show ?thesis ..
qed

lemma EncodeFixed64_surj: "length bs = 8 \<Longrightarrow> \<exists>v. bs = EncodeFixed64 v"
proof -
  assume "length bs = 8"
  then obtain b0 b1 b2 b3 b4 b5 b6 b7 where bs: "bs = [b0, b1, b2, b3, b4, b5, b6, b7]"
    by (auto simp: numeral_eq_Suc length_Suc_conv)
  have "bs = EncodeFixed64 (ucast b0 OR push_bit 8 (ucast b1) OR push_bit 16 (ucast b2) OR
      push_bit 24 (ucast b3) OR push_bit 32 (ucast b4) OR push_bit 40 (ucast b5) OR
      push_bit 48 (ucast b6) OR push_bit 56 (ucast b7))"
    unfolding bs EncodeFixed64_def
    by (auto intro!: bit_word_eqI simp: bit_simps bit_byte_out)
  then show ?thesis ..
qed

interpretation fixed32: fixed_codec EncodeFixed32 DecodeFixed32 "\<lambda>_. True" 4
  by unfold_locales (simp_all add: DecodeFixed32_def DecodeFixed32_ptr_Encode)

interpretation fixed64: fixed_codec EncodeFixed64 DecodeFixed64 "\<lambda>_. True" 8
  by unfold_locales (simp_all add: DecodeFixed64_def DecodeFixed64_ptr_Encode)

interpretation fixed32: exact_codec EncodeFixed32 DecodeFixed32 "\<lambda>_. True"
proof
  fix input v rest
  assume dec: "DecodeFixed32 input = Some (v, rest)"
  then have "4 \<le> length input" by (auto simp: DecodeFixed32_def split: if_splits)
  then obtain u where "take 4 input = EncodeFixed32 u"
    using EncodeFixed32_surj [of "take 4 input"] by auto
  then have "input = EncodeFixed32 u @ drop 4 input" by (metis append_take_drop_id)
  with dec show "True \<and> input = EncodeFixed32 v @ rest"
    by (metis fixed32.dec_enc option.inject prod.inject)
qed

interpretation fixed64: exact_codec EncodeFixed64 DecodeFixed64 "\<lambda>_. True"
proof
  fix input v rest
  assume dec: "DecodeFixed64 input = Some (v, rest)"
  then have "8 \<le> length input" by (auto simp: DecodeFixed64_def split: if_splits)
  then obtain u where "take 8 input = EncodeFixed64 u"
    using EncodeFixed64_surj [of "take 8 input"] by auto
  then have "input = EncodeFixed64 u @ drop 8 input" by (metis append_take_drop_id)
  with dec show "True \<and> input = EncodeFixed64 v @ rest"
    by (metis fixed64.dec_enc option.inject prod.inject)
qed

lemmas DecodeFixed32_iff = fixed32.dec_iff [simplified] and DecodeFixed64_iff = fixed64.dec_iff [simplified]

declare fixed32.dec_enc [simplified, codec_simps] fixed64.dec_enc [simplified, codec_simps]

subsection \<open>Varints\<close>

text \<open>\<open>EncodeVarint32\<close> is the unrolled form, with its five length classes.\<close>

definition EncodeVarint32 :: "u32 \<Rightarrow> bytes" where
  "EncodeVarint32 v =
     (let B = 128 in
      if v < push_bit 7 1 then [ucast v]
      else if v < push_bit 14 1 then [ucast (v OR B), ucast (drop_bit 7 v)]
      else if v < push_bit 21 1 then
        [ucast (v OR B), ucast (drop_bit 7 v OR B), ucast (drop_bit 14 v)]
      else if v < push_bit 28 1 then
        [ucast (v OR B), ucast (drop_bit 7 v OR B), ucast (drop_bit 14 v OR B),
         ucast (drop_bit 21 v)]
      else
        [ucast (v OR B), ucast (drop_bit 7 v OR B), ucast (drop_bit 14 v OR B),
         ucast (drop_bit 21 v OR B), ucast (drop_bit 28 v)])"

lemma unat_drop_bit_7_less: "v \<ge> 128 \<Longrightarrow> unat (drop_bit 7 v) < unat v" for v :: u64
  by (simp add: drop_bit_eq_div unat_div word_le_nat_alt div_less_dividend)

function EncodeVarint64 :: "u64 \<Rightarrow> bytes" where
  "EncodeVarint64 v =
     (if v \<ge> 128 then ucast (v OR 128) # EncodeVarint64 (drop_bit 7 v) else [ucast v])"
  by pat_completeness auto
termination
  by (relation "measure unat") (auto intro: unat_drop_bit_7_less)

declare EncodeVarint64.simps [simp del]

lemma EncodeVarint64_less_128: "v < 128 \<Longrightarrow> EncodeVarint64 v = [ucast v]"
  by (simp add: EncodeVarint64.simps)

lemma EncodeVarint64_ge_128:
  "v \<ge> 128 \<Longrightarrow> EncodeVarint64 v = ucast (v OR 128) # EncodeVarint64 (drop_bit 7 v)"
  by (subst EncodeVarint64.simps) simp

definition PutVarint32 :: "bytes \<Rightarrow> u32 \<Rightarrow> bytes" where
  "PutVarint32 dst v = dst @ EncodeVarint32 v"

definition PutVarint64 :: "bytes \<Rightarrow> u64 \<Rightarrow> bytes" where
  "PutVarint64 dst v = dst @ EncodeVarint64 v"

function VarintLength :: "u64 \<Rightarrow> nat" where
  "VarintLength v = (if v \<ge> 128 then Suc (VarintLength (drop_bit 7 v)) else 1)"
  by pat_completeness auto
termination
  by (relation "measure unat") (auto intro: unat_drop_bit_7_less)

declare VarintLength.simps [simp del]

text \<open>The decoding loops, from the state \<open>shift\<close>, \<open>result\<close> at the bytes \<open>p .. limit\<close>.\<close>

fun GetVarint32PtrFallback_loop :: "nat \<Rightarrow> u32 \<Rightarrow> u32 decoder" where
  "GetVarint32PtrFallback_loop shift result [] = None"
| "GetVarint32PtrFallback_loop shift result (b # p) =
     (if shift \<le> 28 then
        (let byte = ucast b in
         if byte AND 128 \<noteq> 0 then
           GetVarint32PtrFallback_loop (shift + 7) (result OR push_bit shift (byte AND 127)) p
         else Some (result OR push_bit shift byte, p))
      else None)"

definition GetVarint32PtrFallback :: "u32 decoder" where
  "GetVarint32PtrFallback p = GetVarint32PtrFallback_loop 0 0 p"

definition GetVarint32Ptr :: "u32 decoder" where
  "GetVarint32Ptr p =
     (case p of
        b # q \<Rightarrow>
          (let result = ucast b in
           if result AND 128 = 0 then Some (result, q) else GetVarint32PtrFallback p)
      | [] \<Rightarrow> GetVarint32PtrFallback p)"

definition GetVarint32 :: "u32 decoder" where
  "GetVarint32 input = GetVarint32Ptr input"

fun GetVarint64Ptr_loop :: "nat \<Rightarrow> u64 \<Rightarrow> u64 decoder" where
  "GetVarint64Ptr_loop shift result [] = None"
| "GetVarint64Ptr_loop shift result (b # p) =
     (if shift \<le> 63 then
        (let byte = ucast b in
         if byte AND 128 \<noteq> 0 then
           GetVarint64Ptr_loop (shift + 7) (result OR push_bit shift (byte AND 127)) p
         else Some (result OR push_bit shift byte, p))
      else None)"

definition GetVarint64Ptr :: "u64 decoder" where
  "GetVarint64Ptr p = GetVarint64Ptr_loop 0 0 p"

definition GetVarint64 :: "u64 decoder" where
  "GetVarint64 input = GetVarint64Ptr input"

subsection \<open>Strings and booleans\<close>

definition PutLengthPrefixedSlice :: "bytes \<Rightarrow> bytes \<Rightarrow> bytes" where
  "PutLengthPrefixedSlice dst value = PutVarint32 dst (of_nat (length value)) @ value"

definition GetLengthPrefixedSlice_ptr :: "bytes decoder" where
  "GetLengthPrefixedSlice_ptr p =
     do { (len, p) \<leftarrow> GetVarint32Ptr p;
          if unat len > length p then None else Some (take (unat len) p, drop (unat len) p) }"

definition GetLengthPrefixedSlice :: "bytes decoder" where
  "GetLengthPrefixedSlice input =
     do { (len, input) \<leftarrow> GetVarint32 input;
          if length input \<ge> unat len then Some (take (unat len) input, drop (unat len) input)
          else None }"

definition EncodeStr :: "bytes \<Rightarrow> bytes" where
  "EncodeStr src = EncodeFixed32 (of_nat (length src)) @ src"

definition EncodeSlice :: "bytes \<Rightarrow> bytes" where
  "EncodeSlice src = EncodeFixed32 (of_nat (length src)) @ src"

text \<open>
  \<open>DecodeStr_ptr\<close> and \<open>DecodeStr\<close> append to \<open>result\<close>. \<open>DecodeStr_slice\<close> has the variant that
  returns a slice; its flag \<^verbatim>\<open>copy\<close> decides who owns the bytes, not their value.
\<close>

definition DecodeStr_ptr :: "bytes \<Rightarrow> bytes decoder" where
  "DecodeStr_ptr result src =
     do { size \<leftarrow> DecodeFixed32_ptr src;
          (let body = drop 4 src in
           if length body < unat size then None
           else Some (result @ take (unat size) body, drop (unat size) body)) }"

definition DecodeStr :: "bytes \<Rightarrow> bytes decoder" where
  "DecodeStr result src =
     do { (size, src) \<leftarrow> DecodeFixed32 src;
          if length src < unat size then None
          else Some (result @ take (unat size) src, drop (unat size) src) }"

definition DecodeStr_slice :: "bytes decoder" where
  "DecodeStr_slice ptr =
     do { (n, ptr) \<leftarrow> DecodeFixed32 ptr;
          if length ptr \<ge> unat n then Some (take (unat n) ptr, drop (unat n) ptr) else None }"

definition DecodeSlice :: "bytes \<Rightarrow> bytes option" where
  "DecodeSlice src =
     do { size \<leftarrow> DecodeFixed32_ptr src;
          (let body = drop 4 src in
           if length body < unat size then None else Some (take (unat size) body)) }"

abbreviation char_byte :: "char \<Rightarrow> byte" where
  "char_byte c \<equiv> of_char c"

definition EncodeBool :: "bool \<Rightarrow> bytes" where
  "EncodeBool value = (if value then [char_byte (CHR ''1'')] else [char_byte (CHR ''2'')])"

text \<open>The pointer variant asserts that the byte is one of the two it knows.\<close>

definition DecodeBool_ptr :: "bytes \<Rightarrow> bool option" where
  "DecodeBool_ptr dst =
     (case dst of
        c # _ \<Rightarrow> if c = char_byte (CHR ''1'') then Some True
                 else if c = char_byte (CHR ''2'') then Some False else None
      | [] \<Rightarrow> None)"

definition DecodeBool :: "bool decoder" where
  "DecodeBool ptr =
     (case ptr of
        c # q \<Rightarrow> if c = char_byte (CHR ''1'') then Some (True, q)
                 else if c = char_byte (CHR ''2'') then Some (False, q) else None
      | [] \<Rightarrow> None)"

subsection \<open>Varints round trip\<close>

lemma unat_drop_bit_7_bound: "unat v < 2 ^ k \<Longrightarrow> 7 \<le> k \<Longrightarrow> unat (drop_bit 7 v) < 2 ^ (k - 7)"
  for v :: u64
proof -
  assume "unat v < 2 ^ k" and "7 \<le> k"
  then have "unat v < 2 ^ (k - 7) * 2 ^ 7"
    by (metis le_add_diff_inverse2 power_add)
  then show ?thesis
    by (simp add: drop_bit_eq_div unat_div less_mult_imp_div_less)
qed

lemma GetVarint64Ptr_loop_Encode:
  "unat v < 2 ^ (64 - shift) \<Longrightarrow> shift \<le> 63 \<Longrightarrow>
   GetVarint64Ptr_loop shift result (EncodeVarint64 v @ rest) = Some (result OR push_bit shift v, rest)"
proof (induction v arbitrary: shift result rule: EncodeVarint64.induct)
  case (1 v)
  show ?case
  proof (cases "v \<ge> 128")
    case True
    then have "2 ^ 7 < (2 :: nat) ^ (64 - shift)"
      using "1.prems"(1) by (simp add: word_le_nat_alt)
    then have shift: "7 < 64 - shift"
      by (rule power_less_imp_less_exp [rotated]) simp
    with "1.prems"(1) have "unat (drop_bit 7 v) < 2 ^ (64 - (shift + 7))"
      using unat_drop_bit_7_bound [of v "64 - shift"] by simp
    with "1.IH" True shift show ?thesis
      by (simp add: EncodeVarint64_ge_128 varint_byte_simps)
  next
    case False
    with "1.prems" show ?thesis
      by (simp add: EncodeVarint64_less_128 varint_byte_simps)
  qed
qed

lemma GetVarint32PtrFallback_loop_Encode:
  "unat v < 2 ^ (32 - shift) \<Longrightarrow> shift \<le> 28 \<Longrightarrow> 7 dvd shift \<Longrightarrow>
   GetVarint32PtrFallback_loop shift result (EncodeVarint64 v @ rest) =
     Some (result OR push_bit shift (ucast v), rest)"
proof (induction v arbitrary: shift result rule: EncodeVarint64.induct)
  case (1 v)
  show ?case
  proof (cases "v \<ge> 128")
    case True
    then have "2 ^ 7 < (2 :: nat) ^ (32 - shift)"
      using "1.prems"(1) by (simp add: word_le_nat_alt)
    then have "7 < 32 - shift"
      by (rule power_less_imp_less_exp [rotated]) simp
    with "1.prems"(3) have shift: "shift \<le> 21" by presburger
    with "1.prems"(1) have "unat (drop_bit 7 v) < 2 ^ (32 - (shift + 7))"
      using unat_drop_bit_7_bound [of v "32 - shift"] by simp
    with "1.IH" "1.prems"(3) True shift show ?thesis
      by (simp add: EncodeVarint64_ge_128 varint_byte_simps)
  next
    case False
    with "1.prems" show ?thesis
      by (simp add: EncodeVarint64_less_128 varint_byte_simps bit_ucast_iff Let_def)
  qed
qed

text \<open>The unrolled 32-bit encoder writes what the 64-bit loop would.\<close>

lemma ge_128_drop_bit_iff: "128 \<le> drop_bit n (ucast v :: u64) \<longleftrightarrow> 128 * 2 ^ n \<le> unat v" for v :: u32
  unfolding word_le_nat_alt unat_drop_bit_eq
  by (simp add: drop_bit_eq_div less_eq_div_iff_mult_less_eq)

lemma byte_drop_bit_ucast:
  "(ucast (drop_bit n (ucast v :: u64) OR 128) :: byte) = ucast (drop_bit n v OR 128)"
  "(ucast (drop_bit n (ucast v :: u64)) :: byte) = ucast (drop_bit n v)" for v :: u32
  by (rule bit_word_eqI, auto simp: bit_simps dest: bit_imp_le_length)+

lemma EncodeVarint32_eq_EncodeVarint64: "EncodeVarint32 v = EncodeVarint64 (ucast v)"
proof -
  define w :: u64 where "w = ucast v"
  have ge: "128 \<le> drop_bit n w \<longleftrightarrow> 128 * 2 ^ n \<le> unat v" for n
    by (simp add: w_def ge_128_drop_bit_iff)
  have byte: "ucast (drop_bit n w OR 128) = (ucast (drop_bit n v OR 128) :: byte)"
    "ucast (drop_bit n w) = (ucast (drop_bit n v) :: byte)" for n
    by (simp_all add: w_def byte_drop_bit_ucast)
  have unfold: "EncodeVarint64 (drop_bit n w) =
      (if 128 * 2 ^ n \<le> unat v then ucast (drop_bit n v OR 128) # EncodeVarint64 (drop_bit (7 + n) w)
       else [ucast (drop_bit n v)])" for n
    by (subst EncodeVarint64.simps) (simp add: ge byte drop_bit_drop_bit)
  have "EncodeVarint64 w = EncodeVarint32 v"
    using unat_u32_less [of v] unfold [of 0] unfold [of 7] unfold [of 14] unfold [of 21] unfold [of 28]
    by (simp add: EncodeVarint32_def Let_def word_less_nat_alt not_less)
  then show ?thesis by (simp add: w_def)
qed

lemma GetVarint64_Encode: "GetVarint64 (EncodeVarint64 v @ rest) = Some (v, rest)"
  using GetVarint64Ptr_loop_Encode [of v 0 0 rest] unat_u64_less [of v]
  by (simp add: GetVarint64_def GetVarint64Ptr_def)

lemma GetVarint32PtrFallback_Encode: "GetVarint32PtrFallback (EncodeVarint32 v @ rest) = Some (v, rest)"
  using GetVarint32PtrFallback_loop_Encode [of "ucast v" 0 0 rest] unat_u32_less [of v]
  by (simp add: GetVarint32PtrFallback_def EncodeVarint32_eq_EncodeVarint64)

text \<open>The one-byte fast path of \<open>GetVarint32Ptr\<close> agrees with the loop it short-cuts.\<close>

lemma GetVarint32Ptr_eq_Fallback: "GetVarint32Ptr p = GetVarint32PtrFallback p"
  by (cases p) (simp_all add: GetVarint32Ptr_def GetVarint32PtrFallback_def Let_def)

interpretation varint32: codec EncodeVarint32 GetVarint32 "\<lambda>_. True"
  by unfold_locales (simp add: GetVarint32_def GetVarint32Ptr_eq_Fallback GetVarint32PtrFallback_Encode)

interpretation varint64: codec EncodeVarint64 GetVarint64 "\<lambda>_. True"
  by unfold_locales (rule GetVarint64_Encode)

declare varint32.dec_enc [simplified, codec_simps] varint64.dec_enc [simplified, codec_simps]

lemma GetVarint32Ptr_Encode [codec_simps]: "GetVarint32Ptr (EncodeVarint32 v @ rest) = Some (v, rest)"
  using varint32.dec_enc [of v rest] by (simp add: GetVarint32_def)

subsection \<open>Varints: size\<close>

lemma length_EncodeVarint64: "length (EncodeVarint64 v) = VarintLength v"
proof (induction v rule: EncodeVarint64.induct)
  case (1 v)
  then show ?case by (subst EncodeVarint64.simps, subst VarintLength.simps) simp
qed

lemma VarintLength_le: "unat v < 2 ^ (7 * k) \<Longrightarrow> 0 < k \<Longrightarrow> VarintLength v \<le> k"
proof (induction k arbitrary: v)
  case 0
  then show ?case by simp
next
  case (Suc k)
  show ?case
  proof (cases "v \<ge> 128")
    case True
    then have "128 \<le> unat v" by (simp add: word_le_nat_alt)
    with Suc.prems(1) have "0 < k" by (cases k) auto
    moreover have "unat (drop_bit 7 v) < 2 ^ (7 * k)"
      using unat_drop_bit_7_bound [OF Suc.prems(1)] by simp
    ultimately show ?thesis
      using Suc.IH [of "drop_bit 7 v"] by (subst VarintLength.simps) simp
  next
    case False
    then show ?thesis by (subst VarintLength.simps) simp
  qed
qed

lemma VarintLength_pos: "0 < VarintLength v"
  by (subst VarintLength.simps) simp

text \<open>The buffers \<^verbatim>\<open>char buf[10]\<close> and \<^verbatim>\<open>char buf[5]\<close> of the two \<^verbatim>\<open>Put\<close> routines are large enough.\<close>

lemma length_EncodeVarint64_le: "length (EncodeVarint64 v) \<le> 10"
proof -
  have "unat v < 2 ^ (7 * 10)" using unat_u64_less [of v] by simp
  then show ?thesis
    using VarintLength_le [of v 10] by (simp add: length_EncodeVarint64)
qed

lemma length_EncodeVarint32_le: "length (EncodeVarint32 v) \<le> 5"
proof -
  have "unat (ucast v :: u64) < 2 ^ (7 * 5)" using unat_u32_less [of v] by simp
  then show ?thesis
    using VarintLength_le [of "ucast v" 5]
    by (simp add: EncodeVarint32_eq_EncodeVarint64 length_EncodeVarint64)
qed

lemma EncodeVarint32_not_Nil [simp]: "EncodeVarint32 v \<noteq> []"
  by (metis EncodeVarint32_eq_EncodeVarint64 VarintLength_pos length_EncodeVarint64 length_greater_0_conv)

subsection \<open>Strings and booleans round trip\<close>

text \<open>A length prefix has 32 bits: the string must be shorter than 4 GiB.\<close>

abbreviation fits32 :: "'a list \<Rightarrow> bool" where
  "fits32 xs \<equiv> length xs < 2 ^ 32"

interpretation str: exact_codec EncodeStr "DecodeStr []" fits32
proof
  show "fits32 s \<Longrightarrow> DecodeStr [] (EncodeStr s @ rest) = Some (s, rest)" for s rest
    by (simp add: EncodeStr_def DecodeStr_def codec_simps)
  show "DecodeStr [] input = Some (s, rest) \<Longrightarrow> fits32 s \<and> input = EncodeStr s @ rest" for input s rest
    using unat_u32_less
    by (auto simp: DecodeStr_def EncodeStr_def DecodeFixed32_iff not_less split: Option.bind_splits if_splits)
qed

interpretation slice: exact_codec EncodeStr DecodeStr_slice fits32
proof
  show "fits32 s \<Longrightarrow> DecodeStr_slice (EncodeStr s @ rest) = Some (s, rest)" for s rest
    by (simp add: EncodeStr_def DecodeStr_slice_def codec_simps)
  show "DecodeStr_slice input = Some (s, rest) \<Longrightarrow> fits32 s \<and> input = EncodeStr s @ rest" for input s rest
    using unat_u32_less
    by (auto simp: DecodeStr_slice_def EncodeStr_def DecodeFixed32_iff split: Option.bind_splits if_splits)
qed

lemmas DecodeStr_iff = str.dec_iff and DecodeStr_slice_iff = slice.dec_iff

interpretation lpslice: codec "PutLengthPrefixedSlice []" GetLengthPrefixedSlice fits32
  by unfold_locales
    (simp add: PutLengthPrefixedSlice_def GetLengthPrefixedSlice_def PutVarint32_def codec_simps)

interpretation boolean: fixed_codec EncodeBool DecodeBool "\<lambda>_. True" 1
  by unfold_locales (simp_all add: EncodeBool_def DecodeBool_def)

declare str.dec_enc [codec_simps] slice.dec_enc [codec_simps] lpslice.dec_enc [codec_simps]
  boolean.dec_enc [simplified, codec_simps]

lemma EncodeSlice_eq_EncodeStr: "EncodeSlice = EncodeStr"
  by (rule ext) (simp add: EncodeSlice_def EncodeStr_def)

lemma DecodeStr_ptr_Encode [codec_simps]:
  "fits32 s \<Longrightarrow> DecodeStr_ptr result (EncodeStr s @ rest) = Some (result @ s, rest)"
  by (simp add: DecodeStr_ptr_def EncodeStr_def DecodeFixed32_ptr_Encode)

lemma DecodeStr_append_Encode:
  "fits32 s \<Longrightarrow> DecodeStr result (EncodeStr s @ rest) = Some (result @ s, rest)"
  by (simp add: DecodeStr_def EncodeStr_def codec_simps)

lemma DecodeSlice_Encode: "fits32 s \<Longrightarrow> DecodeSlice (EncodeStr s @ rest) = Some s"
  by (simp add: DecodeSlice_def EncodeStr_def DecodeFixed32_ptr_Encode)

lemma GetLengthPrefixedSlice_ptr_Put:
  "fits32 s \<Longrightarrow> GetLengthPrefixedSlice_ptr (PutLengthPrefixedSlice [] s @ rest) = Some (s, rest)"
  by (simp add: GetLengthPrefixedSlice_ptr_def PutLengthPrefixedSlice_def PutVarint32_def codec_simps)

lemma DecodeBool_ptr_Encode: "DecodeBool_ptr (EncodeBool b @ rest) = Some b"
  by (simp add: DecodeBool_ptr_def EncodeBool_def)

lemma length_EncodeStr [simp, size_simps]: "length (EncodeStr s) = 4 + length s"
  by (simp add: EncodeStr_def)

lemma length_EncodeBool [simp, size_simps]: "length (EncodeBool b) = 1"
  by (simp add: EncodeBool_def)

subsection \<open>Properties\<close>

text \<open>
  (C16) Variable-length integers: the unrolled 32-bit encoder writes exactly what the 64-bit loop
  writes for the same number, both decoders give back the number and the bytes behind it, the 64-bit
  encoder writes as many bytes as \<open>VarintLength\<close> says, and the stack buffers of \<open>PutVarint32\<close> (5 bytes)
  and \<open>PutVarint64\<close> (10 bytes) are never overrun.
\<close>

theorem varint_round_trip:
  "EncodeVarint32 w = EncodeVarint64 (ucast w) \<and>
   GetVarint32 (PutVarint32 [] w @ rest) = Some (w, rest) \<and>
   GetVarint64 (PutVarint64 [] v @ rest) = Some (v, rest) \<and>
   length (EncodeVarint64 v) = VarintLength v \<and>
   length (EncodeVarint32 w) \<le> 5 \<and> length (EncodeVarint64 v) \<le> 10"
  using EncodeVarint32_eq_EncodeVarint64 length_EncodeVarint64 length_EncodeVarint32_le
    length_EncodeVarint64_le varint32.dec_enc varint64.dec_enc
  by (simp add: PutVarint32_def PutVarint64_def)

text \<open>
  (C17) Length-prefixed strings shorter than 4 GiB read back exactly, from both encodings (fixed-width
  and varint length), and the checked reader of the fixed-width form accepts nothing else: whatever it
  accepts is the encoding of what it returns followed by the rest.
\<close>

theorem string_framing:
  "(fits32 s \<longrightarrow>
      DecodeStr [] (EncodeStr s @ rest) = Some (s, rest) \<and>
      GetLengthPrefixedSlice (PutLengthPrefixedSlice [] s @ rest) = Some (s, rest)) \<and>
   (DecodeStr [] input = Some (s, rest) \<longrightarrow> fits32 s \<and> input = EncodeStr s @ rest)"
  using str.dec_enc lpslice.dec_enc by (simp add: DecodeStr_iff)

theorem string_framing_witness:
  "DecodeStr [] (EncodeStr [7, 8] @ [9]) = Some ([7, 8], [9]) \<and>
   GetLengthPrefixedSlice (PutLengthPrefixedSlice [] [7, 8] @ [9]) = Some ([7, 8], [9])"
  using string_framing [of "[7, 8]" "[9]"] by simp

end
