(* ===== verification/Comparator.thy ===== *)
theory Comparator
  imports Coding "HOL-Library.List_Lexorder"
begin

text \<open>
  Three-way comparison of byte strings (\<^verbatim>\<open>Slice::compare\<close> in \<^verbatim>\<open>include/leveldb/slice.h\<close>), the
  comparator interface of \<^verbatim>\<open>include/leveldb/comparator.h\<close> as a locale, and the bytewise comparator of
  \<^verbatim>\<open>util/comparator.cc\<close>. Only the sign of a comparison is used by its callers; the model returns
  -1, 0 or 1.
\<close>

subsection \<open>Slices\<close>

text \<open>
  \<^verbatim>\<open>memcmp\<close> of the C library: bytes compare as unsigned values, the first difference decides. Its
  callers never pass an \<open>n\<close> beyond either buffer.
\<close>

fun memcmp :: "bytes \<Rightarrow> bytes \<Rightarrow> nat \<Rightarrow> int" where
  "memcmp (x # a) (y # b) (Suc n) = (if x < y then -1 else if y < x then 1 else memcmp a b n)"
| "memcmp _ _ _ = 0"

definition Slice_compare :: "bytes \<Rightarrow> bytes \<Rightarrow> int" where
  "Slice_compare a b =
     (let min_len = (if length a < length b then length a else length b);
          r = memcmp a b min_len
      in if r = 0 then (if length a < length b then -1 else if length a > length b then 1 else r)
         else r)"

definition Slice_eq :: "bytes \<Rightarrow> bytes \<Rightarrow> bool" where
  "Slice_eq x y \<longleftrightarrow> length x = length y \<and> memcmp x y (length x) = 0"

definition Slice_starts_with :: "bytes \<Rightarrow> bytes \<Rightarrow> bool" where
  "Slice_starts_with s x \<longleftrightarrow> length s \<ge> length x \<and> memcmp s x (length x) = 0"

subsection \<open>The bytewise comparator\<close>

definition Bytewise_Compare :: "bytes \<Rightarrow> bytes \<Rightarrow> int" where
  "Bytewise_Compare a b = Slice_compare a b"

text \<open>The loop that finds the length of the common prefix, from \<open>diff_index = 0\<close>.\<close>

fun diff_index :: "bytes \<Rightarrow> bytes \<Rightarrow> nat" where
  "diff_index (x # xs) (y # ys) = (if x = y then Suc (diff_index xs ys) else 0)"
| "diff_index _ _ = 0"

definition Bytewise_FindShortestSeparator :: "bytes \<Rightarrow> bytes \<Rightarrow> bytes" where
  "Bytewise_FindShortestSeparator start limit =
     (let min_length = min (length start) (length limit);
          i = diff_index start limit
      in if i \<ge> min_length then start
         else let diff_byte = start ! i
              in if diff_byte < 0xff \<and> uint diff_byte + 1 < uint (limit ! i)
                 then take (i + 1) (start[i := start ! i + 1])
                 else start)"

text \<open>The loop over \<open>i\<close>: the bytes before position \<open>i\<close> are all 0xff.\<close>

fun Bytewise_FindShortSuccessor :: "bytes \<Rightarrow> bytes" where
  "Bytewise_FindShortSuccessor [] = []"
| "Bytewise_FindShortSuccessor (b # key) =
     (if b \<noteq> 0xff then [b + 1]
      else b # Bytewise_FindShortSuccessor key)"

subsection \<open>The contract of a comparator\<close>

text \<open>
  A comparator is a total preorder given by its three-way comparison. \<open>valid\<close> is the set of
  strings it is defined on (an internal key has at least eight bytes).
\<close>

locale comparator =
  fixes cmp :: "bytes \<Rightarrow> bytes \<Rightarrow> int"
    and valid :: "bytes \<Rightarrow> bool"
  assumes cmp_sym: "valid a \<Longrightarrow> valid b \<Longrightarrow> cmp a b < 0 \<longleftrightarrow> cmp b a > 0"
    and cmp_le_trans:
      "valid a \<Longrightarrow> valid b \<Longrightarrow> valid c \<Longrightarrow> cmp a b \<le> 0 \<Longrightarrow> cmp b c \<le> 0 \<Longrightarrow> cmp a c \<le> 0"
begin

lemma cmp_refl: "valid a \<Longrightarrow> cmp a a = 0"
  using cmp_sym [of a a] by (cases "cmp a a" "0 :: int" rule: linorder_cases) auto

lemma cmp_eq_sym: "valid a \<Longrightarrow> valid b \<Longrightarrow> cmp a b = 0 \<longleftrightarrow> cmp b a = 0"
  using cmp_sym [of a b] cmp_sym [of b a] by linarith

lemma cmp_less_le_trans:
  assumes "valid a" "valid b" "valid c" "cmp a b < 0" "cmp b c \<le> 0"
  shows "cmp a c < 0"
proof (rule ccontr)
  assume "\<not> cmp a c < 0"
  then have "cmp c a \<le> 0" using assms cmp_sym [of c a] cmp_sym [of a c] by linarith
  with assms have "cmp b a \<le> 0" using cmp_le_trans [of b c a] by simp
  with assms show False using cmp_sym [of a b] by simp
qed

lemma cmp_le_less_trans:
  assumes "valid a" "valid b" "valid c" "cmp a b \<le> 0" "cmp b c < 0"
  shows "cmp a c < 0"
proof (rule ccontr)
  assume "\<not> cmp a c < 0"
  then have "cmp c a \<le> 0" using assms cmp_sym [of c a] cmp_sym [of a c] by linarith
  with assms have "cmp c b \<le> 0" using cmp_le_trans [of c a b] by simp
  with assms show False using cmp_sym [of b c] by simp
qed

lemma cmp_less_trans:
  "valid a \<Longrightarrow> valid b \<Longrightarrow> valid c \<Longrightarrow> cmp a b < 0 \<Longrightarrow> cmp b c < 0 \<Longrightarrow> cmp a c < 0"
  by (rule cmp_less_le_trans) auto

end

text \<open>
  What the table code asks of the two shortening operations: a separator of \<open>start < limit\<close> lies
  in \<open>[start, limit)\<close>, any other \<open>start\<close> is left alone, a successor is not below its key, and
  neither operation makes the key longer.
\<close>

locale shortening_comparator = comparator +
  fixes separator :: "bytes \<Rightarrow> bytes \<Rightarrow> bytes"
    and successor :: "bytes \<Rightarrow> bytes"
  assumes separator_valid: "valid s \<Longrightarrow> valid l \<Longrightarrow> valid (separator s l)"
    and separator_ge: "valid s \<Longrightarrow> valid l \<Longrightarrow> cmp s l < 0 \<Longrightarrow> cmp s (separator s l) \<le> 0"
    and separator_less: "valid s \<Longrightarrow> valid l \<Longrightarrow> cmp s l < 0 \<Longrightarrow> cmp (separator s l) l < 0"
    and separator_unchanged: "valid s \<Longrightarrow> valid l \<Longrightarrow> \<not> cmp s l < 0 \<Longrightarrow> separator s l = s"
    and successor_valid: "valid k \<Longrightarrow> valid (successor k)"
    and successor_ge: "valid k \<Longrightarrow> cmp k (successor k) \<le> 0"
    and separator_length: "valid s \<Longrightarrow> valid l \<Longrightarrow> length (separator s l) \<le> length s"
    and successor_length: "valid k \<Longrightarrow> length (successor k) \<le> length k"
begin

text \<open>
  An index entry between two data blocks: every key of the first block is at or below it, every
  key of the next block is above it.
\<close>

lemma separator_separates:
  assumes "valid s" "valid l" "valid x" "valid y"
    and "cmp s l < 0" "cmp x s \<le> 0" "cmp l y \<le> 0"
  shows "cmp x (separator s l) \<le> 0 \<and> cmp (separator s l) y < 0"
  using assms separator_valid separator_ge separator_less cmp_le_trans cmp_less_le_trans by meson

end

subsection \<open>The bytewise comparator meets the contract\<close>

lemma memcmp_zero_iff: "n \<le> length a \<Longrightarrow> n \<le> length b \<Longrightarrow> memcmp a b n = 0 \<longleftrightarrow> take n a = take n b"
  by (induction a b n rule: memcmp.induct) auto

lemma Slice_eq_iff: "Slice_eq x y \<longleftrightarrow> x = y"
  by (auto simp: Slice_eq_def memcmp_zero_iff)

lemma Slice_compare_Nil: "Slice_compare [] b = (if b = [] then 0 else -1)"
  "Slice_compare a [] = (if a = [] then 0 else 1)"
  by (simp_all add: Slice_compare_def Let_def)

lemma Slice_compare_Cons:
  "Slice_compare (x # a) (y # b) = (if x < y then -1 else if y < x then 1 else Slice_compare a b)"
  by (simp add: Slice_compare_def Let_def)

lemma Nil_less_iff: "[] < b \<longleftrightarrow> b \<noteq> []" for b :: bytes
  by (cases b) auto

lemma Slice_compare_lex: "Slice_compare a b = (if a < b then -1 else if a = b then 0 else 1)"
proof (induction a b rule: diff_index.induct)
  case (1 x xs y ys)
  then show ?case by (auto simp: Slice_compare_Cons)
qed (auto simp: Slice_compare_Nil Nil_less_iff)

lemma Slice_starts_with_iff: "Slice_starts_with s x \<longleftrightarrow> (\<exists>t. s = x @ t)"
  by (auto simp: Slice_starts_with_def memcmp_zero_iff) (metis append_take_drop_id)

lemma Bytewise_Compare_simps:
  "Bytewise_Compare a b < 0 \<longleftrightarrow> a < b"
  "Bytewise_Compare a b = 0 \<longleftrightarrow> a = b"
  "Bytewise_Compare a b > 0 \<longleftrightarrow> b < a"
  "Bytewise_Compare a b \<le> 0 \<longleftrightarrow> a \<le> b"
  by (auto simp: Bytewise_Compare_def Slice_compare_lex)

lemma diff_index_split:
  "diff_index a b < min (length a) (length b) \<Longrightarrow>
   \<exists>p x y xs ys. a = p @ x # xs \<and> b = p @ y # ys \<and> x \<noteq> y \<and> length p = diff_index a b"
proof (induction a b rule: diff_index.induct)
  case (1 x xs y ys)
  show ?case
  proof (cases "x = y")
    case True
    with "1.prems" have "diff_index xs ys < min (length xs) (length ys)" by simp
    then obtain p u v us vs where
      "xs = p @ u # us" "ys = p @ v # vs" "u \<noteq> v" "length p = diff_index xs ys"
      using "1.IH" [OF True] by blast
    with True show ?thesis
      by (intro exI [of _ "x # p"] exI [of _ u] exI [of _ v] exI [of _ us] exI [of _ vs]) simp
  next
    case False
    then show ?thesis by (intro exI [of _ "[]"]) simp
  qed
qed simp_all

lemma take_diff_index: "take (diff_index a b) a = take (diff_index a b) b"
  by (induction a b rule: diff_index.induct) auto

lemma diff_index_le: "diff_index a b \<le> length a" "diff_index a b \<le> length b"
  by (induction a b rule: diff_index.induct) auto

lemma append_less_append_iff: "p @ a < p @ b \<longleftrightarrow> a < b" for a b p :: bytes
  by (induction p) auto

text \<open>A byte that is not 0xff has a successor that does not wrap.\<close>

lemma uint_byte_Suc: "b \<noteq> 0xff \<Longrightarrow> uint (b + 1) = uint b + 1" for b :: byte
proof -
  assume "b \<noteq> 0xff"
  then have "uint b < 255"
    using unsigned_less [of b, where 'a = int] by (simp add: word_uint_eq_iff)
  then show ?thesis by (simp add: uint_plus_if')
qed

lemma separator_cases:
  "Bytewise_FindShortestSeparator start limit = start \<or>
   (\<exists>p x y xs ys. start = p @ x # xs \<and> limit = p @ y # ys \<and> x \<noteq> 0xff \<and> uint x + 1 < uint y \<and>
      Bytewise_FindShortestSeparator start limit = p @ [x + 1])"
proof (cases "diff_index start limit < min (length start) (length limit)")
  case True
  obtain p x y xs ys where *: "start = p @ x # xs" "limit = p @ y # ys" "length p = diff_index start limit"
    using diff_index_split [OF True] by blast
  show ?thesis
  proof (cases "x < 0xff \<and> uint x + 1 < uint y")
    case True': True
    then have "Bytewise_FindShortestSeparator start limit = p @ [x + 1]"
      using True * unfolding Bytewise_FindShortestSeparator_def Let_def
      by (simp add: nth_append list_update_append flip: *(3))
    with True' * show ?thesis by blast
  next
    case False
    then have "Bytewise_FindShortestSeparator start limit = start"
      using True * unfolding Bytewise_FindShortestSeparator_def Let_def
      by (auto simp: nth_append simp flip: *(3))
    then show ?thesis by simp
  qed
next
  case False
  then have "min (length start) (length limit) \<le> diff_index start limit" by (rule leI)
  then show ?thesis by (simp add: Bytewise_FindShortestSeparator_def)
qed

lemma Bytewise_separator_bounds:
  assumes "start < limit"
  shows "start \<le> Bytewise_FindShortestSeparator start limit \<and>
    Bytewise_FindShortestSeparator start limit < limit"
  using separator_cases [of start limit]
proof
  assume "\<exists>p x y xs ys. start = p @ x # xs \<and> limit = p @ y # ys \<and> x \<noteq> 0xff \<and> uint x + 1 < uint y \<and>
      Bytewise_FindShortestSeparator start limit = p @ [x + 1]"
  then obtain p x y xs ys where *: "start = p @ x # xs" "limit = p @ y # ys" "x \<noteq> 0xff"
    "uint x + 1 < uint y" "Bytewise_FindShortestSeparator start limit = p @ [x + 1]" by blast
  then have "x < x + 1" "x + 1 < y" by (simp_all add: word_less_def uint_byte_Suc)
  with * show ?thesis by (simp add: append_less_append_iff less_imp_le)
qed (use assms in simp)

lemma Bytewise_separator_unchanged:
  assumes "\<not> start < limit"
  shows "Bytewise_FindShortestSeparator start limit = start"
  using separator_cases [of start limit]
proof
  assume "\<exists>p x y xs ys. start = p @ x # xs \<and> limit = p @ y # ys \<and> x \<noteq> 0xff \<and> uint x + 1 < uint y \<and>
      Bytewise_FindShortestSeparator start limit = p @ [x + 1]"
  then obtain p x y xs ys where *: "start = p @ x # xs" "limit = p @ y # ys" "uint x + 1 < uint y"
    by blast
  then have "start < limit" by (simp add: append_less_append_iff word_less_def)
  with assms show ?thesis by simp
qed simp

lemma Bytewise_separator_length: "length (Bytewise_FindShortestSeparator s l) \<le> length s"
  using separator_cases [of s l] by auto

lemma Bytewise_successor_ge: "k \<le> Bytewise_FindShortSuccessor k"
  by (induction k) (auto simp: word_less_def uint_byte_Suc)

lemma Bytewise_successor_length: "length (Bytewise_FindShortSuccessor k) \<le> length k"
  by (induction k) auto

interpretation bytewise: shortening_comparator Bytewise_Compare "\<lambda>_. True"
  Bytewise_FindShortestSeparator Bytewise_FindShortSuccessor
  by unfold_locales
    (auto simp: Bytewise_Compare_simps Bytewise_separator_bounds Bytewise_successor_ge
      Bytewise_separator_unchanged Bytewise_separator_length Bytewise_successor_length)

subsection \<open>Properties\<close>

text \<open>
  (C15) The bytewise comparator orders strings lexicographically by unsigned byte, and it shortens
  index keys safely: the separator of \<open>start < limit\<close> stays in \<open>[start, limit)\<close> and is no longer than
  \<open>start\<close>, and the short successor is not below its key and not longer.
\<close>

theorem bytewise_shortening:
  assumes "Bytewise_Compare start limit < 0"
  shows "start < limit \<and>
    Bytewise_Compare start (Bytewise_FindShortestSeparator start limit) \<le> 0 \<and>
    Bytewise_Compare (Bytewise_FindShortestSeparator start limit) limit < 0 \<and>
    length (Bytewise_FindShortestSeparator start limit) \<le> length start \<and>
    Bytewise_Compare start (Bytewise_FindShortSuccessor start) \<le> 0 \<and>
    length (Bytewise_FindShortSuccessor start) \<le> length start"
  using assms bytewise.separator_ge [of start limit] bytewise.separator_less [of start limit]
    bytewise.successor_ge [of start] bytewise.separator_length [of start limit]
    bytewise.successor_length [of start]
  by (simp add: Bytewise_Compare_simps)

theorem bytewise_shortening_witness:
  "Bytewise_Compare [1, 2, 3, 4] (Bytewise_FindShortestSeparator [1, 2, 3, 4] [1, 9]) \<le> 0 \<and>
   Bytewise_FindShortestSeparator [1, 2, 3, 4] [1, 9] = [1, 3]"
  using bytewise_shortening [of "[1, 2, 3, 4]" "[1, 9]"]
  by (simp add: Bytewise_Compare_simps Bytewise_FindShortestSeparator_def Let_def)

end
