(* ===== verification/DBFormat.thy ===== *)
theory DBFormat
  imports Comparator
begin

text \<open>
  Internal keys (\<^verbatim>\<open>db/dbformat.h\<close>, \<^verbatim>\<open>db/dbformat.cc\<close>): a user key followed by an eight-byte tag that
  packs a sequence number and a value type, the comparator that orders them, and the lookup key
  a read seeks to.
\<close>

subsection \<open>Data\<close>

datatype ValueType = kTypeDeletion | kTypeValue

fun ValueType_code :: "ValueType \<Rightarrow> u64" where
  "ValueType_code kTypeDeletion = 0"
| "ValueType_code kTypeValue = 1"

type_synonym SequenceNumber = u64

record ParsedInternalKey =
  pik_user_key :: bytes
  pik_sequence :: SequenceNumber
  pik_type :: ValueType

definition kValueTypeForSeek :: ValueType where
  "kValueTypeForSeek = kTypeValue"

definition kMaxSequenceNumber :: SequenceNumber where
  "kMaxSequenceNumber = push_bit 56 1 - 1"

subsection \<open>Packing and parsing\<close>

text \<open>The source asserts \<^verbatim>\<open>seq <= kMaxSequenceNumber\<close>: the tag has room for 56 bits of it.\<close>

definition PackSequenceAndType :: "u64 \<Rightarrow> ValueType \<Rightarrow> u64" where
  "PackSequenceAndType seq t = push_bit 8 seq OR ValueType_code t"

definition InternalKeyEncodingLength :: "ParsedInternalKey \<Rightarrow> nat" where
  "InternalKeyEncodingLength key = length (pik_user_key key) + 8"

definition AppendInternalKey :: "bytes \<Rightarrow> ParsedInternalKey \<Rightarrow> bytes" where
  "AppendInternalKey result key =
     PutFixed64 (result @ pik_user_key key) (PackSequenceAndType (pik_sequence key) (pik_type key))"

text \<open>The source asserts that an internal key has at least eight bytes.\<close>

definition ExtractUserKey :: "bytes \<Rightarrow> bytes" where
  "ExtractUserKey internal_key = take (length internal_key - 8) internal_key"

definition ParseInternalKey :: "bytes \<Rightarrow> ParsedInternalKey option" where
  "ParseInternalKey internal_key =
     (let n = length internal_key in
      if n < 8 then None
      else do {
        num \<leftarrow> DecodeFixed64_ptr (drop (n - 8) internal_key);
        (let c = num AND 0xff in
         if c \<le> ValueType_code kTypeValue then
           Some \<lparr> pik_user_key = take (n - 8) internal_key, pik_sequence = drop_bit 8 num,
                  pik_type = (if c = 0 then kTypeDeletion else kTypeValue) \<rparr>
         else None) })"

text \<open>Class \<open>InternalKey\<close>: its only field is \<^verbatim>\<open>rep_\<close>.\<close>

definition InternalKey_new :: "bytes \<Rightarrow> SequenceNumber \<Rightarrow> ValueType \<Rightarrow> bytes" where
  "InternalKey_new user_key s t =
     AppendInternalKey [] \<lparr> pik_user_key = user_key, pik_sequence = s, pik_type = t \<rparr>"

definition InternalKey_DecodeFrom :: "bytes \<Rightarrow> bytes \<Rightarrow> bool \<Rightarrow> bytes \<times> bool" where
  "InternalKey_DecodeFrom rep s copy =
     (let rep = (if copy then rep @ s else s) in (rep, rep \<noteq> []))"

definition InternalKey_SetFrom :: "ParsedInternalKey \<Rightarrow> bytes" where
  "InternalKey_SetFrom p = AppendInternalKey [] p"

subsection \<open>The internal key comparator\<close>

text \<open>
  The eight bytes behind the user key. On a key shorter than that (the source asserts there is
  none) the read is out of bounds and the model has no tag.
\<close>

definition InternalKey_tag :: "bytes \<Rightarrow> u64 option" where
  "InternalKey_tag key =
     (if length key < 8 then None else DecodeFixed64_ptr (drop (length key - 8) key))"

definition InternalKeyComparator_Compare :: "(bytes \<Rightarrow> bytes \<Rightarrow> int) \<Rightarrow> bytes \<Rightarrow> bytes \<Rightarrow> int" where
  "InternalKeyComparator_Compare user_compare akey bkey =
     (let r = user_compare (ExtractUserKey akey) (ExtractUserKey bkey) in
      if r = 0 then
        (case (InternalKey_tag akey, InternalKey_tag bkey) of
           (Some anum, Some bnum) \<Rightarrow> if anum > bnum then -1 else if anum < bnum then 1 else r
         | _ \<Rightarrow> r)
      else r)"

definition InternalKeyComparator_FindShortestSeparator ::
    "(bytes \<Rightarrow> bytes \<Rightarrow> int) \<Rightarrow> (bytes \<Rightarrow> bytes \<Rightarrow> bytes) \<Rightarrow> bytes \<Rightarrow> bytes \<Rightarrow> bytes" where
  "InternalKeyComparator_FindShortestSeparator user_compare user_separator start limit =
     (let user_start = ExtractUserKey start;
          user_limit = ExtractUserKey limit;
          tmp = user_separator user_start user_limit
      in if length tmp < length user_start \<and> user_compare user_start tmp < 0
         then PutFixed64 tmp (PackSequenceAndType kMaxSequenceNumber kValueTypeForSeek)
         else start)"

definition InternalKeyComparator_FindShortSuccessor ::
    "(bytes \<Rightarrow> bytes \<Rightarrow> int) \<Rightarrow> (bytes \<Rightarrow> bytes) \<Rightarrow> bytes \<Rightarrow> bytes" where
  "InternalKeyComparator_FindShortSuccessor user_compare user_successor key =
     (let user_key = ExtractUserKey key;
          tmp = user_successor user_key
      in if length tmp < length user_key \<and> user_compare user_key tmp < 0
         then PutFixed64 tmp (PackSequenceAndType kMaxSequenceNumber kValueTypeForSeek)
         else key)"

subsection \<open>Lookup keys\<close>

text \<open>
  The array the constructor fills, from \<^verbatim>\<open>start_\<close> to \<^verbatim>\<open>end_\<close>, and the offset of \<^verbatim>\<open>kstart_\<close> in it.
\<close>

record LookupKey =
  lk_space :: bytes
  lk_kstart :: nat

definition LookupKey_new :: "bytes \<Rightarrow> SequenceNumber \<Rightarrow> LookupKey" where
  "LookupKey_new user_key s =
     (let usize = length user_key;
          prefix = EncodeVarint32 (of_nat (usize + 8))
      in \<lparr> lk_space = prefix @ user_key @ EncodeFixed64 (PackSequenceAndType s kValueTypeForSeek),
           lk_kstart = length prefix \<rparr>)"

definition LookupKey_memtable_key :: "LookupKey \<Rightarrow> bytes" where
  "LookupKey_memtable_key k = lk_space k"

definition LookupKey_internal_key :: "LookupKey \<Rightarrow> bytes" where
  "LookupKey_internal_key k = drop (lk_kstart k) (lk_space k)"

definition LookupKey_user_key :: "LookupKey \<Rightarrow> bytes" where
  "LookupKey_user_key k = take (length (lk_space k) - lk_kstart k - 8) (drop (lk_kstart k) (lk_space k))"

subsection \<open>The tag\<close>

lemma ValueType_code_le: "ValueType_code t \<le> 1"
  by (cases t) simp_all

lemma ValueType_code_eq_iff [simp]: "ValueType_code t = ValueType_code t' \<longleftrightarrow> t = t'"
  by (cases t; cases t') simp_all

lemma unat_kMaxSequenceNumber: "unat kMaxSequenceNumber = 2 ^ 56 - 1"
  by (simp add: kMaxSequenceNumber_def)

lemma unat_ValueType_code: "unat (ValueType_code t) \<le> 1"
  by (cases t) simp_all

lemma PackSequenceAndType_add: "PackSequenceAndType seq t = seq * 256 + ValueType_code t"
proof -
  have "\<not> bit (push_bit 8 seq) n \<or> \<not> bit (ValueType_code t) n" for n
    by (cases t) (auto simp: bit_simps)
  then have "push_bit 8 seq + ValueType_code t = push_bit 8 seq OR ValueType_code t"
    by (rule disjunctive_add)
  then show ?thesis by (simp add: PackSequenceAndType_def push_bit_eq_mult)
qed

lemma unat_PackSequenceAndType:
  assumes "seq \<le> kMaxSequenceNumber"
  shows "unat (PackSequenceAndType seq t) = unat seq * 256 + unat (ValueType_code t)"
proof -
  have "unat seq \<le> 2 ^ 56 - 1"
    using assms unat_kMaxSequenceNumber by (simp add: word_le_nat_alt)
  then show ?thesis
    using unat_ValueType_code [of t] by (simp add: PackSequenceAndType_add unat_word_ariths)
qed

lemma Pack_drop_type: "seq \<le> kMaxSequenceNumber \<Longrightarrow> drop_bit 8 (PackSequenceAndType seq t) = seq"
  using unat_ValueType_code [of t]
  by (simp add: word_unat_eq_iff unat_drop_bit_eq unat_PackSequenceAndType drop_bit_eq_div unat_div)

lemma Pack_type: "PackSequenceAndType seq t AND 0xff = ValueType_code t"
proof -
  have "(x :: u64) AND 0xff = take_bit 8 x" for x
    by (simp add: take_bit_eq_mask mask_eq_exp_minus_1)
  moreover have "take_bit 8 (PackSequenceAndType seq t) = ValueType_code t"
    by (cases t) (auto simp: PackSequenceAndType_def take_bit_or take_bit_push_bit)
  ultimately show ?thesis by simp
qed

lemma Pack_less_iff:
  assumes "s \<le> kMaxSequenceNumber" "s' \<le> kMaxSequenceNumber"
  shows "PackSequenceAndType s t < PackSequenceAndType s' t' \<longleftrightarrow>
    s < s' \<or> s = s' \<and> ValueType_code t < ValueType_code t'"
  using assms unat_ValueType_code [of t] unat_ValueType_code [of t']
  by (auto simp: word_less_nat_alt word_unat_eq_iff unat_PackSequenceAndType)

subsection \<open>Parsing inverts construction\<close>

lemma length_InternalKey_new [simp]: "length (InternalKey_new u s t) = length u + 8"
  by (simp add: InternalKey_new_def AppendInternalKey_def PutFixed64_def)

lemma ExtractUserKey_append: "ExtractUserKey (u @ EncodeFixed64 v) = u"
  by (simp add: ExtractUserKey_def)

lemma InternalKey_tag_append: "InternalKey_tag (u @ EncodeFixed64 v) = Some v"
  using DecodeFixed64_ptr_Encode [of v "[]"] by (simp add: InternalKey_tag_def)

lemma InternalKey_new_alt: "InternalKey_new u s t = u @ EncodeFixed64 (PackSequenceAndType s t)"
  by (simp add: InternalKey_new_def AppendInternalKey_def PutFixed64_def)

lemma ExtractUserKey_new [simp]: "ExtractUserKey (InternalKey_new u s t) = u"
  by (simp add: InternalKey_new_alt ExtractUserKey_append)

lemma InternalKey_tag_new [simp]: "InternalKey_tag (InternalKey_new u s t) = Some (PackSequenceAndType s t)"
  by (simp add: InternalKey_new_alt InternalKey_tag_append)

lemma ParseInternalKey_new:
  assumes "s \<le> kMaxSequenceNumber"
  shows "ParseInternalKey (InternalKey_new u s t) =
    Some \<lparr> pik_user_key = u, pik_sequence = s, pik_type = t \<rparr>"
  using DecodeFixed64_ptr_Encode [of "PackSequenceAndType s t" "[]"] assms ValueType_code_le [of t]
  by (cases t) (simp_all add: ParseInternalKey_def InternalKey_new_alt Pack_type Pack_drop_type)

lemma ParseInternalKey_short: "length k < 8 \<Longrightarrow> ParseInternalKey k = None"
  by (simp add: ParseInternalKey_def)

lemma DecodeFixed64_ptr_Some: "8 \<le> length xs \<Longrightarrow> \<exists>v. DecodeFixed64_ptr xs = Some v"
  by (auto simp: numeral_eq_Suc Suc_le_length_iff)

lemma InternalKey_tag_Some: "8 \<le> length k \<Longrightarrow> \<exists>v. InternalKey_tag k = Some v"
  using DecodeFixed64_ptr_Some [of "drop (length k - 8) k"] by (simp add: InternalKey_tag_def)

subsection \<open>The order on internal keys\<close>

abbreviation internal_key_ok :: "bytes \<Rightarrow> bool" where
  "internal_key_ok k \<equiv> 8 \<le> length k"

text \<open>
  Over any user comparator that meets its contract, the internal comparator meets it too, on
  strings of at least eight bytes.
\<close>

locale internal_comparator =
  user: shortening_comparator user_compare "\<lambda>_. True" user_separator user_successor
  for user_compare :: "bytes \<Rightarrow> bytes \<Rightarrow> int"
    and user_separator :: "bytes \<Rightarrow> bytes \<Rightarrow> bytes"
    and user_successor :: "bytes \<Rightarrow> bytes"
begin

abbreviation icmp :: "bytes \<Rightarrow> bytes \<Rightarrow> int" where
  "icmp \<equiv> InternalKeyComparator_Compare user_compare"

lemma icmp_iffs:
  assumes "InternalKey_tag a = Some m" and "InternalKey_tag b = Some n"
  defines "r \<equiv> user_compare (ExtractUserKey a) (ExtractUserKey b)"
  shows icmp_less_iff: "icmp a b < 0 \<longleftrightarrow> r < 0 \<or> r = 0 \<and> m > n"
    and icmp_greater_iff: "icmp a b > 0 \<longleftrightarrow> r > 0 \<or> r = 0 \<and> m < n"
    and icmp_le_iff: "icmp a b \<le> 0 \<longleftrightarrow> r < 0 \<or> r = 0 \<and> m \<ge> n"
  using assms by (auto simp: InternalKeyComparator_Compare_def Let_def split: if_splits)

lemma icmp_le_trans:
  assumes ok: "internal_key_ok a" "internal_key_ok b" "internal_key_ok c"
    and le: "icmp a b \<le> 0" "icmp b c \<le> 0"
  shows "icmp a c \<le> 0"
proof -
  from ok obtain l m n where tags: "InternalKey_tag a = Some l" "InternalKey_tag b = Some m"
    "InternalKey_tag c = Some n"
    using InternalKey_tag_Some by metis
  let ?u = "user_compare (ExtractUserKey a) (ExtractUserKey b)"
  let ?v = "user_compare (ExtractUserKey b) (ExtractUserKey c)"
  let ?w = "user_compare (ExtractUserKey a) (ExtractUserKey c)"
  have "?u < 0 \<or> ?u = 0 \<and> l \<ge> m" "?v < 0 \<or> ?v = 0 \<and> m \<ge> n"
    using le tags by (simp_all add: icmp_le_iff)
  moreover have "?u < 0 \<Longrightarrow> ?v \<le> 0 \<Longrightarrow> ?w < 0" "?u \<le> 0 \<Longrightarrow> ?v < 0 \<Longrightarrow> ?w < 0" "?u \<le> 0 \<Longrightarrow> ?v \<le> 0 \<Longrightarrow> ?w \<le> 0"
    using user.cmp_less_le_trans user.cmp_le_less_trans user.cmp_le_trans by blast+
  ultimately have "?w < 0 \<or> ?w = 0 \<and> l \<ge> n" by fastforce
  with tags show ?thesis by (simp add: icmp_le_iff)
qed

lemma icmp_sym:
  assumes "internal_key_ok a" "internal_key_ok b"
  shows "icmp a b < 0 \<longleftrightarrow> icmp b a > 0"
proof -
  from assms obtain m n where "InternalKey_tag a = Some m" "InternalKey_tag b = Some n"
    using InternalKey_tag_Some by metis
  then show ?thesis
    using user.cmp_sym [of "ExtractUserKey a" "ExtractUserKey b"]
      user.cmp_eq_sym [of "ExtractUserKey a" "ExtractUserKey b"]
    by (simp add: icmp_less_iff icmp_greater_iff)
qed

end

sublocale internal_comparator \<subseteq> internal: comparator
  "InternalKeyComparator_Compare user_compare" internal_key_ok
  by unfold_locales (auto simp: icmp_sym intro: icmp_le_trans)

text \<open>
  The shortened keys. The code asserts that a separator it installs lies strictly between
  \<open>start\<close> and \<open>limit\<close>; the two assertions hold.
\<close>

context internal_comparator
begin

abbreviation isep :: "bytes \<Rightarrow> bytes \<Rightarrow> bytes" where
  "isep \<equiv> InternalKeyComparator_FindShortestSeparator user_compare user_separator"

abbreviation isucc :: "bytes \<Rightarrow> bytes" where
  "isucc \<equiv> InternalKeyComparator_FindShortSuccessor user_compare user_successor"

lemma icmp_user_less:
  "internal_key_ok a \<Longrightarrow> internal_key_ok b \<Longrightarrow> user_compare (ExtractUserKey a) (ExtractUserKey b) < 0 \<Longrightarrow>
   icmp a b < 0"
  by (simp add: InternalKeyComparator_Compare_def)

lemma icmp_less_imp_user_le:
  assumes "internal_key_ok a" "internal_key_ok b" "icmp a b < 0"
  shows "user_compare (ExtractUserKey a) (ExtractUserKey b) \<le> 0"
proof -
  from assms obtain m n where "InternalKey_tag a = Some m" "InternalKey_tag b = Some n"
    using InternalKey_tag_Some by metis
  with assms(3) show ?thesis by (auto simp: icmp_less_iff)
qed

lemma isep_cases:
  assumes "internal_key_ok s" "internal_key_ok l"
  shows "isep s l = s \<or>
    user_compare (ExtractUserKey s) (ExtractUserKey l) < 0 \<and>
    length (ExtractUserKey (isep s l)) < length (ExtractUserKey s) \<and>
    length (isep s l) = length (ExtractUserKey (isep s l)) + 8 \<and>
    user_compare (ExtractUserKey s) (ExtractUserKey (isep s l)) < 0 \<and>
    user_compare (ExtractUserKey (isep s l)) (ExtractUserKey l) < 0"
proof (cases "user_compare (ExtractUserKey s) (ExtractUserKey l) < 0")
  case True
  then show ?thesis
    using user.separator_less [OF _ _ True]
    by (auto simp: InternalKeyComparator_FindShortestSeparator_def Let_def PutFixed64_def
        ExtractUserKey_append)
next
  case False
  then have "user_separator (ExtractUserKey s) (ExtractUserKey l) = ExtractUserKey s"
    by (simp add: user.separator_unchanged)
  then show ?thesis by (simp add: InternalKeyComparator_FindShortestSeparator_def)
qed

lemma isucc_cases:
  "isucc k = k \<or>
    length (ExtractUserKey (isucc k)) < length (ExtractUserKey k) \<and>
    length (isucc k) = length (ExtractUserKey (isucc k)) + 8 \<and>
    user_compare (ExtractUserKey k) (ExtractUserKey (isucc k)) < 0"
  by (auto simp: InternalKeyComparator_FindShortSuccessor_def Let_def PutFixed64_def ExtractUserKey_append)

lemma length_ExtractUserKey: "length (ExtractUserKey k) = length k - 8"
  by (simp add: ExtractUserKey_def)

end

sublocale internal_comparator \<subseteq> internal: shortening_comparator
  "InternalKeyComparator_Compare user_compare" internal_key_ok
  "InternalKeyComparator_FindShortestSeparator user_compare user_separator"
  "InternalKeyComparator_FindShortSuccessor user_compare user_successor"
proof
  fix s l :: bytes
  assume ok: "internal_key_ok s" "internal_key_ok l"
  show valid: "internal_key_ok (isep s l)"
    using isep_cases [OF ok] ok by auto
  show "length (isep s l) \<le> length s"
    using isep_cases [OF ok] length_ExtractUserKey [of s] by auto
  show "icmp s l < 0 \<Longrightarrow> icmp s (isep s l) \<le> 0" "icmp s l < 0 \<Longrightarrow> icmp (isep s l) l < 0"
    using isep_cases [OF ok] icmp_user_less ok valid internal.cmp_refl [of s] by fastforce+
  show "\<not> icmp s l < 0 \<Longrightarrow> isep s l = s"
    using isep_cases [OF ok] icmp_user_less ok by blast
next
  fix k :: bytes
  assume ok: "internal_key_ok k"
  show valid: "internal_key_ok (isucc k)"
    using isucc_cases [of k] ok by auto
  show "length (isucc k) \<le> length k"
    using isucc_cases [of k] length_ExtractUserKey [of k] by auto
  show "icmp k (isucc k) \<le> 0"
    using isucc_cases [of k] icmp_user_less [of k "isucc k"] ok valid internal.cmp_refl [of k] by auto
qed

interpretation internal_bytewise: internal_comparator
  Bytewise_Compare Bytewise_FindShortestSeparator Bytewise_FindShortSuccessor
  by unfold_locales

subsection \<open>Lookup keys\<close>

lemma LookupKey_internal_key_new: "LookupKey_internal_key (LookupKey_new u s) = InternalKey_new u s kValueTypeForSeek"
  by (simp add: LookupKey_internal_key_def LookupKey_new_def Let_def InternalKey_new_alt)

lemma LookupKey_user_key_new: "LookupKey_user_key (LookupKey_new u s) = u"
  by (simp add: LookupKey_user_key_def LookupKey_new_def Let_def)

subsection \<open>Properties\<close>

text \<open>
  (C13) Parsing an internal key returns the user key, sequence number and type it was built from,
  for every sequence number that fits its 56 bits; a string of fewer than eight bytes is rejected.
\<close>

theorem internal_key_round_trip:
  assumes "s \<le> kMaxSequenceNumber"
  shows "ParseInternalKey (InternalKey_new u s t) =
      Some \<lparr> pik_user_key = u, pik_sequence = s, pik_type = t \<rparr> \<and>
    ExtractUserKey (InternalKey_new u s t) = u \<and>
    (length k < 8 \<longrightarrow> ParseInternalKey k = None)"
  using assms by (simp add: ParseInternalKey_new ParseInternalKey_short)

theorem internal_key_round_trip_witness:
  "ParseInternalKey (InternalKey_new [1, 2] 5 kTypeValue) =
     Some \<lparr> pik_user_key = [1, 2], pik_sequence = 5, pik_type = kTypeValue \<rparr> \<and>
   ParseInternalKey [1, 2, 3] = None"
  using internal_key_round_trip [of 5 "[1, 2]" kTypeValue "[1, 2, 3]"]
  by (simp add: kMaxSequenceNumber_def)

text \<open>
  (C12) The internal comparator orders entries by ascending user key and, for one user key, newest
  first: by descending sequence number, then by descending type.
\<close>

theorem internal_key_order:
  assumes "s \<le> kMaxSequenceNumber" and "s' \<le> kMaxSequenceNumber"
  shows "InternalKeyComparator_Compare Bytewise_Compare (InternalKey_new u s t) (InternalKey_new u' s' t') < 0 \<longleftrightarrow>
    u < u' \<or> u = u' \<and> (s > s' \<or> s = s' \<and> ValueType_code t > ValueType_code t')"
  using assms internal_bytewise.icmp_less_iff [OF InternalKey_tag_new InternalKey_tag_new]
  by (auto simp: Bytewise_Compare_simps Pack_less_iff)

theorem internal_key_order_witness:
  "InternalKeyComparator_Compare Bytewise_Compare
     (InternalKey_new [7] 9 kTypeDeletion) (InternalKey_new [7] 3 kTypeValue) < 0"
  using internal_key_order [of 9 3 "[7]" kTypeDeletion "[7]" kTypeValue]
  by (simp add: kMaxSequenceNumber_def)

text \<open>
  (C10) A lookup key for a user key at a snapshot sorts at or before exactly those entries of that
  user key that the snapshot may see (sequence number at most the snapshot's), before every entry
  of a larger user key and after every entry of a smaller one: the first entry at or after the
  lookup key is the newest visible version of the key, if there is one.
\<close>

theorem lookup_key_visibility:
  assumes "snapshot \<le> kMaxSequenceNumber" and "s \<le> kMaxSequenceNumber"
  shows "InternalKeyComparator_Compare Bytewise_Compare
      (LookupKey_internal_key (LookupKey_new u snapshot)) (InternalKey_new u' s t) \<le> 0 \<longleftrightarrow>
    u < u' \<or> u = u' \<and> s \<le> snapshot"
  using assms internal_bytewise.icmp_le_iff [OF InternalKey_tag_new InternalKey_tag_new]
  by (cases t) (auto simp: LookupKey_internal_key_new Bytewise_Compare_simps Pack_less_iff
      kValueTypeForSeek_def not_less simp flip: not_less)

theorem lookup_key_visibility_witness:
  "InternalKeyComparator_Compare Bytewise_Compare
     (LookupKey_internal_key (LookupKey_new [7] 5)) (InternalKey_new [7] 5 kTypeDeletion) \<le> 0 \<and>
   \<not> InternalKeyComparator_Compare Bytewise_Compare
     (LookupKey_internal_key (LookupKey_new [7] 5)) (InternalKey_new [7] 6 kTypeValue) \<le> 0"
  using lookup_key_visibility [of 5 5 "[7]" "[7]" kTypeDeletion] lookup_key_visibility [of 5 6 "[7]" "[7]" kTypeValue]
  by (simp add: kMaxSequenceNumber_def)

text \<open>
  (C7) The index key the table builder stores between two data blocks, made from the last internal
  key of one block and the first of the next, separates them: it is not below any key of the first
  block and strictly below every key of the next, and it is never longer than the key it replaces.
\<close>

theorem index_separator:
  assumes "internal_key_ok k" "internal_key_ok l" "internal_key_ok x" "internal_key_ok y"
    and "InternalKeyComparator_Compare Bytewise_Compare k l < 0"
    and "InternalKeyComparator_Compare Bytewise_Compare x k \<le> 0"
    and "InternalKeyComparator_Compare Bytewise_Compare l y \<le> 0"
  defines "sep \<equiv> InternalKeyComparator_FindShortestSeparator Bytewise_Compare
    Bytewise_FindShortestSeparator k l"
  shows "InternalKeyComparator_Compare Bytewise_Compare x sep \<le> 0 \<and>
    InternalKeyComparator_Compare Bytewise_Compare sep y < 0 \<and>
    8 \<le> length sep \<and> length sep \<le> length k"
  using assms internal_bytewise.internal.separator_separates internal_bytewise.internal.separator_valid
    internal_bytewise.internal.separator_length
  by simp

theorem index_separator_witness:
  "let k = InternalKey_new [1, 5, 5] 9 kTypeValue; l = InternalKey_new [1, 9] 3 kTypeValue;
       sep = InternalKeyComparator_FindShortestSeparator Bytewise_Compare Bytewise_FindShortestSeparator k l
   in InternalKeyComparator_Compare Bytewise_Compare k sep \<le> 0 \<and>
      InternalKeyComparator_Compare Bytewise_Compare sep l < 0 \<and> length sep \<le> length k"
proof -
  let ?k = "InternalKey_new [1, 5, 5] 9 kTypeValue" and ?l = "InternalKey_new [1, 9] 3 kTypeValue"
  have "InternalKeyComparator_Compare Bytewise_Compare ?k ?l < 0"
    by (simp add: InternalKeyComparator_Compare_def Bytewise_Compare_def Slice_compare_def)
  then show ?thesis
    using index_separator [of ?k ?l ?k ?l] internal_bytewise.internal.cmp_refl
    by (simp add: Let_def)
qed

end
