(* ===== verification/FileMeta.thy ===== *)
theory FileMeta
  imports DBFormat
begin

text \<open>
  The metadata an LTC keeps of its SSTables and exchanges with the storage components (StoCs):
  block handles (\<^verbatim>\<open>include/leveldb/db_types.h\<close>, \<^verbatim>\<open>stoc/persistent_stoc_file.cpp\<close>), replication pairs
  and file metadata (\<^verbatim>\<open>db/dbformat.cc\<close>).
\<close>

subsection \<open>Block handles\<close>

record StoCBlockHandle =
  sbh_server_id :: u32
  sbh_stoc_file_id :: u32
  sbh_offset :: u64
  sbh_size :: u32

definition StoCBlockHandle_HandleSize :: nat where
  "StoCBlockHandle_HandleSize = 4 + 4 + 8 + 4"

definition StoCBlockHandle_EncodeHandle :: "StoCBlockHandle \<Rightarrow> bytes" where
  "StoCBlockHandle_EncodeHandle h =
     EncodeFixed32 (sbh_server_id h) @ EncodeFixed32 (sbh_stoc_file_id h) @
     EncodeFixed64 (sbh_offset h) @ EncodeFixed32 (sbh_size h)"

definition StoCBlockHandle_DecodeHandle_ptr :: "bytes \<Rightarrow> StoCBlockHandle option" where
  "StoCBlockHandle_DecodeHandle_ptr buf =
     do { server_id \<leftarrow> DecodeFixed32_ptr buf;
          stoc_file_id \<leftarrow> DecodeFixed32_ptr (drop 4 buf);
          offset \<leftarrow> DecodeFixed64_ptr (drop 8 buf);
          size \<leftarrow> DecodeFixed32_ptr (drop 16 buf);
          Some \<lparr> sbh_server_id = server_id, sbh_stoc_file_id = stoc_file_id, sbh_offset = offset,
                 sbh_size = size \<rparr> }"

definition StoCBlockHandle_DecodeHandle :: "StoCBlockHandle decoder" where
  "StoCBlockHandle_DecodeHandle data =
     (if length data < StoCBlockHandle_HandleSize then None
      else do { handle \<leftarrow> StoCBlockHandle_DecodeHandle_ptr data;
                Some (handle, drop StoCBlockHandle_HandleSize data) })"

definition StoCBlockHandle_DecodeHandles :: "StoCBlockHandle list decoder" where
  "StoCBlockHandle_DecodeHandles data =
     do { (size, data) \<leftarrow> DecodeFixed32 data;
          decode_n (unat size) StoCBlockHandle_DecodeHandle data }"

subsection \<open>Replication pairs\<close>

datatype FileInternalType = kFileMetadata | kFileData | kFileParity

fun FileInternalType_code :: "FileInternalType \<Rightarrow> byte" where
  "FileInternalType_code kFileMetadata = char_byte (CHR ''m'')"
| "FileInternalType_code kFileData = char_byte (CHR ''d'')"
| "FileInternalType_code kFileParity = char_byte (CHR ''p'')"

record ReplicationPair =
  rp_source_stoc_file_id :: u32
  rp_source_file_size :: u32
  rp_dest_stoc_id :: u32
  rp_sstable_file_number :: u64
  rp_replica_id :: u32
  rp_internal_type :: FileInternalType
  rp_dest_stoc_file_id :: u32

definition ReplicationPair_Encode :: "ReplicationPair \<Rightarrow> bytes" where
  "ReplicationPair_Encode p =
     EncodeFixed32 (rp_source_stoc_file_id p) @ [FileInternalType_code (rp_internal_type p)] @
     EncodeFixed32 (rp_source_file_size p) @ EncodeFixed32 (rp_dest_stoc_id p) @
     EncodeFixed64 (rp_sstable_file_number p) @ EncodeFixed32 (rp_replica_id p) @
     EncodeFixed32 (rp_dest_stoc_file_id p)"

text \<open>The first byte is read unchecked: on an empty slice the read is out of bounds.\<close>

definition DecodeInternalFileType :: "FileInternalType decoder" where
  "DecodeInternalFileType ptr =
     (case ptr of
        [] \<Rightarrow> None
      | type # rest \<Rightarrow>
          if type = char_byte (CHR ''m'') then Some (kFileMetadata, rest)
          else if type = char_byte (CHR ''d'') then Some (kFileData, rest)
          else if type = char_byte (CHR ''p'') then Some (kFileParity, rest)
          else None)"

definition ReplicationPair_Decode :: "ReplicationPair decoder" where
  "ReplicationPair_Decode ptr =
     do { (source_stoc_file_id, ptr) \<leftarrow> DecodeFixed32 ptr;
          (internal_type, ptr) \<leftarrow> DecodeInternalFileType ptr;
          (source_file_size, ptr) \<leftarrow> DecodeFixed32 ptr;
          (dest_stoc_id, ptr) \<leftarrow> DecodeFixed32 ptr;
          (sstable_file_number, ptr) \<leftarrow> DecodeFixed64 ptr;
          (replica_id, ptr) \<leftarrow> DecodeFixed32 ptr;
          (dest_stoc_file_id, ptr) \<leftarrow> DecodeFixed32 ptr;
          Some (\<lparr> rp_source_stoc_file_id = source_stoc_file_id, rp_source_file_size = source_file_size,
                  rp_dest_stoc_id = dest_stoc_id, rp_sstable_file_number = sstable_file_number,
                  rp_replica_id = replica_id, rp_internal_type = internal_type,
                  rp_dest_stoc_file_id = dest_stoc_file_id \<rparr>, ptr) }"

subsection \<open>File metadata\<close>

record FileReplicaMetaData =
  frm_meta_block_handle :: StoCBlockHandle
  frm_data_block_group_handles :: "StoCBlockHandle list"

datatype FileCompactionStatus = FCS_NONE | FCS_COMPACTING | FCS_COMPACTED

text \<open>
  A \<^verbatim>\<open>std::set<uint32_t>\<close> is the ascending list of its elements. \<open>fmd_smallest\<close> and \<open>fmd_largest\<close> are the
  representations of the two internal keys.
\<close>

record FileMetaData =
  fmd_refs :: int
  fmd_allowed_seeks :: int
  fmd_memtable_ids :: "u32 list"
  fmd_number :: u64
  fmd_file_size :: u64
  fmd_converted_file_size :: u64
  fmd_flush_timestamp :: u64
  fmd_level :: u32
  fmd_smallest :: bytes
  fmd_largest :: bytes
  fmd_compaction_status :: FileCompactionStatus
  fmd_block_replica_handles :: "FileReplicaMetaData list"
  fmd_parity_block_handle :: StoCBlockHandle

definition StoCBlockHandle_zero :: StoCBlockHandle where
  "StoCBlockHandle_zero = \<lparr> sbh_server_id = 0, sbh_stoc_file_id = 0, sbh_offset = 0, sbh_size = 0 \<rparr>"

definition FileMetaData_new :: FileMetaData where
  "FileMetaData_new =
     \<lparr> fmd_refs = 0, fmd_allowed_seeks = 2 ^ 30, fmd_memtable_ids = [], fmd_number = 0,
       fmd_file_size = 0, fmd_converted_file_size = 0, fmd_flush_timestamp = 0, fmd_level = 0,
       fmd_smallest = [], fmd_largest = [], fmd_compaction_status = FCS_NONE,
       fmd_block_replica_handles = [], fmd_parity_block_handle = StoCBlockHandle_zero \<rparr>"

definition FileReplicaMetaData_Encode :: "FileReplicaMetaData \<Rightarrow> bytes" where
  "FileReplicaMetaData_Encode r =
     StoCBlockHandle_EncodeHandle (frm_meta_block_handle r) @
     EncodeFixed32 (of_nat (length (frm_data_block_group_handles r))) @
     concat (map StoCBlockHandle_EncodeHandle (frm_data_block_group_handles r))"

text \<open>
  The bytes written. The source also counts them in a \<^verbatim>\<open>uint32_t\<close>, which is exact below $2^{32}$ bytes; the
  count and what depends on it beyond that are not part of the model.
\<close>

definition FileMetaData_Encode :: "FileMetaData \<Rightarrow> bytes" where
  "FileMetaData_Encode f =
     EncodeFixed64 (fmd_number f) @ EncodeFixed64 (fmd_file_size f) @
     EncodeFixed64 (fmd_converted_file_size f) @
     EncodeStr (fmd_smallest f) @ EncodeStr (fmd_largest f) @
     EncodeFixed64 (fmd_flush_timestamp f) @ EncodeFixed32 (fmd_level f) @
     EncodeFixed32 (of_nat (length (fmd_memtable_ids f))) @
     concat (map EncodeFixed32 (fmd_memtable_ids f)) @
     EncodeFixed32 (of_nat (length (fmd_block_replica_handles f))) @
     concat (map FileReplicaMetaData_Encode (fmd_block_replica_handles f)) @
     StoCBlockHandle_EncodeHandle (fmd_parity_block_handle f)"

text \<open>The decoded key replaces the old one; an empty key is an error.\<close>

definition GetInternalKey :: "bytes \<Rightarrow> bytes decoder" where
  "GetInternalKey dst input =
     do { (str, input) \<leftarrow> DecodeStr_slice input;
          (let (rep, ok) = InternalKey_DecodeFrom dst str False in
           if ok then Some (rep, input) else None) }"

text \<open>\<open>std::set::insert\<close> on the ascending list of the elements.\<close>

fun set_insert :: "'a::linorder \<Rightarrow> 'a list \<Rightarrow> 'a list" where
  "set_insert x [] = [x]"
| "set_insert x (y # ys) = (if x < y then x # y # ys else if x = y then y # ys else y # set_insert x ys)"

text \<open>
  The decoders below fill the fields of an existing object. The identifiers are inserted into the
  set the object already has and the replicas are pushed behind those it already has.
\<close>

definition FileMetaData_DecodeMemTableIds :: "u32 list \<Rightarrow> u32 list decoder" where
  "FileMetaData_DecodeMemTableIds ids ptr =
     do { (num_ids, ptr) \<leftarrow> DecodeFixed32 ptr;
          (mids, ptr) \<leftarrow> decode_n (unat num_ids) DecodeFixed32 ptr;
          Some (fold set_insert mids ids, ptr) }"

definition FileReplicaMetaData_Decode :: "FileReplicaMetaData decoder" where
  "FileReplicaMetaData_Decode ptr =
     do { (meta_block_handle, ptr) \<leftarrow> StoCBlockHandle_DecodeHandle ptr;
          (data_block_group_handles, ptr) \<leftarrow> StoCBlockHandle_DecodeHandles ptr;
          Some (\<lparr> frm_meta_block_handle = meta_block_handle,
                  frm_data_block_group_handles = data_block_group_handles \<rparr>, ptr) }"

definition FileMetaData_DecodeReplicas :: "FileReplicaMetaData list \<Rightarrow> FileReplicaMetaData list decoder" where
  "FileMetaData_DecodeReplicas replicas ptr =
     do { (num_replicas, ptr) \<leftarrow> DecodeFixed32 ptr;
          (new_replicas, ptr) \<leftarrow> decode_n (unat num_replicas) FileReplicaMetaData_Decode ptr;
          Some (replicas @ new_replicas, ptr) }"

definition FileMetaData_Decode :: "FileMetaData \<Rightarrow> FileMetaData decoder" where
  "FileMetaData_Decode f input =
     do { (number, input) \<leftarrow> DecodeFixed64 input;
          (file_size, input) \<leftarrow> DecodeFixed64 input;
          (converted_file_size, input) \<leftarrow> DecodeFixed64 input;
          (smallest, input) \<leftarrow> GetInternalKey (fmd_smallest f) input;
          (largest, input) \<leftarrow> GetInternalKey (fmd_largest f) input;
          (flush_timestamp, input) \<leftarrow> DecodeFixed64 input;
          (level, input) \<leftarrow> DecodeFixed32 input;
          (memtable_ids, input) \<leftarrow> FileMetaData_DecodeMemTableIds (fmd_memtable_ids f) input;
          (replicas, input) \<leftarrow> FileMetaData_DecodeReplicas (fmd_block_replica_handles f) input;
          (parity, input) \<leftarrow> StoCBlockHandle_DecodeHandle input;
          Some (f\<lparr> fmd_number := number, fmd_file_size := file_size,
                   fmd_converted_file_size := converted_file_size, fmd_smallest := smallest,
                   fmd_largest := largest, fmd_flush_timestamp := flush_timestamp,
                   fmd_level := level, fmd_memtable_ids := memtable_ids,
                   fmd_block_replica_handles := replicas, fmd_parity_block_handle := parity \<rparr>, input) }"

text \<open>
  The replica to read: the only one, or the first whose metadata block is on an available StoC.
  The source aborts when no replica is available.
\<close>

fun SelectReplica_loop :: "u32 set \<Rightarrow> nat \<Rightarrow> FileReplicaMetaData list \<Rightarrow> nat option" where
  "SelectReplica_loop server_ids i [] = None"
| "SelectReplica_loop server_ids i (r # rs) =
     (if sbh_server_id (frm_meta_block_handle r) \<in> server_ids then Some i
      else SelectReplica_loop server_ids (i + 1) rs)"

definition FileMetaData_SelectReplica :: "u32 set \<Rightarrow> FileMetaData \<Rightarrow> nat option" where
  "FileMetaData_SelectReplica server_ids f =
     (if length (fmd_block_replica_handles f) = 1 then Some 0
      else SelectReplica_loop server_ids 0 (fmd_block_replica_handles f))"

text \<open>The sum wraps like the 64-bit integer it is.\<close>

definition TotalFileSize :: "FileMetaData list \<Rightarrow> 64 word" where
  "TotalFileSize files = fold (\<lambda>f sum. sum + fmd_file_size f) files 0"

subsection \<open>Round trips\<close>

lemma length_EncodeHandle [simp, size_simps]: "length (StoCBlockHandle_EncodeHandle h) = StoCBlockHandle_HandleSize"
  by (simp add: StoCBlockHandle_EncodeHandle_def StoCBlockHandle_HandleSize_def)

interpretation handle: fixed_codec StoCBlockHandle_EncodeHandle StoCBlockHandle_DecodeHandle "\<lambda>_. True"
  StoCBlockHandle_HandleSize
  by unfold_locales
    (simp_all add: StoCBlockHandle_DecodeHandle_def StoCBlockHandle_DecodeHandle_ptr_def
      StoCBlockHandle_EncodeHandle_def StoCBlockHandle_HandleSize_def DecodeFixed32_ptr_Encode DecodeFixed64_ptr_Encode)

declare handle.dec_enc [simplified, codec_simps]

interpretation file_type: codec "\<lambda>t. [FileInternalType_code t]" DecodeInternalFileType "\<lambda>_. True"
proof
  show "DecodeInternalFileType ([FileInternalType_code t] @ rest) = Some (t, rest)" for t rest
    by (cases t) (simp_all add: DecodeInternalFileType_def)
qed

declare file_type.dec_enc [simplified, codec_simps]

interpretation replication_pair: codec ReplicationPair_Encode ReplicationPair_Decode "\<lambda>_. True"
  by unfold_locales (simp add: ReplicationPair_Decode_def ReplicationPair_Encode_def codec_simps)

abbreviation replica_ok :: "FileReplicaMetaData \<Rightarrow> bool" where
  "replica_ok r \<equiv> fits32 (frm_data_block_group_handles r)"

interpretation replica: codec FileReplicaMetaData_Encode FileReplicaMetaData_Decode replica_ok
proof
  fix r :: FileReplicaMetaData and rest
  assume "replica_ok r"
  moreover have "decode_n (length hs) StoCBlockHandle_DecodeHandle
      (concat (map StoCBlockHandle_EncodeHandle hs) @ rest) = Some (hs, rest)" for hs
    by (rule handle.decode_n_enc) (simp add: list_all_iff)
  ultimately show "FileReplicaMetaData_Decode (FileReplicaMetaData_Encode r @ rest) = Some (r, rest)"
    by (simp add: FileReplicaMetaData_Decode_def FileReplicaMetaData_Encode_def
        StoCBlockHandle_DecodeHandles_def codec_simps)
qed

declare replica.dec_enc [codec_simps]

text \<open>What an encoder needs of file metadata: keys present, every count below 2^32.\<close>

definition FileMetaData_ok :: "FileMetaData \<Rightarrow> bool" where
  "FileMetaData_ok f \<longleftrightarrow>
     fmd_smallest f \<noteq> [] \<and> fits32 (fmd_smallest f) \<and> fmd_largest f \<noteq> [] \<and> fits32 (fmd_largest f) \<and>
     fits32 (fmd_memtable_ids f) \<and> sorted_wrt (<) (fmd_memtable_ids f) \<and>
     fits32 (fmd_block_replica_handles f) \<and> list_all replica_ok (fmd_block_replica_handles f)"

lemma GetInternalKey_Encode [codec_simps]:
  "k \<noteq> [] \<Longrightarrow> fits32 k \<Longrightarrow> GetInternalKey dst (EncodeStr k @ rest) = Some (k, rest)"
  by (simp add: GetInternalKey_def InternalKey_DecodeFrom_def codec_simps)

lemma DecodeMemTableIds_Encode [codec_simps]:
  "fits32 ids \<Longrightarrow>
   FileMetaData_DecodeMemTableIds old
     (EncodeFixed32 (of_nat (length ids)) @ concat (map EncodeFixed32 ids) @ rest) =
   Some (fold set_insert ids old, rest)"
  using fixed32.decode_n_enc [of ids rest]
  by (simp add: FileMetaData_DecodeMemTableIds_def codec_simps list_all_iff)

lemma DecodeReplicas_Encode [codec_simps]:
  "fits32 rs \<Longrightarrow> list_all replica_ok rs \<Longrightarrow>
   FileMetaData_DecodeReplicas old
     (EncodeFixed32 (of_nat (length rs)) @ concat (map FileReplicaMetaData_Encode rs) @ rest) =
   Some (old @ rs, rest)"
  using replica.decode_n_enc [of rs rest]
  by (simp add: FileMetaData_DecodeReplicas_def codec_simps)

text \<open>
  Decoding into an object \<open>f0\<close>: identifiers and replicas accumulate, the fields that are not part
  of the message keep their value, every other field is the encoded one.
\<close>

lemma FileMetaData_Decode_Encode:
  assumes "FileMetaData_ok f"
  shows "FileMetaData_Decode f0 (FileMetaData_Encode f @ rest) =
    Some (f\<lparr> fmd_refs := fmd_refs f0, fmd_allowed_seeks := fmd_allowed_seeks f0,
             fmd_compaction_status := fmd_compaction_status f0,
             fmd_memtable_ids := fold set_insert (fmd_memtable_ids f) (fmd_memtable_ids f0),
             fmd_block_replica_handles := fmd_block_replica_handles f0 @ fmd_block_replica_handles f \<rparr>, rest)"
  using assms
  by (simp add: FileMetaData_ok_def FileMetaData_Decode_def FileMetaData_Encode_def codec_simps)

lemma set_insert_above: "\<forall>y \<in> set ys. y < x \<Longrightarrow> set_insert x ys = ys @ [x]"
  by (induction ys) auto

lemma fold_set_insert_ascending:
  "sorted_wrt (<) (old @ ids) \<Longrightarrow> fold set_insert ids old = old @ ids"
proof (induction ids arbitrary: old)
  case Nil
  then show ?case by simp
next
  case (Cons i ids)
  then have "set_insert i old = old @ [i]"
    by (intro set_insert_above) (simp add: sorted_wrt_append)
  with Cons show ?case by simp
qed

lemma set_set_insert: "set (set_insert x ys) = insert x (set ys)"
  by (induction ys) auto

lemma set_fold_set_insert: "set (fold set_insert xs ys) = set xs \<union> set ys"
  by (induction xs arbitrary: ys) (auto simp: set_set_insert)

lemma sorted_set_insert: "sorted_wrt (<) ys \<Longrightarrow> sorted_wrt (<) (set_insert x ys)"
  by (induction ys) (auto simp: set_set_insert)

text \<open>Decoding into a new object gives the encoded metadata back.\<close>

lemma FileMetaData_Decode_new:
  assumes "FileMetaData_ok f"
  shows "FileMetaData_Decode FileMetaData_new (FileMetaData_Encode f @ rest) =
    Some (f\<lparr> fmd_refs := 0, fmd_allowed_seeks := 2 ^ 30, fmd_compaction_status := FCS_NONE \<rparr>, rest)"
  using assms fold_set_insert_ascending [of "[]" "fmd_memtable_ids f"]
  by (simp add: FileMetaData_Decode_Encode FileMetaData_new_def FileMetaData_ok_def)

subsection \<open>Choosing a replica\<close>

lemma SelectReplica_loop_Some:
  "SelectReplica_loop ids n rs = Some i \<longleftrightarrow>
    n \<le> i \<and> i - n < length rs \<and> sbh_server_id (frm_meta_block_handle (rs ! (i - n))) \<in> ids \<and>
    (\<forall>j < i - n. sbh_server_id (frm_meta_block_handle (rs ! j)) \<notin> ids)"
proof (induction rs arbitrary: n)
  case Nil
  then show ?case by simp
next
  case (Cons r rs)
  show ?case
  proof (cases "i \<le> n")
    case True
    with Cons show ?thesis by (auto simp: le_Suc_eq)
  next
    case False
    then have "i - n = Suc (i - Suc n)" by simp
    with False Cons show ?thesis by (auto simp: less_Suc_eq_0_disj)
  qed
qed

lemma SelectReplica_loop_None:
  "SelectReplica_loop ids n rs = None \<longleftrightarrow> (\<forall>r \<in> set rs. sbh_server_id (frm_meta_block_handle r) \<notin> ids)"
  by (induction rs arbitrary: n) auto

subsection \<open>Properties\<close>

text \<open>
  (C11) File metadata survives its encoding: decoding the message into a new object gives back every
  encoded field, leaves the input at the byte behind the message, and initialises the fields the
  message does not carry (reference count, allowed seeks, compaction status) to their defaults.
\<close>

theorem file_metadata_round_trip:
  assumes "FileMetaData_ok f"
  shows "FileMetaData_Decode FileMetaData_new (FileMetaData_Encode f @ rest) =
    Some (f\<lparr> fmd_refs := 0, fmd_allowed_seeks := 2 ^ 30, fmd_compaction_status := FCS_NONE \<rparr>, rest)"
  using assms by (rule FileMetaData_Decode_new)

theorem file_metadata_round_trip_witness:
  "let h = \<lparr> sbh_server_id = 1, sbh_stoc_file_id = 2, sbh_offset = 3, sbh_size = 4 \<rparr>;
       f = FileMetaData_new\<lparr> fmd_memtable_ids := [3, 8], fmd_number := 42, fmd_smallest := [1],
             fmd_largest := [9], fmd_block_replica_handles :=
               [\<lparr> frm_meta_block_handle = h, frm_data_block_group_handles = [h, h] \<rparr>] \<rparr>
   in FileMetaData_Decode FileMetaData_new (FileMetaData_Encode f @ [7]) = Some (f, [7])"
  unfolding Let_def
  by (subst file_metadata_round_trip) (simp_all add: FileMetaData_ok_def FileMetaData_new_def)

text \<open>
  (C14) A read of a file that has several replicas goes to the first replica whose metadata block is
  on an available StoC; with a single replica it goes to that one, available or not. The process
  aborts exactly when there is no replica at all, or several and none of them available.
\<close>

theorem select_replica:
  fixes f server_ids
  defines "rs \<equiv> fmd_block_replica_handles f"
    and "on_available \<equiv> \<lambda>r. sbh_server_id (frm_meta_block_handle r) \<in> server_ids"
  shows "(FileMetaData_SelectReplica server_ids f = Some i \<longleftrightarrow>
      (if length rs = 1 then i = 0
       else i < length rs \<and> on_available (rs ! i) \<and> (\<forall>j < i. \<not> on_available (rs ! j)))) \<and>
    (FileMetaData_SelectReplica server_ids f = None \<longleftrightarrow>
      length rs \<noteq> 1 \<and> (\<forall>r \<in> set rs. \<not> on_available r))"
  unfolding rs_def on_available_def FileMetaData_SelectReplica_def
  by (auto simp: SelectReplica_loop_Some SelectReplica_loop_None)

theorem select_replica_witness:
  "let h = \<lambda>s. \<lparr> frm_meta_block_handle = \<lparr> sbh_server_id = s, sbh_stoc_file_id = 2, sbh_offset = 3, sbh_size = 4 \<rparr>,
                 frm_data_block_group_handles = [] \<rparr>
   in FileMetaData_SelectReplica {5, 6} (FileMetaData_new\<lparr> fmd_block_replica_handles := [h 4, h 6, h 5] \<rparr>) = Some 1 \<and>
      FileMetaData_SelectReplica {7} (FileMetaData_new\<lparr> fmd_block_replica_handles := [h 4, h 6] \<rparr>) = None"
  unfolding Let_def by (simp add: select_replica)

end
