(* ===== verification/NovaCommon.thy ===== *)
theory NovaCommon
  imports Coding
begin

text \<open>
  The shared helpers of \<^verbatim>\<open>common/nova_common.h\<close> and \<^verbatim>\<open>common/nova_common.cpp\<close>: decimal numbers on
  the wire, the client request format, file and database names, and the log records a write is
  replicated as. Characters are bytes; the model of a read through a \<^verbatim>\<open>char *\<close> is the memory from
  that pointer on, and \<open>None\<close> is a read past its end.
\<close>

subsection \<open>Decimal numbers\<close>

abbreviation TERMINATER_CHAR :: byte where
  "TERMINATER_CHAR \<equiv> char_byte (CHR ''!'')"

abbreviation MSG_TERMINATER_CHAR :: byte where
  "MSG_TERMINATER_CHAR \<equiv> 10"

abbreviation zero_char :: byte where
  "zero_char \<equiv> char_byte (CHR ''0'')"

text \<open>
  The loop of \<open>str_to_int\<close> from position \<open>len\<close> with the value \<open>x\<close> read so far; \<open>nkey = 0\<close> means no
  bound on the number of characters. A digit adds to a 64-bit value that wraps.
\<close>

fun str_to_int_loop :: "nat \<Rightarrow> nat \<Rightarrow> u64 \<Rightarrow> bytes \<Rightarrow> (u64 \<times> nat) option" where
  "str_to_int_loop nkey len x [] = None"
| "str_to_int_loop nkey len x (c # str) =
     (if c = TERMINATER_CHAR then Some (x, len)
      else if nkey \<noteq> 0 \<and> len = nkey then Some (x, len)
      else if c > char_byte (CHR ''9'') \<or> c < char_byte (CHR ''0'') then Some (x, len)
      else str_to_int_loop nkey (len + 1) (x * 10 + (ucast c - ucast zero_char)) str)"

text \<open>Returns the new value of \<^verbatim>\<open>*out\<close> and the returned length.\<close>

definition str_to_int :: "bytes \<Rightarrow> u64 \<Rightarrow> nat \<Rightarrow> (u64 \<times> nat) option" where
  "str_to_int str out nkey =
     (case str of
        [] \<Rightarrow> None
      | c # _ \<Rightarrow>
          if c = MSG_TERMINATER_CHAR then Some (out, 0)
          else do { (x, len) \<leftarrow> str_to_int_loop nkey 0 0 str; Some (x, len + 1) })"

text \<open>The first loop of \<open>int_to_str\<close>: the digits, least significant first.\<close>

lemma div_10_less: "x div 10 \<noteq> 0 \<Longrightarrow> unat (x div 10) < unat x" for x :: u64
  by (cases "x = 0") (auto simp: unat_div word_unat_eq_iff)

function int_to_str_digits :: "u64 \<Rightarrow> bytes" where
  "int_to_str_digits x =
     (let d = ucast (x mod 10) + zero_char; x' = x div 10
      in d # (if x' \<noteq> 0 then int_to_str_digits x' else []))"
  by pat_completeness auto
termination
  by (relation "measure unat") (auto intro: div_10_less)

declare int_to_str_digits.simps [simp del]

text \<open>The second loop: it reverses the digits in place by swaps.\<close>

function int_to_str_swaps :: "nat \<Rightarrow> nat \<Rightarrow> bytes \<Rightarrow> bytes" where
  "int_to_str_swaps p q str =
     (if p < q then int_to_str_swaps (p + 1) (q - 1) (str[p := str ! q, q := str ! p]) else str)"
  by pat_completeness auto
termination
  by (relation "measure (\<lambda>(p, q, str). q - p)") auto

declare int_to_str_swaps.simps [simp del]

definition int_to_str :: "u64 \<Rightarrow> bytes" where
  "int_to_str x =
     (let digits = int_to_str_digits x
      in int_to_str_swaps 0 (length digits - 1) digits @ [TERMINATER_CHAR])"

function nint_to_str :: "u64 \<Rightarrow> nat" where
  "nint_to_str x = (let x' = x div 10 in if x' \<noteq> 0 then Suc (nint_to_str x') else 1)"
  by pat_completeness auto
termination
  by (relation "measure unat") (auto intro: div_10_less)

declare nint_to_str.simps [simp del]

definition keyhash :: "bytes \<Rightarrow> nat \<Rightarrow> u64 option" where
  "keyhash key nkey = map_option fst (str_to_int key 0 nkey)"

definition safe_mod :: "u32 \<Rightarrow> u32 \<Rightarrow> u32" where
  "safe_mod key n = (if n \<le> 1 then 0 else key mod n)"

subsection \<open>Client requests\<close>

text \<open>The enumeration gives \<open>REQ_SCAN\<close> and \<open>REDIRECT\<close> the same character.\<close>

datatype RequestType = GET | PUT | VERIFY_LOAD | REDIRECT | GET_INDEX | EXISTS | MISS
  | REINITIALIZE_QP | CLOSE_STOC_FILES | STATS | CHANGE_CONFIG | QUERY_CONFIG_CHANGE

abbreviation REQ_SCAN :: RequestType where
  "REQ_SCAN \<equiv> REDIRECT"

fun RequestType_code :: "RequestType \<Rightarrow> byte" where
  "RequestType_code GET = char_byte (CHR ''g'')"
| "RequestType_code PUT = char_byte (CHR ''p'')"
| "RequestType_code VERIFY_LOAD = char_byte (CHR ''v'')"
| "RequestType_code REDIRECT = char_byte (CHR ''r'')"
| "RequestType_code GET_INDEX = char_byte (CHR ''i'')"
| "RequestType_code EXISTS = char_byte (CHR ''h'')"
| "RequestType_code MISS = char_byte (CHR ''m'')"
| "RequestType_code REINITIALIZE_QP = char_byte (CHR ''a'')"
| "RequestType_code CLOSE_STOC_FILES = char_byte (CHR ''c'')"
| "RequestType_code STATS = char_byte (CHR ''s'')"
| "RequestType_code CHANGE_CONFIG = char_byte (CHR ''b'')"
| "RequestType_code QUERY_CONFIG_CHANGE = char_byte (CHR ''R'')"

text \<open>Any other character aborts the process.\<close>

definition char_to_req_type :: "byte \<Rightarrow> RequestType option" where
  "char_to_req_type c =
     (if c = char_byte (CHR ''g'') then Some GET
      else if c = char_byte (CHR ''p'') then Some PUT
      else if c = char_byte (CHR ''r'') then Some REDIRECT
      else if c = char_byte (CHR ''i'') then Some GET_INDEX
      else None)"

text \<open>The bytes written, and the returned size, an \<^verbatim>\<open>int\<close> that is accumulated modulo $2^{32}$.\<close>

definition GenerateRDMARequest :: "RequestType \<Rightarrow> u64 \<Rightarrow> u64 \<Rightarrow> bytes \<Rightarrow> bytes \<times> int" where
  "GenerateRDMARequest req_type from_server_id from_sock_fd key =
     (let n1 = int_to_str from_server_id; n2 = int_to_str from_sock_fd; n3 = int_to_str (of_nat (length key));
          size = 1 + of_nat (length n1) + of_nat (length n2) + of_nat (length n3) + of_nat (length key) :: 32 word
      in ([RequestType_code req_type] @ n1 @ n2 @ n3 @ key, sint size))"

text \<open>
  Returns the request's fields and its total length, a \<^verbatim>\<open>uint32_t\<close> to which the 64-bit key length is
  added. The key is a pointer into the buffer: the caller reads \<^verbatim>\<open>nkey\<close> bytes there. A number that
  starts with a newline leaves its output as the caller passed it; \<open>old\<close> holds the three old values.
\<close>

definition ParseRDMARequest ::
    "u64 \<times> u64 \<times> u64 \<Rightarrow> bytes \<Rightarrow> (RequestType \<times> u64 \<times> u64 \<times> bytes \<times> u64 \<times> u32) option" where
  "ParseRDMARequest old buf =
     (case (old, buf) of
        (_, []) \<Rightarrow> None
      | ((server0, fd0, nkey0), c # buf) \<Rightarrow>
          do { req_type \<leftarrow> char_to_req_type c;
               (from_server_id, n1) \<leftarrow> str_to_int buf server0 0;
               (from_sock_fd, n2) \<leftarrow> str_to_int (drop n1 buf) fd0 0;
               (nkey, n3) \<leftarrow> str_to_int (drop (n1 + n2) buf) nkey0 0;
               Some (req_type, from_server_id, from_sock_fd, drop (n1 + n2 + n3) buf, nkey,
                     1 + of_nat n1 + of_nat n2 + of_nat n3 + ucast nkey) })"

subsection \<open>Names\<close>

text \<open>\<^verbatim>\<open>std::to_string\<close> of an unsigned number: its decimal digits.\<close>

definition to_string :: "u64 \<Rightarrow> bytes" where
  "to_string x = rev (int_to_str_digits x)"

definition DBName :: "bytes \<Rightarrow> u32 \<Rightarrow> bytes" where
  "DBName dbname index = dbname @ [char_byte (CHR ''/'')] @ to_string (ucast index)"

text \<open>
  The characters behind the last \<^verbatim>\<open>'/'\<close>; \<^verbatim>\<open>find_last_of\<close> returns -1 where there is none. The memory
  behind \<^verbatim>\<open>data()\<close> ends in a zero byte.
\<close>

definition after_last_slash :: "bytes \<Rightarrow> bytes" where
  "after_last_slash s = rev (takeWhile (\<lambda>c. c \<noteq> char_byte (CHR ''/'')) (rev s))"

definition ParseDBIndexFromDBName :: "bytes \<Rightarrow> u32 option" where
  "ParseDBIndexFromDBName dbname =
     (let tail = after_last_slash dbname
      in do { (i64, _) \<leftarrow> str_to_int (tail @ [0]) 0 (length tail); Some (ucast i64) })"

text \<open>\<open>fmt\<close> is the formatting library's rendering of an unsigned 32-bit number.\<close>

definition LogFileName :: "(u32 \<Rightarrow> bytes) \<Rightarrow> u32 \<Rightarrow> u32 \<Rightarrow> bytes" where
  "LogFileName fmt db_id memtableid = fmt db_id @ [char_byte (CHR ''-'')] @ fmt memtableid"

text \<open>
  One scan for the number before the next \<^verbatim>\<open>'-'\<close>: its value and the rest of the name, with the
  dash seen or the name exhausted.
\<close>

fun scan_number :: "u32 \<Rightarrow> bytes \<Rightarrow> u32 \<times> bool \<times> bytes" where
  "scan_number data [] = (data, False, [])"
| "scan_number data (c # s) =
     (if c = char_byte (CHR ''-'') then (data, True, s)
      else scan_number (data * 10 + scast c - ucast zero_char) s)"

text \<open>The output \<^verbatim>\<open>*dbindex\<close> is written only where a dash follows; \<open>dbindex\<close> is its old value.\<close>

definition ParseDBIndexFromLogFileName :: "u32 \<Rightarrow> bytes \<Rightarrow> u32 \<times> u32" where
  "ParseDBIndexFromLogFileName dbindex logname =
     (let (d, dash, rest) = scan_number 0 logname;
          (m, _, _) = scan_number 0 rest
      in (if dash then d else dbindex, m))"

subsection \<open>Log records\<close>

record LevelDBLogRecord =
  lr_key :: bytes
  lr_value :: bytes
  lr_sequence_number :: u64

definition LogRecordSize :: "LevelDBLogRecord \<Rightarrow> u32" where
  "LogRecordSize record =
     4 + 4 + of_nat (length (lr_key record)) + 4 + of_nat (length (lr_value record)) + 8 + 1"

definition LogRecordsSize :: "LevelDBLogRecord list \<Rightarrow> u32" where
  "LogRecordsSize log_records = fold (\<lambda>record size. size + LogRecordSize record) log_records 0"

definition EncodeLogRecord :: "LevelDBLogRecord \<Rightarrow> bytes" where
  "EncodeLogRecord record =
     EncodeFixed32 (LogRecordSize record) @ EncodeSlice (lr_key record) @
     EncodeSlice (lr_value record) @ EncodeFixed64 (lr_sequence_number record) @ [1]"

definition LogRecord_fields :: "(u32 \<times> LevelDBLogRecord) decoder" where
  "LogRecord_fields buf =
     do { (record_size, buf) \<leftarrow> DecodeFixed32 buf;
          (key, buf) \<leftarrow> DecodeStr_slice buf;
          (value, buf) \<leftarrow> DecodeStr_slice buf;
          (sequence_number, buf) \<leftarrow> DecodeFixed64 buf;
          Some ((record_size, \<lparr> lr_key = key, lr_value = value, lr_sequence_number = sequence_number \<rparr>), buf) }"

text \<open>
  \<open>Some None\<close>: the function returns false. \<open>None\<close>: the byte behind the fields is read with
  \<^verbatim>\<open>(*buf)[0]\<close> although nothing is left, which violates the assertion of \<^verbatim>\<open>Slice::operator[]\<close>.
\<close>

definition DecodeLogRecord :: "bytes \<Rightarrow> (LevelDBLogRecord \<times> bytes) option option" where
  "DecodeLogRecord buf =
     (case LogRecord_fields buf of
        None \<Rightarrow> Some None
      | Some (_, []) \<Rightarrow> None
      | Some ((record_size, record), c # buf) \<Rightarrow>
          Some (if c \<noteq> 1 then None
                else if record_size \<noteq> LogRecordSize record then None
                else Some (record, buf)))"

subsection \<open>Decimal numbers round trip\<close>

lemma word_less_10_cases:
  fixes m :: u64
  assumes "m < 10"
  shows "m \<in> {0, 1, 2, 3, 4, 5, 6, 7, 8, 9}"
proof -
  have "unat m < 10" using assms by (simp add: word_less_nat_alt)
  then have "unat m \<in> {0, 1, 2, 3, 4, 5, 6, 7, 8, 9}" by auto
  then have "of_nat (unat m) \<in> {0 :: u64, 1, 2, 3, 4, 5, 6, 7, 8, 9}" by (elim insertE) auto
  then show ?thesis by simp
qed

text \<open>A digit character: in range, not a terminator, and worth the digit.\<close>

lemma digit_char:
  fixes m :: u64
  assumes "m < 10"
  defines "d \<equiv> ucast m + zero_char"
  shows "\<not> d > char_byte (CHR ''9'')" "\<not> d < char_byte (CHR ''0'')" "d \<noteq> TERMINATER_CHAR"
    "d \<noteq> MSG_TERMINATER_CHAR" "d \<noteq> char_byte (CHR ''/'')" "d \<noteq> char_byte (CHR ''-'')"
    "ucast d - ucast zero_char = m" "scast d = (ucast m + 48 :: u32)"
  using word_less_10_cases [OF assms(1)] unfolding d_def by auto

lemma mod_10_less: "x mod 10 < 10" for x :: u64
  by (simp add: word_less_nat_alt unat_mod)

lemma div_mod_10: "x div 10 * 10 + x mod 10 = x" for x :: u64
  by (rule div_mult_mod_eq)

lemma str_to_int_loop_digits:
  "nkey = 0 \<or> len + length (int_to_str_digits v) \<le> nkey \<Longrightarrow>
   str_to_int_loop nkey len x (rev (int_to_str_digits v) @ rest) =
   str_to_int_loop nkey (len + length (int_to_str_digits v))
     (x * 10 ^ length (int_to_str_digits v) + v) rest"
proof (induction v arbitrary: rest rule: int_to_str_digits.induct)
  case (1 v)
  let ?d = "ucast (v mod 10) + zero_char"
  have small: "v div 10 = 0 \<Longrightarrow> v mod 10 = v"
    using div_mod_10 [of v] by simp
  show ?case
  proof (cases "v div 10 = 0")
    case True
    then have "int_to_str_digits v = [?d]"
      by (subst int_to_str_digits.simps) (simp add: Let_def)
    with "1.prems" small [OF True] show ?thesis
      using digit_char [OF mod_10_less [of v]] by auto
  next
    case False
    define w where "w = int_to_str_digits (v div 10)"
    from False have digits: "int_to_str_digits v = ?d # w"
      unfolding w_def by (subst int_to_str_digits.simps) (simp add: Let_def)
    have "str_to_int_loop nkey len x (rev w @ ?d # rest) =
        str_to_int_loop nkey (len + length w) (x * 10 ^ length w + v div 10) (?d # rest)"
      using "1.IH" [of ?d "v div 10" "?d # rest"] "1.prems" False digits by (auto simp: w_def)
    also have "\<dots> = str_to_int_loop nkey (len + length w + 1) ((x * 10 ^ length w + v div 10) * 10 + v mod 10) rest"
      using digit_char [OF mod_10_less [of v]] "1.prems" digits by auto
    also have "(x * 10 ^ length w + v div 10) * 10 + v mod 10 = x * 10 ^ Suc (length w) + v"
      using div_mod_10 [of v] by (simp add: distrib_right add.assoc mult.assoc mult.commute)
    finally show ?thesis by (simp add: digits)
  qed
qed

lemma int_to_str_digits_not_Nil [simp]: "int_to_str_digits x \<noteq> []"
  by (subst int_to_str_digits.simps) (simp add: Let_def)

lemma length_int_to_str_digits: "length (int_to_str_digits x) = nint_to_str x"
proof (induction x rule: int_to_str_digits.induct)
  case (1 x)
  then show ?case by (subst int_to_str_digits.simps, subst nint_to_str.simps) (simp add: Let_def)
qed

lemma int_to_str_digits_chars:
  "d \<in> set (int_to_str_digits x) \<Longrightarrow>
   d \<noteq> MSG_TERMINATER_CHAR \<and> d \<noteq> TERMINATER_CHAR \<and> d \<noteq> char_byte (CHR ''/'') \<and> d \<noteq> char_byte (CHR ''-'')"
proof (induction x rule: int_to_str_digits.induct)
  case (1 x)
  note digit = digit_char [OF mod_10_less [of x]]
  from "1.prems" have "d = ucast (x mod 10) + zero_char \<or> (x div 10 \<noteq> 0 \<and> d \<in> set (int_to_str_digits (x div 10)))"
    by (subst (asm) int_to_str_digits.simps) (auto simp: Let_def split: if_splits)
  then show ?case
  proof (elim disjE conjE)
    assume "d = ucast (x mod 10) + zero_char"
    with digit show ?case by simp
  next
    assume "x div 10 \<noteq> 0" "d \<in> set (int_to_str_digits (x div 10))"
    with "1.IH" [OF refl refl] show ?case by simp
  qed
qed

text \<open>The in-place reversal reverses.\<close>

lemma nth_int_to_str_swaps:
  "q < length str \<Longrightarrow>
   length (int_to_str_swaps p q str) = length str \<and>
   (\<forall>i < length str. int_to_str_swaps p q str ! i = (if p \<le> i \<and> i \<le> q then str ! (p + q - i) else str ! i))"
proof (induction p q str rule: int_to_str_swaps.induct)
  case (1 p q str)
  show ?case
  proof (cases "p < q")
    case True
    with "1" show ?thesis
      by (subst (1 2) int_to_str_swaps.simps) (auto simp: nth_list_update)
  next
    case False
    then have "p \<le> i \<Longrightarrow> i \<le> q \<Longrightarrow> p + q - i = i" for i by simp
    with False show ?thesis by (subst (1 2) int_to_str_swaps.simps) auto
  qed
qed

lemma int_to_str_swaps_rev: "str \<noteq> [] \<Longrightarrow> int_to_str_swaps 0 (length str - 1) str = rev str"
  using nth_int_to_str_swaps [of "length str - 1" str 0]
  by (intro nth_equalityI) (auto simp: rev_nth)

lemma int_to_str_eq: "int_to_str x = to_string x @ [TERMINATER_CHAR]"
  by (simp add: int_to_str_def to_string_def int_to_str_swaps_rev Let_def del: One_nat_def)

lemma to_string_first: "\<exists>c cs. to_string x = c # cs \<and> c \<noteq> MSG_TERMINATER_CHAR"
proof -
  obtain c cs where "to_string x = c # cs"
    by (cases "to_string x") (auto simp: to_string_def)
  moreover then have "c \<in> set (int_to_str_digits x)"
    by (metis list.set_intros(1) set_rev to_string_def)
  ultimately show ?thesis using int_to_str_digits_chars by blast
qed

lemma str_to_int_int_to_str:
  "str_to_int (int_to_str x @ rest) out 0 = Some (x, length (int_to_str x))"
proof -
  obtain c cs where c: "to_string x = c # cs" "c \<noteq> MSG_TERMINATER_CHAR"
    using to_string_first by blast
  have "str_to_int_loop 0 0 0 (to_string x @ TERMINATER_CHAR # rest) = Some (x, length (to_string x))"
    using str_to_int_loop_digits [of 0 0 x 0 "TERMINATER_CHAR # rest"] by (simp add: to_string_def)
  with c show ?thesis by (simp add: str_to_int_def int_to_str_eq)
qed

subsection \<open>Client requests round trip\<close>

lemma char_to_req_type_code:
  "t \<in> {GET, PUT, REDIRECT, GET_INDEX} \<Longrightarrow> char_to_req_type (RequestType_code t) = Some t"
  by (auto simp: char_to_req_type_def)

lemma length_int_to_str: "length (int_to_str x) = nint_to_str x + 1"
  by (simp add: int_to_str_eq to_string_def length_int_to_str_digits)

lemma nint_to_str_less: "unat x < 10 ^ n \<Longrightarrow> n \<noteq> 0 \<Longrightarrow> nint_to_str x \<le> n"
proof (induction n arbitrary: x)
  case (Suc n)
  have div: "unat (x div 10) = unat x div 10" unfolding unat_div by simp
  show ?case
  proof (cases "x div 10 = 0")
    case True
    then show ?thesis by (subst nint_to_str.simps) simp
  next
    case False
    then have "unat x div 10 \<noteq> 0" unfolding div [symmetric] by (simp add: unat_eq_zero)
    moreover have "unat x div 10 < 10 ^ n" using Suc.prems by (auto simp: less_mult_imp_div_less)
    ultimately have "n \<noteq> 0" "unat (x div 10) < 10 ^ n" unfolding div by (auto intro: gr0I)
    with Suc.IH [of "x div 10"] False show ?thesis by (subst nint_to_str.simps) simp
  qed
qed simp

lemma length_int_to_str_le: "length (int_to_str x) \<le> 21"
proof -
  have "unat x < 10 ^ 20" using unat_u64_less [of x] by simp
  then show ?thesis using nint_to_str_less [of x 20] by (simp add: length_int_to_str)
qed

lemma ParseRDMARequest_Generate:
  assumes "t \<in> {GET, PUT, REDIRECT, GET_INDEX}" and "length key < 2 ^ 64"
    and "GenerateRDMARequest t server fd key = (req, len)"
  shows "ParseRDMARequest old (req @ rest) = Some (t, server, fd, key @ rest, of_nat (length key), of_nat (length req))"
proof -
  have "req = [RequestType_code t] @ int_to_str server @ int_to_str fd @ int_to_str (of_nat (length key)) @ key"
    using assms(3) by (simp add: GenerateRDMARequest_def Let_def)
  with assms(2) char_to_req_type_code [OF assms(1)]
    str_to_int_int_to_str [of server "int_to_str fd @ int_to_str (of_nat (length key)) @ key @ rest"]
    str_to_int_int_to_str [of fd "int_to_str (of_nat (length key)) @ key @ rest"]
    str_to_int_int_to_str [of "of_nat (length key)" "key @ rest"]
  show ?thesis
    by (cases old) (simp add: ParseRDMARequest_def unsigned_of_nat take_bit_nat_eq_self)
qed

lemma sint_small_nat: "n < 2 ^ 31 \<Longrightarrow> sint (of_nat n :: 32 word) = int n"
  by (simp add: signed_of_nat signed_take_bit_int_eq_self)

lemma GenerateRDMARequest_size:
  assumes "length key < 2 ^ 31 - 64"
  shows "snd (GenerateRDMARequest t server fd key) = int (length (fst (GenerateRDMARequest t server fd key)))"
proof -
  let ?n = "1 + length (int_to_str server) + length (int_to_str fd) + length (int_to_str (of_nat (length key))) + length key"
  have "?n < 2 ^ 31"
    using assms length_int_to_str_le [of server] length_int_to_str_le [of fd]
      length_int_to_str_le [of "of_nat (length key)"] by linarith
  then have "sint (of_nat ?n :: 32 word) = int ?n" by (rule sint_small_nat)
  then show ?thesis by (simp add: GenerateRDMARequest_def Let_def add.assoc)
qed

subsection \<open>Names round trip\<close>

lemma str_to_int_to_string:
  "str_to_int (to_string x @ [0]) out (length (to_string x)) = Some (x, length (to_string x) + 1)"
proof -
  obtain c cs where c: "to_string x = c # cs" "c \<noteq> MSG_TERMINATER_CHAR"
    using to_string_first by blast
  have "str_to_int_loop (length (to_string x)) 0 0 (to_string x @ [0]) = Some (x, length (to_string x))"
    using str_to_int_loop_digits [of "length (to_string x)" 0 x 0 "[0]"] by (simp add: to_string_def)
  with c show ?thesis by (simp add: str_to_int_def)
qed

lemma ParseDBIndexFromDBName_DBName: "ParseDBIndexFromDBName (DBName dbname index) = Some index"
proof -
  have "\<forall>c \<in> set (int_to_str_digits (ucast index)). c \<noteq> char_byte (CHR ''/'')"
    using int_to_str_digits_chars by blast
  then have "after_last_slash (DBName dbname index) = to_string (ucast index)"
    by (simp add: after_last_slash_def DBName_def to_string_def takeWhile_append2)
  then show ?thesis
    using str_to_int_to_string [of "ucast index" 0] by (simp add: ParseDBIndexFromDBName_def)
qed

lemma ucast_div_mod_10: "ucast (v div 10) * 10 + ucast (v mod 10) = (ucast v :: u32)" for v :: u64
proof -
  have ucast: "ucast w = (of_nat (unat w) :: u32)" for w :: u64 by simp
  have "(of_nat (unat v div 10 * 10 + unat v mod 10) :: u32) = of_nat (unat v)" by simp
  then show ?thesis
    unfolding ucast unat_div unat_mod by (simp only: of_nat_add of_nat_mult) simp
qed

lemma scan_number_digits:
  "scan_number x (rev (int_to_str_digits v) @ rest) =
   scan_number (x * 10 ^ length (int_to_str_digits v) + ucast v) rest"
proof (induction v arbitrary: rest rule: int_to_str_digits.induct)
  case (1 v)
  let ?d = "ucast (v mod 10) + zero_char"
  note digit = digit_char [OF mod_10_less [of v]]
  show ?case
  proof (cases "v div 10 = 0")
    case True
    then have "int_to_str_digits v = [?d]"
      by (subst int_to_str_digits.simps) (simp add: Let_def)
    moreover have "v mod 10 = v" using True div_mod_10 [of v] by simp
    ultimately show ?thesis using digit by (simp add: digit(8))
  next
    case False
    define w where "w = int_to_str_digits (v div 10)"
    from False have digits: "int_to_str_digits v = ?d # w"
      unfolding w_def by (subst int_to_str_digits.simps) (simp add: Let_def)
    have "scan_number x (rev w @ ?d # rest) = scan_number (x * 10 ^ length w + ucast (v div 10)) (?d # rest)"
      using "1.IH" [of ?d "v div 10" "?d # rest"] False by (simp add: w_def)
    also have "\<dots> = scan_number ((x * 10 ^ length w + ucast (v div 10)) * 10 + ucast (v mod 10)) rest"
      using digit by (simp add: digit(8) add.assoc)
    also have "(x * 10 ^ length w + ucast (v div 10)) * 10 + ucast (v mod 10) = x * 10 ^ Suc (length w) + ucast v"
      using ucast_div_mod_10 [of v] by (simp add: distrib_right add.assoc mult.assoc mult.commute)
    finally show ?thesis by (simp add: digits)
  qed
qed

lemma ParseDBIndexFromLogFileName_LogFileName:
  assumes "\<And>n. fmt n = to_string (ucast n)"
  shows "ParseDBIndexFromLogFileName old (LogFileName fmt db_id memtableid) = (db_id, memtableid)"
  using scan_number_digits [of 0 "ucast db_id" "char_byte (CHR ''-'') # to_string (ucast memtableid)"]
    scan_number_digits [of 0 "ucast memtableid" "[]"]
  by (simp add: ParseDBIndexFromLogFileName_def LogFileName_def assms to_string_def)

subsection \<open>Log records round trip\<close>

abbreviation log_record_ok :: "LevelDBLogRecord \<Rightarrow> bool" where
  "log_record_ok r \<equiv> fits32 (lr_key r) \<and> fits32 (lr_value r)"

lemma LogRecord_fields_iff:
  "LogRecord_fields buf = Some ((n, r), rest) \<longleftrightarrow> log_record_ok r \<and>
     buf = EncodeFixed32 n @ EncodeStr (lr_key r) @ EncodeStr (lr_value r) @ EncodeFixed64 (lr_sequence_number r) @ rest"
proof
  assume "LogRecord_fields buf = Some ((n, r), rest)"
  then show "log_record_ok r \<and> buf = EncodeFixed32 n @ EncodeStr (lr_key r) @ EncodeStr (lr_value r) @
      EncodeFixed64 (lr_sequence_number r) @ rest"
    by (auto simp: LogRecord_fields_def DecodeFixed32_iff DecodeFixed64_iff DecodeStr_slice_iff
        split: Option.bind_splits)
qed (auto simp: LogRecord_fields_def codec_simps)

lemma DecodeLogRecord_iff:
  "DecodeLogRecord buf = Some (Some (r, rest)) \<longleftrightarrow> log_record_ok r \<and> buf = EncodeLogRecord r @ rest"
proof
  assume "DecodeLogRecord buf = Some (Some (r, rest))"
  then show "log_record_ok r \<and> buf = EncodeLogRecord r @ rest"
    by (auto simp: DecodeLogRecord_def LogRecord_fields_iff EncodeLogRecord_def EncodeSlice_eq_EncodeStr
        split: option.splits list.splits if_splits)
next
  assume "log_record_ok r \<and> buf = EncodeLogRecord r @ rest"
  then have "LogRecord_fields buf = Some ((LogRecordSize r, r), 1 # rest)"
    by (simp add: LogRecord_fields_iff EncodeLogRecord_def EncodeSlice_eq_EncodeStr)
  then show "DecodeLogRecord buf = Some (Some (r, rest))" by (simp add: DecodeLogRecord_def)
qed

interpretation log_record: exact_codec EncodeLogRecord "\<lambda>buf. Option.bind (DecodeLogRecord buf) id" log_record_ok
  by unfold_locales (auto simp: DecodeLogRecord_iff Option.bind_eq_Some_conv)

lemma length_EncodeLogRecord [size_simps]:
  "length (EncodeLogRecord r) = 21 + length (lr_key r) + length (lr_value r)"
  by (simp add: EncodeLogRecord_def EncodeSlice_eq_EncodeStr)

lemma DecodeLogRecord_shorter: "DecodeLogRecord buf = Some (Some (r, rest)) \<Longrightarrow> length rest < length buf"
  by (auto simp: DecodeLogRecord_iff length_EncodeLogRecord)

subsection \<open>Replaying a log file\<close>

text \<open>
  The loop of \<^verbatim>\<open>LogRecovery::Recover\<close> over one log file: the records handed to \<^verbatim>\<open>memtable->Add\<close>, in
  order. The loop ends at the first position that does not decode; \<open>None\<close> is a decoder that aborts.
\<close>

function replay_log :: "bytes \<Rightarrow> LevelDBLogRecord list option" where
  "replay_log buf =
     (case DecodeLogRecord buf of
        None \<Rightarrow> None
      | Some None \<Rightarrow> Some []
      | Some (Some (r, buf)) \<Rightarrow> map_option ((#) r) (replay_log buf))"
  by pat_completeness auto
termination
  by (relation "measure length") (auto simp: DecodeLogRecord_shorter)

declare replay_log.simps [simp del]

lemma replay_log_append:
  "list_all log_record_ok rs \<Longrightarrow>
   replay_log (concat (map EncodeLogRecord rs) @ tail) = map_option ((@) rs) (replay_log tail)"
proof (induction rs)
  case (Cons r rs)
  have "DecodeLogRecord (EncodeLogRecord r @ t) = Some (Some (r, t))" for t
    using Cons.prems by (simp add: DecodeLogRecord_iff)
  with Cons show ?case by (subst replay_log.simps) (cases "replay_log tail"; simp)
qed (cases "replay_log tail"; simp)

lemma replay_log_stop: "DecodeLogRecord tail = Some None \<Longrightarrow> replay_log tail = Some []"
  by (subst replay_log.simps) simp

lemma DecodeLogRecord_zeros: "DecodeLogRecord (replicate z 0) = (if z = 20 then None else Some None)"
proof (cases "20 \<le> z")
  case True
  then have "replicate z 0 = replicate 20 (0 :: byte) @ replicate (z - 20) 0" by (simp flip: replicate_add)
  also have "replicate 20 (0 :: byte) = EncodeFixed32 0 @ EncodeStr [] @ EncodeStr [] @ EncodeFixed64 0"
    by (simp add: EncodeFixed32_def EncodeFixed64_def EncodeStr_def numeral_eq_Suc)
  finally have "LogRecord_fields (replicate z 0) =
      Some ((0, \<lparr> lr_key = [], lr_value = [], lr_sequence_number = 0 \<rparr>), replicate (z - 20) 0)"
    by (simp add: LogRecord_fields_iff)
  with True show ?thesis by (cases "z - 20") (auto simp: DecodeLogRecord_def)
next
  case False
  have "LogRecord_fields (replicate z 0) = None"
  proof (rule ccontr)
    assume "LogRecord_fields (replicate z 0) \<noteq> None"
    then obtain n r rest where "LogRecord_fields (replicate z 0) = Some ((n, r), rest)" by auto
    then have "length (replicate z (0 :: byte)) \<ge> 20" unfolding LogRecord_fields_iff by simp
    with False show False by simp
  qed
  with False show ?thesis by (simp add: DecodeLogRecord_def)
qed

text \<open>A number cut off after \<open>j\<close> bytes and continued with zeros does not become larger.\<close>

lemma EncodeFixed32_cut: "take j (EncodeFixed32 n) @ replicate (4 - j) 0 = EncodeFixed32 (take_bit (8 * j) n)"
proof -
  have b: "ucast (drop_bit (8 * i) (take_bit (8 * j) n)) = (if i < j then ucast (drop_bit (8 * i) n) else 0 :: byte)" for i
    by (rule bit_word_eqI) (auto simp: bit_simps)
  have zero: "replicate 4 (0 :: byte) = [0, 0, 0, 0]" by (simp add: numeral_eq_Suc)
  consider "j = 0" | "j = 1" | "j = 2" | "j = 3" | "4 \<le> j" by linarith
  then show ?thesis
    using b [of 0] b [of 1] b [of 2] b [of 3]
    by cases (simp_all add: EncodeFixed32_def numeral_2_eq_2 numeral_3_eq_3 zero)
qed

text \<open>
  Four bytes of a buffer that holds \<open>e\<close> cut off after \<open>k\<close> bytes and zeros behind the cut.
\<close>

lemma torn_bytes:
  assumes "k \<le> length e" and "p + 4 \<le> k + z"
  shows "take 4 (drop p (take k e @ replicate z 0)) = take (k - p) (take 4 (drop p e)) @ replicate (4 - (k - p)) 0"
proof -
  have "drop p (take k e @ replicate z 0) = take (k - p) (drop p e) @ replicate (z - (p - k)) 0"
    using assms(1) by (simp add: drop_take min_absorb2)
  then show ?thesis using assms by (auto simp: take_replicate min_def) linarith
qed

lemma EncodeFixed32_inject: "EncodeFixed32 a = EncodeFixed32 b \<Longrightarrow> a = b"
  using fixed32.dec_enc [of a "[]"] fixed32.dec_enc [of b "[]"] by simp

lemma torn_number:
  assumes k: "k \<le> length e" "p + 4 \<le> k + z" and e: "take 4 (drop p e) = EncodeFixed32 (of_nat n)"
    and t: "take 4 (drop p (take k e @ replicate z 0)) = EncodeFixed32 (of_nat m)"
    and "n < 2 ^ 32" and "m < 2 ^ 32"
  shows "m \<le> n" and "p + 4 \<le> k \<Longrightarrow> m = n" and "k \<le> p \<Longrightarrow> m = 0"
proof -
  have "EncodeFixed32 (of_nat m) = EncodeFixed32 (take_bit (8 * (k - p)) (of_nat n))"
    using torn_bytes [OF k] t e EncodeFixed32_cut by metis
  then have "unat (of_nat m :: u32) = unat (take_bit (8 * (k - p)) (of_nat n :: u32))"
    using EncodeFixed32_inject by metis
  then have "m = take_bit (8 * (k - p)) (take_bit 32 n)"
    using assms(6) by (simp add: unsigned_take_bit_eq unsigned_of_nat take_bit_nat_eq_self)
  then have m: "m = take_bit (8 * (k - p)) n"
    using assms(5) by (simp only: take_bit_nat_eq_self)
  then show "m \<le> n" by (simp add: take_bit_nat_less_eq_self)
  show "m = n" if "p + 4 \<le> k"
  proof -
    have "(2 :: nat) ^ 32 \<le> 2 ^ (8 * (k - p))" using that by (intro power_increasing) auto
    with assms(5) m show ?thesis by (simp add: take_bit_nat_eq_self)
  qed
  show "m = 0" if "k \<le> p" using m that by simp
qed

text \<open>
  A record cut off after \<open>k\<close> bytes, in a buffer that is zero behind the cut and has room for it, does
  not decode: the byte 1 that ends a record would have to lie before the cut, and then every length
  field does; and the length fields that are read leave a byte to read behind the fields.
\<close>

lemma LogRecord_fields_torn:
  assumes ok: "log_record_ok r" and k: "k < length (EncodeLogRecord r)" and room: "length (EncodeLogRecord r) \<le> k + z"
    and fields: "LogRecord_fields (take k (EncodeLogRecord r) @ replicate z 0) = Some ((n, r'), rest)"
  shows "length (lr_key r') + length (lr_value r') \<le> length (lr_key r) + length (lr_value r)"
    and "8 \<le> k \<Longrightarrow> length (lr_key r') = length (lr_key r)"
    and "12 + length (lr_key r) \<le> k \<Longrightarrow> length (lr_value r') = length (lr_value r)"
proof -
  let ?e = "EncodeLogRecord r" and ?kl = "length (lr_key r)" and ?kl' = "length (lr_key r')"
  let ?b = "take k ?e @ replicate z 0"
  have ok': "log_record_ok r'" and eq: "?b = EncodeFixed32 n @ EncodeStr (lr_key r') @ EncodeStr (lr_value r') @
      EncodeFixed64 (lr_sequence_number r') @ rest"
    using fields by (auto simp: LogRecord_fields_iff)
  have len: "k \<le> length ?e" "length ?e \<le> k + z" using k room by auto
  have kb: "take 4 (drop 4 ?b) = EncodeFixed32 (of_nat ?kl')"
    and vb: "take 4 (drop (8 + ?kl') ?b) = EncodeFixed32 (of_nat (length (lr_value r')))"
    unfolding eq by (simp_all add: EncodeStr_def)
  have ke: "take 4 (drop 4 ?e) = EncodeFixed32 (of_nat ?kl)"
    and ve: "take 4 (drop (8 + ?kl) ?e) = EncodeFixed32 (of_nat (length (lr_value r)))"
    by (simp_all add: EncodeLogRecord_def EncodeSlice_eq_EncodeStr EncodeStr_def)
  note key = torn_number [OF len(1) _ ke kb]
  have key_le: "?kl' \<le> ?kl" and key_eq: "8 \<le> k \<Longrightarrow> ?kl' = ?kl"
    using key len ok ok' by (auto simp: length_EncodeLogRecord)
  have value_le: "length (lr_value r') \<le> length (lr_value r)"
    and value_eq: "12 + ?kl \<le> k \<Longrightarrow> length (lr_value r') = length (lr_value r)"
  proof -
    show "length (lr_value r') \<le> length (lr_value r)"
    proof (cases "8 \<le> k")
      case True
      with torn_number(1) [OF len(1) _ ve vb [unfolded key_eq [OF True]]] len ok ok' show ?thesis
        by (auto simp: length_EncodeLogRecord)
    next
      case False
      have "take 4 (drop (8 + ?kl') ?b) = EncodeFixed32 0"
        using torn_bytes [OF len(1), of "8 + ?kl'" z] False len key_le EncodeFixed32_cut [of 0 0]
        by (simp add: length_EncodeLogRecord)
      then have "unat (of_nat (length (lr_value r')) :: u32) = 0" using vb EncodeFixed32_inject by (metis unat_0)
      with ok' show ?thesis by (simp add: unsigned_of_nat take_bit_nat_eq_self)
    qed
    show "length (lr_value r') = length (lr_value r)" if "12 + ?kl \<le> k"
    proof -
      have "8 \<le> k" using that by simp
      from torn_number(2) [OF len(1) _ ve vb [unfolded key_eq [OF this]]] that len ok ok' show ?thesis
        by (auto simp: length_EncodeLogRecord)
    qed
  qed
  show "length (lr_key r') + length (lr_value r') \<le> length (lr_key r) + length (lr_value r)"
    using key_le value_le by simp
  show "8 \<le> k \<Longrightarrow> length (lr_key r') = length (lr_key r)" by (rule key_eq)
  show "12 + length (lr_key r) \<le> k \<Longrightarrow> length (lr_value r') = length (lr_value r)" by (rule value_eq)
qed

lemma DecodeLogRecord_torn:
  assumes ok: "log_record_ok r" and k: "k < length (EncodeLogRecord r)" and room: "length (EncodeLogRecord r) \<le> k + z"
  shows "DecodeLogRecord (take k (EncodeLogRecord r) @ replicate z 0) = Some None"
proof (cases "LogRecord_fields (take k (EncodeLogRecord r) @ replicate z 0)")
  case (Some a)
  then obtain n r' rest where fields: "LogRecord_fields (take k (EncodeLogRecord r) @ replicate z 0) = Some ((n, r'), rest)"
    by (cases a) auto
  let ?b = "take k (EncodeLogRecord r) @ replicate z 0" and ?p = "20 + length (lr_key r') + length (lr_value r')"
  note torn = LogRecord_fields_torn [OF ok k room fields]
  have eq: "?b = EncodeFixed32 n @ EncodeStr (lr_key r') @ EncodeStr (lr_value r') @
      EncodeFixed64 (lr_sequence_number r') @ rest"
    using fields by (simp add: LogRecord_fields_iff)
  have "length ?b = ?p + length rest" unfolding eq by simp
  moreover have "length ?b = k + z" using k by simp
  ultimately obtain c rest' where rest: "rest = c # rest'"
    using torn(1) room by (cases rest) (simp_all add: length_EncodeLogRecord)
  have "c = ?b ! ?p" unfolding eq rest by (simp add: nth_append)
  also have "\<dots> \<noteq> 1"
  proof (cases "?p < k")
    case True
    have "8 \<le> k" using True by simp
    with torn(2,3) True have "length (lr_key r') = length (lr_key r)" "length (lr_value r') = length (lr_value r)"
      by auto
    with True k show ?thesis by (simp add: length_EncodeLogRecord)
  qed (use k rest \<open>length ?b = ?p + length rest\<close> in \<open>simp add: nth_append\<close>)
  finally show ?thesis using fields rest by (simp add: DecodeLogRecord_def)
qed (simp add: DecodeLogRecord_def)

subsection \<open>Properties\<close>

text \<open>
  (C19) A decimal number printed by \<open>int_to_str\<close> (digits, in-place reversal, terminator) is read back
  by \<open>str_to_int\<close> from any buffer that continues behind it, and the length reported is that of the
  printed form, which \<open>nint_to_str\<close> predicts. It holds for every 64-bit value.
\<close>

theorem decimal_round_trip:
  "str_to_int (int_to_str x @ rest) out 0 = Some (x, length (int_to_str x)) \<and>
   length (int_to_str x) = nint_to_str x + 1"
  using str_to_int_int_to_str [of x rest out]
  by (simp add: int_to_str_eq to_string_def length_int_to_str_digits)

text \<open>
  (C18) A client request parses back to the request type, server, socket, key length and key it was
  generated from, whatever the outputs held before, for the four request types the parser knows. The
  lengths the two functions return, a 32-bit unsigned and a signed number, are both the number of
  bytes written as long as the key is shorter than $2^{31} - 64$ bytes; beyond, the parser returns it
  modulo $2^{32}$.
\<close>

theorem client_request_round_trip:
  assumes "t \<in> {GET, PUT, REDIRECT, GET_INDEX}" and "length key < 2 ^ 64"
    and "GenerateRDMARequest t server fd key = (req, len)"
  shows "\<exists>n. ParseRDMARequest old (req @ rest) = Some (t, server, fd, key @ rest, of_nat (length key), n) \<and>
    unat n = length req mod 2 ^ 32 \<and>
    (length key < 2 ^ 31 - 64 \<longrightarrow> len = int (length req) \<and> unat n = length req)"
proof -
  have small: "length req < 2 ^ 31" if "length key < 2 ^ 31 - 64"
    using that assms(3) length_int_to_str_le [of server] length_int_to_str_le [of fd]
      length_int_to_str_le [of "of_nat (length key)"] by (auto simp: GenerateRDMARequest_def Let_def)
  have parse: "ParseRDMARequest old (req @ rest) = Some (t, server, fd, key @ rest, of_nat (length key), of_nat (length req))"
    by (rule ParseRDMARequest_Generate [OF assms])
  show ?thesis
    using parse small GenerateRDMARequest_size [of key t server fd] assms(3)
    by (intro exI [of _ "of_nat (length req)"]) (auto simp: unat_of_nat)
qed

theorem client_request_round_trip_witness:
  "ParseRDMARequest (0, 0, 0) (fst (GenerateRDMARequest PUT 3 17 [1, 2]) @ [9]) = Some (PUT, 3, 17, [1, 2, 9], 2, 10) \<and>
   snd (GenerateRDMARequest PUT 3 17 [1, 2]) = 10"
proof -
  let ?req = "fst (GenerateRDMARequest PUT 3 17 [1, 2])"
  have len: "length ?req = 10"
    by (simp add: GenerateRDMARequest_def Let_def length_int_to_str nint_to_str.simps)
  from client_request_round_trip [of PUT "[1, 2]" 3 17 ?req "snd (GenerateRDMARequest PUT 3 17 [1, 2])" "(0, 0, 0)" "[9]"]
  obtain n :: u32 where "ParseRDMARequest (0, 0, 0) (?req @ [9]) = Some (PUT, 3, 17, [1, 2, 9], 2, n)"
      "unat n = 10" "snd (GenerateRDMARequest PUT 3 17 [1, 2]) = 10"
    by (auto simp: len)
  moreover then have "n = 10" by (simp add: word_unat_eq_iff)
  ultimately show ?thesis by simp
qed

text \<open>
  (C20) The names a database and its log files get identify them: the index is read back from a
  database name whatever the directory, and the two numbers of a log file name are read back given
  that the formatting library prints a number in decimal.
\<close>

theorem names_identify:
  assumes "\<And>n. fmt n = to_string (ucast n)"
  shows "ParseDBIndexFromDBName (DBName dbname index) = Some index \<and>
    ParseDBIndexFromLogFileName old (LogFileName fmt db_id memtableid) = (db_id, memtableid)"
  using assms ParseDBIndexFromDBName_DBName ParseDBIndexFromLogFileName_LogFileName by blast

theorem names_identify_witness:
  "ParseDBIndexFromDBName (DBName [1, 47, 50] 12) = Some 12 \<and>
   ParseDBIndexFromLogFileName 0 (LogFileName (\<lambda>n. to_string (ucast n)) 7 40) = (7, 40)"
  using names_identify [of "\<lambda>n. to_string (ucast n)" "[1, 47, 50]" 12 0 7 40] by simp

text \<open>
  (C8) Recovery of a log file replays the records that were completely written. A buffer that starts
  with the encodings of \<open>rs\<close> replays \<open>rs\<close>, in order, before whatever the rest of it replays. When the
  rest is zeros, nothing more is replayed, unless exactly 20 bytes are left, where decoding reads
  behind the buffer. When it is the first \<open>k\<close> bytes of one more record, cut off by a crash, and
  zeros up to at least the end of that record, the torn record is never replayed, nor anything else.
\<close>

theorem log_replay_exact:
  assumes "list_all log_record_ok rs"
  shows "replay_log (concat (map EncodeLogRecord rs) @ tail) = map_option ((@) rs) (replay_log tail) \<and>
    replay_log (concat (map EncodeLogRecord rs) @ replicate z 0) = (if z = 20 then None else Some rs) \<and>
    (log_record_ok r \<and> k < length (EncodeLogRecord r) \<and> length (EncodeLogRecord r) \<le> k + z \<longrightarrow>
       replay_log (concat (map EncodeLogRecord rs) @ take k (EncodeLogRecord r) @ replicate z 0) = Some rs)"
  using assms replay_log.simps [of "replicate z 0"]
  by (auto simp: replay_log_append replay_log_stop DecodeLogRecord_torn DecodeLogRecord_zeros)

theorem log_replay_exact_witness:
  "let r = \<lparr> lr_key = [1], lr_value = [2, 3], lr_sequence_number = 4 \<rparr>
   in replay_log (EncodeLogRecord r @ take 23 (EncodeLogRecord r) @ replicate 100 0) = Some [r] \<and>
      replay_log (EncodeLogRecord r @ replicate 20 0) = None"
  using log_replay_exact [of "[\<lparr> lr_key = [1], lr_value = [2, 3], lr_sequence_number = 4 \<rparr>]" "[]" 20
      "\<lparr> lr_key = [1], lr_value = [2, 3], lr_sequence_number = 4 \<rparr>" 0]
    log_replay_exact [of "[\<lparr> lr_key = [1], lr_value = [2, 3], lr_sequence_number = 4 \<rparr>]" "[]" 100
      "\<lparr> lr_key = [1], lr_value = [2, 3], lr_sequence_number = 4 \<rparr>" 23]
  by (simp add: length_EncodeLogRecord Let_def)

end
