(* ===== verification/YCSBComparator.thy ===== *)
theory YCSBComparator
  imports DBFormat NovaCommon
begin

text \<open>
  The user comparator every NovaLSM database is opened with, \<^verbatim>\<open>YCSBKeyComparator\<close> of
  \<^verbatim>\<open>ltc/db_helper.h\<close>: keys are decimal numbers and are ordered by their value. The two
  key-shortening operations are left empty by the code. The theory shows that this comparator meets
  the contract the internal key order and the index entries of a table rely on.
\<close>

subsection \<open>Definitions\<close>

text \<open>
  The number a key stands for, \<^verbatim>\<open>str_to_int(a.data(), &ai, a.size())\<close> with \<^verbatim>\<open>ai\<close> initialised to zero.
  For a key that is not empty the result does not depend on the bytes behind it, of which the loop
  reads one before it stops (\<open>key_int_next_byte\<close>). For an empty key the length zero means no bound,
  and the loop reads on behind the key: the model takes the byte there to be the terminator of a
  \<^verbatim>\<open>std::string\<close>. In an internal key it is the type of the entry, 0 or 1, with the same result.
\<close>

definition key_int :: "bytes \<Rightarrow> u64" where
  "key_int a = (case str_to_int (a @ [0]) 0 (length a) of None \<Rightarrow> 0 | Some (ai, _) \<Rightarrow> ai)"

text \<open>
  The number of the user key of an internal key, where the source reads it into a variable that is
  initialised to \<open>init\<close>, or not at all (\<open>None\<close>). A user key that starts with a newline leaves the variable
  as it was; the result is \<open>None\<close> when an unwritten variable would be used, when the loop would read
  behind the key, and when the key is too short to be an internal key.
\<close>

definition user_key_int :: "u64 option \<Rightarrow> bytes \<Rightarrow> u64 option" where
  "user_key_int init k =
     (if length k < 8 then None
      else if hd k = MSG_TERMINATER_CHAR then init
      else map_option fst (str_to_int k 0 (length k - 8)))"

definition YCSB_Compare :: "bytes \<Rightarrow> bytes \<Rightarrow> int" where
  "YCSB_Compare a b =
     (let ai = key_int a; bi = key_int b in if ai < bi then -1 else if ai > bi then 1 else 0)"

definition YCSB_FindShortestSeparator :: "bytes \<Rightarrow> bytes \<Rightarrow> bytes" where
  "YCSB_FindShortestSeparator start limit = start"

definition YCSB_FindShortSuccessor :: "bytes \<Rightarrow> bytes" where
  "YCSB_FindShortSuccessor key = key"

subsection \<open>The comparator meets the contract\<close>

lemma str_to_int_loop_bounded:
  "len + length a = nkey \<Longrightarrow> nkey \<noteq> 0 \<Longrightarrow>
   \<exists>r. str_to_int_loop nkey len x (a @ c # cs) = Some r \<and> str_to_int_loop nkey len x (a @ d # ds) = Some r"
  by (induction a arbitrary: len x) auto

lemma key_int_next_byte:
  assumes "a \<noteq> []"
  shows "map_option fst (str_to_int (a @ c # cs) 0 (length a)) = Some (key_int a)"
proof -
  obtain r where "str_to_int_loop (length a) 0 0 (a @ c # cs) = Some r"
      "str_to_int_loop (length a) 0 0 (a @ [0]) = Some r"
    using str_to_int_loop_bounded [of 0 a "length a" 0 c cs 0 "[]"] assms by auto
  with assms show ?thesis
    by (cases a; cases r) (auto simp: key_int_def str_to_int_def)
qed

text \<open>Keys whose number is written: the user key is not empty and does not start with a newline.\<close>

definition has_number :: "bytes \<Rightarrow> bool" where
  "has_number k \<longleftrightarrow> 8 < length k \<and> hd k \<noteq> MSG_TERMINATER_CHAR"

lemma key_int_newline: "a \<noteq> [] \<Longrightarrow> hd a = MSG_TERMINATER_CHAR \<Longrightarrow> key_int a = 0"
  by (cases a) (simp_all add: key_int_def str_to_int_def)

lemma user_key_int_eq:
  assumes "8 < length k" and "hd k \<noteq> MSG_TERMINATER_CHAR \<or> init = Some 0"
  shows "user_key_int init k = Some (key_int (ExtractUserKey k))"
proof -
  let ?u = "ExtractUserKey k"
  have u: "length ?u = length k - 8" "?u \<noteq> []" "hd ?u = hd k"
    using assms(1) by (auto simp: ExtractUserKey_def)
  obtain c cs where "drop (length k - 8) k = c # cs"
    using assms(1) by (cases "drop (length k - 8) k") auto
  then have "k = ?u @ c # cs" unfolding ExtractUserKey_def by (metis append_take_drop_id)
  then have "map_option fst (str_to_int k 0 (length k - 8)) = Some (key_int ?u)"
    using key_int_next_byte [OF u(2), of c cs] u(1) by metis
  with assms u key_int_newline [OF u(2)] show ?thesis by (auto simp: user_key_int_def)
qed

lemma user_key_int_has_number: "has_number k \<Longrightarrow> user_key_int init k = Some (key_int (ExtractUserKey k))"
  by (rule user_key_int_eq) (simp_all add: has_number_def)

lemma YCSB_Compare_simps:
  "YCSB_Compare a b < 0 \<longleftrightarrow> key_int a < key_int b"
  "YCSB_Compare a b = 0 \<longleftrightarrow> key_int a = key_int b"
  "YCSB_Compare a b > 0 \<longleftrightarrow> key_int b < key_int a"
  "YCSB_Compare a b \<le> 0 \<longleftrightarrow> key_int a \<le> key_int b"
  by (auto simp: YCSB_Compare_def Let_def)

interpretation ycsb: shortening_comparator YCSB_Compare "\<lambda>_. True"
  YCSB_FindShortestSeparator YCSB_FindShortSuccessor
  by unfold_locales
    (auto simp: YCSB_Compare_simps YCSB_FindShortestSeparator_def YCSB_FindShortSuccessor_def)

interpretation internal_ycsb: internal_comparator YCSB_Compare
  YCSB_FindShortestSeparator YCSB_FindShortSuccessor ..

lemma key_int_to_string: "key_int (to_string v) = v"
  using str_to_int_to_string by (simp add: key_int_def)

subsection \<open>Properties\<close>

text \<open>
  (C24) Keys printed in decimal are ordered by their number, for all 64-bit numbers and whatever the
  printed lengths: the comparison is negative, zero or positive exactly when the first number is
  smaller, equal or larger. Internal keys built on them, with sequence numbers of at most 56 bits, are
  ordered by the number first, equal numbers by descending sequence number, and equal sequence numbers
  by descending type; two of them compare equal only when all three agree.
\<close>

theorem ycsb_numeric_order:
  assumes "s \<le> kMaxSequenceNumber" and "s' \<le> kMaxSequenceNumber"
  shows "(YCSB_Compare (to_string a) (to_string b) < 0 \<longleftrightarrow> a < b) \<and>
   (YCSB_Compare (to_string a) (to_string b) = 0 \<longleftrightarrow> a = b) \<and>
   (YCSB_Compare (to_string a) (to_string b) > 0 \<longleftrightarrow> b < a) \<and>
   (let icmp = InternalKeyComparator_Compare YCSB_Compare
          (InternalKey_new (to_string a) s t) (InternalKey_new (to_string b) s' t') in
   (icmp < 0 \<longleftrightarrow> a < b \<or> a = b \<and> (s > s' \<or> s = s' \<and> ValueType_code t > ValueType_code t')) \<and>
   (icmp > 0 \<longleftrightarrow> b < a \<or> a = b \<and> (s < s' \<or> s = s' \<and> ValueType_code t < ValueType_code t')) \<and>
   (icmp = 0 \<longleftrightarrow> a = b \<and> s = s' \<and> t = t'))"
proof -
  define icmp where "icmp = InternalKeyComparator_Compare YCSB_Compare
    (InternalKey_new (to_string a) s t) (InternalKey_new (to_string b) s' t')"
  note order = YCSB_Compare_simps key_int_to_string Pack_less_iff [OF assms(1,2)] Pack_less_iff [OF assms(2,1)]
  have less: "icmp < 0 \<longleftrightarrow> a < b \<or> a = b \<and> (s > s' \<or> s = s' \<and> ValueType_code t > ValueType_code t')"
    and greater: "icmp > 0 \<longleftrightarrow> b < a \<or> a = b \<and> (s < s' \<or> s = s' \<and> ValueType_code t < ValueType_code t')"
    using internal_ycsb.icmp_less_iff [OF InternalKey_tag_new InternalKey_tag_new]
      internal_ycsb.icmp_greater_iff [OF InternalKey_tag_new InternalKey_tag_new]
    by (auto simp: icmp_def order)
  have "ValueType_code t = ValueType_code t' \<longleftrightarrow> t = t'" by (cases t; cases t') simp_all
  with less greater have "icmp = 0 \<longleftrightarrow> a = b \<and> s = s' \<and> t = t'" by (auto simp: not_less_iff_gr_or_eq)
  with less greater show ?thesis unfolding icmp_def Let_def by (simp add: order)
qed

theorem ycsb_numeric_order_witness:
  "InternalKeyComparator_Compare YCSB_Compare
     (InternalKey_new (to_string 9) 1 kTypeValue) (InternalKey_new (to_string 10) 7 kTypeValue) < 0 \<and>
   InternalKeyComparator_Compare YCSB_Compare
     (InternalKey_new (to_string 9) 1 kTypeValue) (InternalKey_new (to_string 9) 7 kTypeDeletion) > 0"
  using ycsb_numeric_order [of 1 7 9 10 kTypeValue kTypeValue] ycsb_numeric_order [of 1 7 9 9 kTypeValue kTypeDeletion]
  by (simp add: kMaxSequenceNumber_def Let_def)

end
