(* ===== verification/Subranges.thy ===== *)
theory Subranges
  imports Complex_Main YCSBComparator "HOL-Library.Signed_Division"
begin

text \<open>
  The partition of a database into subranges (\<^verbatim>\<open>include/leveldb/subrange.h\<close>, \<^verbatim>\<open>db/subrange.cpp\<close>):
  ranges, subranges made of tiny ranges, their encodings, the two binary searches that route a key to
  its subrange, the round-robin choice of a compaction thread, and the consistency check the
  reorganisation runs. Insert counters are \<^verbatim>\<open>double\<close>s in the code; here they are only copied, as
  reals. Indices are mathematical integers: a vector has fewer than $2^{31}$ elements.
\<close>

subsection \<open>Ranges\<close>

record Range =
  rg_lower :: bytes
  rg_upper :: bytes
  rg_lower_inclusive :: bool
  rg_upper_inclusive :: bool
  rg_num_duplicates :: u32
  rg_ninserts :: real
  rg_insertion_ratio :: real
  rg_prior_subrange_id :: int

definition Range_new :: Range where
  "Range_new = \<lparr> rg_lower = [], rg_upper = [], rg_lower_inclusive = True, rg_upper_inclusive = False,
     rg_num_duplicates = 0, rg_ninserts = 0, rg_insertion_ratio = 0, rg_prior_subrange_id = -1 \<rparr>"

definition Range_lower_int :: "Range \<Rightarrow> u64" where
  "Range_lower_int r = key_int (rg_lower r)"

definition Range_upper_int :: "Range \<Rightarrow> u64" where
  "Range_upper_int r = key_int (rg_upper r)"

definition Range_IsSmallerThanLower :: "(bytes \<Rightarrow> bytes \<Rightarrow> int) \<Rightarrow> Range \<Rightarrow> bytes \<Rightarrow> bool" where
  "Range_IsSmallerThanLower cmp r key =
     (let comp = cmp key (rg_lower r) in comp < 0 \<or> comp = 0 \<and> \<not> rg_lower_inclusive r)"

definition Range_IsGreaterThanLower :: "(bytes \<Rightarrow> bytes \<Rightarrow> int) \<Rightarrow> Range \<Rightarrow> bytes \<Rightarrow> bool" where
  "Range_IsGreaterThanLower cmp r key =
     (let comp = cmp key (rg_lower r) in comp > 0 \<or> comp = 0 \<and> \<not> rg_lower_inclusive r)"

definition Range_IsGreaterThanUpper :: "(bytes \<Rightarrow> bytes \<Rightarrow> int) \<Rightarrow> Range \<Rightarrow> bytes \<Rightarrow> bool" where
  "Range_IsGreaterThanUpper cmp r key =
     (let comp = cmp key (rg_upper r) in comp > 0 \<or> comp = 0 \<and> \<not> rg_upper_inclusive r)"

definition Range_IsAPoint :: "Range \<Rightarrow> bool" where
  "Range_IsAPoint r \<longleftrightarrow> Range_upper_int r - Range_lower_int r = 1"

definition Range_Equals :: "(bytes \<Rightarrow> bytes \<Rightarrow> int) \<Rightarrow> Range \<Rightarrow> Range \<Rightarrow> bool" where
  "Range_Equals cmp r other \<longleftrightarrow>
     rg_lower_inclusive r = rg_lower_inclusive other \<and>
     rg_upper_inclusive r = rg_upper_inclusive other \<and>
     rg_num_duplicates r = rg_num_duplicates other \<and>
     cmp (rg_lower r) (rg_lower other) = 0 \<and> cmp (rg_upper r) (rg_upper other) = 0"

definition Range_Encode :: "Range \<Rightarrow> bytes" where
  "Range_Encode r = EncodeStr (rg_lower r) @ EncodeStr (rg_upper r) @ EncodeBool (rg_lower_inclusive r) @
     EncodeBool (rg_upper_inclusive r) @ EncodeFixed32 (rg_num_duplicates r)"

text \<open>\<open>DecodeStr\<close> appends to the string it is given.\<close>

definition Range_Decode :: "Range \<Rightarrow> Range decoder" where
  "Range_Decode r input = do {
     (lower, input) \<leftarrow> DecodeStr (rg_lower r) input;
     (upper, input) \<leftarrow> DecodeStr (rg_upper r) input;
     (li, input) \<leftarrow> DecodeBool input;
     (ui, input) \<leftarrow> DecodeBool input;
     (dup, input) \<leftarrow> DecodeFixed32 input;
     Some (r \<lparr> rg_lower := lower, rg_upper := upper, rg_lower_inclusive := li,
                rg_upper_inclusive := ui, rg_num_duplicates := dup \<rparr>, input) }"

subsection \<open>Subranges\<close>

record SubRange =
  sr_tiny_ranges :: "Range list"
  sr_num_duplicates :: u32
  sr_ninserts :: real
  sr_insertion_ratio :: real
  sr_start_tid :: int
  sr_end_tid :: int
  sr_merge_memtables_without_flushing :: bool
  sr_decoded_subrange_id :: u32

definition SubRange_new :: SubRange where
  "SubRange_new = \<lparr> sr_tiny_ranges = [], sr_num_duplicates = 0, sr_ninserts = 0, sr_insertion_ratio = 0,
     sr_start_tid = 0, sr_end_tid = 0, sr_merge_memtables_without_flushing = False,
     sr_decoded_subrange_id = 0 \<rparr>"

definition SubRange_Encode :: "SubRange \<Rightarrow> u32 \<Rightarrow> bytes" where
  "SubRange_Encode sr subrange_id = EncodeFixed32 subrange_id @ EncodeFixed32 (sr_num_duplicates sr) @
     EncodeFixed32 (of_nat (length (sr_tiny_ranges sr))) @ concat (map Range_Encode (sr_tiny_ranges sr))"

text \<open>A read that fails aborts the process.\<close>

definition SubRange_Decode :: "SubRange \<Rightarrow> SubRange decoder" where
  "SubRange_Decode sr input = do {
     (id, input) \<leftarrow> DecodeFixed32 input;
     (dup, input) \<leftarrow> DecodeFixed32 input;
     (nranges, input) \<leftarrow> DecodeFixed32 input;
     (rs, input) \<leftarrow> decode_n (unat nranges) (Range_Decode Range_new) input;
     Some (sr \<lparr> sr_decoded_subrange_id := id, sr_num_duplicates := dup,
                 sr_tiny_ranges := sr_tiny_ranges sr @ rs \<rparr>, input) }"

text \<open>The one range that spans a subrange, from the first tiny range to the last.\<close>

definition SubRange_hull :: "SubRange \<Rightarrow> Range" where
  "SubRange_hull sr =
     (let f = sr_tiny_ranges sr ! 0; l = last (sr_tiny_ranges sr)
      in Range_new \<lparr> rg_lower := rg_lower f, rg_lower_inclusive := rg_lower_inclusive f,
           rg_upper := rg_upper l, rg_upper_inclusive := rg_upper_inclusive l,
           rg_num_duplicates := sr_num_duplicates sr \<rparr>)"

text \<open>\<open>None\<close>: the code indexes an empty vector.\<close>

definition SubRange_EncodeForCompaction :: "SubRange \<Rightarrow> u32 \<Rightarrow> bytes option" where
  "SubRange_EncodeForCompaction sr subrange_id =
     (if sr_tiny_ranges sr = [] then None
      else Some (EncodeFixed32 subrange_id @ EncodeFixed32 (sr_num_duplicates sr) @
             Range_Encode (SubRange_hull sr)))"

definition SubRange_DecodeForCompaction :: "SubRange \<Rightarrow> SubRange decoder" where
  "SubRange_DecodeForCompaction sr input = do {
     (id, input) \<leftarrow> DecodeFixed32 input;
     (dup, input) \<leftarrow> DecodeFixed32 input;
     (r, input) \<leftarrow> Range_Decode Range_new input;
     Some (sr \<lparr> sr_decoded_subrange_id := id, sr_num_duplicates := dup,
                 sr_tiny_ranges := sr_tiny_ranges sr @ [r] \<rparr>, input) }"

text \<open>
  The thread a flush of this subrange runs on: the round-robin counter is read and incremented
  (wrapping at 64 bits) only when the subrange owns several threads. \<open>None\<close> is a failed assertion or
  a division by zero.
\<close>

definition SubRange_GetCompactionThreadId :: "SubRange \<Rightarrow> 64 word \<Rightarrow> (int \<times> 64 word \<times> bool) option" where
  "SubRange_GetCompactionThreadId sr rr_id =
     (let merge = sr_merge_memtables_without_flushing sr in
      if sr_start_tid sr = sr_end_tid sr then Some (sr_start_tid sr, rr_id, merge)
      else let range = sr_end_tid sr - sr_start_tid sr + 1 in
        if range = 0 then None
        else let index = sint rr_id smod range in
          if sr_start_tid sr + index \<le> sr_end_tid sr then Some (sr_start_tid sr + index, rr_id + 1, merge)
          else None)"

text \<open>The difference is computed on 64-bit numbers and returned as an \<^verbatim>\<open>int\<close>.\<close>

definition SubRange_keys :: "SubRange \<Rightarrow> int option" where
  "SubRange_keys sr =
     (if sr_tiny_ranges sr = [] then None
      else Some (sint (ucast (Range_upper_int (last (sr_tiny_ranges sr)) -
             Range_lower_int (sr_tiny_ranges sr ! 0)) :: 32 word)))"

definition SubRange_RangeEquals :: "SubRange \<Rightarrow> SubRange \<Rightarrow> bool option" where
  "SubRange_RangeEquals sr other =
     (if sr_tiny_ranges sr = [] \<or> sr_tiny_ranges other = [] then None
      else Some (Range_lower_int (sr_tiny_ranges sr ! 0) = Range_lower_int (sr_tiny_ranges other ! 0) \<and>
             Range_upper_int (last (sr_tiny_ranges sr)) = Range_upper_int (last (sr_tiny_ranges other))))"

definition SubRange_Equals :: "(bytes \<Rightarrow> bytes \<Rightarrow> int) \<Rightarrow> SubRange \<Rightarrow> SubRange \<Rightarrow> bool" where
  "SubRange_Equals cmp sr other \<longleftrightarrow>
     sr_num_duplicates sr = sr_num_duplicates other \<and>
     list_all2 (Range_Equals cmp) (sr_tiny_ranges sr) (sr_tiny_ranges other)"

text \<open>The three tests abort on a subrange without tiny ranges.\<close>

definition SubRange_IsSmallerThanLower ::
    "(bytes \<Rightarrow> bytes \<Rightarrow> int) \<Rightarrow> SubRange \<Rightarrow> bytes \<Rightarrow> bool option" where
  "SubRange_IsSmallerThanLower cmp sr key =
     (if sr_tiny_ranges sr = [] then None
      else Some (Range_IsSmallerThanLower cmp (sr_tiny_ranges sr ! 0) key))"

definition SubRange_IsGreaterThanLower ::
    "(bytes \<Rightarrow> bytes \<Rightarrow> int) \<Rightarrow> SubRange \<Rightarrow> bytes \<Rightarrow> bool option" where
  "SubRange_IsGreaterThanLower cmp sr key =
     (if sr_tiny_ranges sr = [] then None
      else Some (Range_IsGreaterThanLower cmp (sr_tiny_ranges sr ! 0) key))"

definition SubRange_IsGreaterThanUpper ::
    "(bytes \<Rightarrow> bytes \<Rightarrow> int) \<Rightarrow> SubRange \<Rightarrow> bytes \<Rightarrow> bool option" where
  "SubRange_IsGreaterThanUpper cmp sr key =
     (if sr_tiny_ranges sr = [] then None
      else Some (Range_IsGreaterThanUpper cmp (last (sr_tiny_ranges sr)) key))"

definition SubRange_IsAPoint :: "SubRange \<Rightarrow> bool" where
  "SubRange_IsAPoint sr \<longleftrightarrow> length (sr_tiny_ranges sr) = 1 \<and> Range_IsAPoint (sr_tiny_ranges sr ! 0)"

subsection \<open>The binary searches\<close>

text \<open>
  The loop both searches run, on the two tests an element answers (\<open>None\<close>: the test aborts). The
  result is the index found, or \<open>None\<close>.
\<close>

function search_loop :: "('a \<Rightarrow> bool option) \<Rightarrow> ('a \<Rightarrow> bool option) \<Rightarrow> 'a list \<Rightarrow> int \<Rightarrow> int \<Rightarrow> int option option" where
  "search_loop is_smaller is_greater xs l r =
     (if l \<le> r then
        let m = l + (r - l) div 2 in
        do { s \<leftarrow> is_smaller (xs ! nat m);
             if s then search_loop is_smaller is_greater xs l (m - 1)
             else do { g \<leftarrow> is_greater (xs ! nat m);
                       if g then search_loop is_smaller is_greater xs (m + 1) r
                       else Some (Some m) } }
      else Some None)"
  by pat_completeness auto
termination
  by (relation "measure (\<lambda>(is_smaller, is_greater, xs, l, r). nat (r - l + 1))") auto

declare search_loop.simps [simp del]

text \<open>Each search returns whether it found the key, and the new value of the index it is given.\<close>

definition Ranges_BinarySearch :: "Range list \<Rightarrow> bytes \<Rightarrow> (bytes \<Rightarrow> bytes \<Rightarrow> int) \<Rightarrow> (bool \<times> int) option" where
  "Ranges_BinarySearch ranges key cmp = do {
     res \<leftarrow> search_loop (\<lambda>r. Some (Range_IsSmallerThanLower cmp r key))
              (\<lambda>r. Some (Range_IsGreaterThanUpper cmp r key)) ranges 0 (int (length ranges) - 1);
     Some (case res of None \<Rightarrow> (False, -1) | Some m \<Rightarrow> (True, m)) }"

definition SubRanges_BinarySearch ::
    "SubRange list \<Rightarrow> bytes \<Rightarrow> int \<Rightarrow> (bytes \<Rightarrow> bytes \<Rightarrow> int) \<Rightarrow> (bool \<times> int) option" where
  "SubRanges_BinarySearch subranges key subrange_id cmp = do {
     res \<leftarrow> search_loop (\<lambda>sr. SubRange_IsSmallerThanLower cmp sr key)
              (\<lambda>sr. SubRange_IsGreaterThanUpper cmp sr key) subranges 0 (int (length subranges) - 1);
     Some (case res of None \<Rightarrow> (False, subrange_id) | Some m \<Rightarrow> (True, m)) }"

text \<open>The walk to the first copy of a duplicated subrange: the last \<open>i\<close> below the copies.\<close>

fun first_copy_loop :: "(bytes \<Rightarrow> bytes \<Rightarrow> int) \<Rightarrow> SubRange list \<Rightarrow> SubRange \<Rightarrow> nat \<Rightarrow> nat" where
  "first_copy_loop cmp subranges sr 0 = 0"
| "first_copy_loop cmp subranges sr (Suc i) =
     (if SubRange_Equals cmp (subranges ! i) sr then first_copy_loop cmp subranges sr i else Suc i)"

text \<open>
  \<open>rand\<close> is the value \<^verbatim>\<open>rand_r\<close> returns for the caller's seed, \<open>None\<close> when the caller passes no seed.
  The outer \<open>None\<close> is a failed assertion or an index outside the vector.
\<close>

definition SubRanges_BinarySearchWithDuplicate ::
    "SubRange list \<Rightarrow> bytes \<Rightarrow> u32 option \<Rightarrow> int \<Rightarrow> (bytes \<Rightarrow> bytes \<Rightarrow> int) \<Rightarrow> (bool \<times> int) option" where
  "SubRanges_BinarySearchWithDuplicate subranges key rand subrange_id cmp = do {
     (found, id) \<leftarrow> SubRanges_BinarySearch subranges key subrange_id cmp;
     if \<not> found then Some (False, id)
     else if id < 0 then None
     else let sr = subranges ! nat id in
       if sr_num_duplicates sr = 0 then Some (True, id)
       else let start = first_copy_loop cmp subranges sr (nat id);
                chosen = start + (case rand of None \<Rightarrow> 0 | Some v \<Rightarrow> unat (v mod sr_num_duplicates sr))
         in if chosen < length subranges \<and>
               SubRange_IsSmallerThanLower cmp (subranges ! chosen) key = Some False \<and>
               SubRange_IsGreaterThanUpper cmp (subranges ! chosen) key = Some False
            then Some (True, int chosen) else None }"

subsection \<open>Whole partitions\<close>

text \<open>
  The bytes written. The position in the buffer is a \<^verbatim>\<open>uint32_t\<close> in the source: the model describes
  encodings shorter than $2^{32}$ bytes.
\<close>

definition SubRanges_Encode :: "SubRange list \<Rightarrow> bytes" where
  "SubRanges_Encode subranges = EncodeFixed32 (of_nat (length subranges)) @
     concat (map (\<lambda>i. SubRange_Encode (subranges ! i) (of_nat i)) [0..<length subranges])"

definition SubRanges_Decode :: "SubRange list \<Rightarrow> SubRange list decoder" where
  "SubRanges_Decode subranges input = do {
     (num_subranges, input) \<leftarrow> DecodeFixed32 input;
     (srs, input) \<leftarrow> decode_n (unat num_subranges) (SubRange_Decode SubRange_new) input;
     Some (subranges @ srs, input) }"

text \<open>The copy constructor: threads, insertion ratios and decoded ids are not copied.\<close>

definition Range_copy :: "Range \<Rightarrow> Range" where
  "Range_copy o' = Range_new \<lparr> rg_lower := rg_lower o', rg_upper := rg_upper o',
     rg_lower_inclusive := rg_lower_inclusive o', rg_upper_inclusive := rg_upper_inclusive o',
     rg_num_duplicates := rg_num_duplicates o', rg_ninserts := rg_ninserts o',
     rg_prior_subrange_id := rg_prior_subrange_id o' \<rparr>"

definition SubRanges_copy :: "SubRange list \<Rightarrow> SubRange list" where
  "SubRanges_copy other = map (\<lambda>sr. SubRange_new \<lparr> sr_ninserts := sr_ninserts sr,
     sr_num_duplicates := sr_num_duplicates sr, sr_tiny_ranges := map Range_copy (sr_tiny_ranges sr) \<rparr>) other"

text \<open>
  The first loop of \<open>AssertSubrangeBoundary\<close>: \<open>None\<close> and \<open>False\<close> are a failed assertion, or the iterator
  running past the end of the vector. The inner loop reads the duplicate count from the subrange the
  iterator has reached, as an unsigned number: with a count of zero there the bound wraps around. It
  leaves the iterator behind the last copy.
\<close>

fun assert_copies :: "nat \<Rightarrow> u64 \<Rightarrow> SubRange list \<Rightarrow> SubRange list option" where
  "assert_copies i lk [] = None"
| "assert_copies i lk (it # rest) =
     (if of_nat i < sr_num_duplicates it - 1 then
        if length (sr_tiny_ranges it) = 1 \<and> SubRange_IsAPoint it \<and> lk = Range_lower_int (sr_tiny_ranges it ! 0) \<and>
           rg_num_duplicates (sr_tiny_ranges it ! 0) = sr_num_duplicates it
        then assert_copies (i + 1) lk rest else None
      else Some rest)"

lemma assert_copies_shorter: "assert_copies i lk srs = Some rest \<Longrightarrow> length rest < length srs"
  by (induction i lk srs rule: assert_copies.induct) (auto split: if_splits)

function assert_duplicates :: "SubRange list \<Rightarrow> bool" where
  "assert_duplicates [] = True"
| "assert_duplicates (sr # srs) =
     (sr_tiny_ranges sr \<noteq> [] \<and>
      (if sr_num_duplicates sr > 0 then
         length (sr_tiny_ranges sr) = 1 \<and> SubRange_IsAPoint sr \<and>
         (case assert_copies 0 (Range_lower_int (sr_tiny_ranges sr ! 0)) (sr # srs) of
            None \<Rightarrow> False | Some it \<Rightarrow> assert_duplicates it)
       else assert_duplicates srs))"
  by pat_completeness auto
termination
  by (relation "measure length") (auto dest!: assert_copies_shorter simp del: assert_copies.simps)

text \<open>
  The second loop, over the tiny ranges in order, each with the duplicate count of its subrange.
  The prior bounds are \<^verbatim>\<open>int\<close>s: they truncate the 64-bit bounds and are sign-extended where they are
  compared with one.
\<close>

fun assert_boundaries :: "32 word \<Rightarrow> 32 word \<Rightarrow> bool \<Rightarrow> (u32 \<times> Range) list \<Rightarrow> bool" where
  "assert_boundaries prior_lower prior_upper isPriorDup [] = True"
| "assert_boundaries prior_lower prior_upper isPriorDup ((dup, rng) # rs) =
     (dup = rg_num_duplicates rng \<and> rg_lower_inclusive rng \<and> \<not> rg_upper_inclusive rng \<and>
      (if prior_lower = -1 then
         assert_boundaries (ucast (Range_lower_int rng)) (ucast (Range_upper_int rng)) (rg_num_duplicates rng > 0) rs
       else if Range_lower_int rng = scast prior_lower then
         Range_upper_int rng = scast prior_upper \<and> rg_num_duplicates rng > 0 \<and> isPriorDup \<and>
         assert_boundaries prior_lower prior_upper isPriorDup rs
       else
         Range_lower_int rng \<ge> scast prior_upper \<and> Range_upper_int rng > Range_lower_int rng \<and>
         assert_boundaries (ucast (Range_lower_int rng)) (ucast (Range_upper_int rng)) (rg_num_duplicates rng > 0) rs))"

definition SubRanges_AssertSubrangeBoundary :: "SubRange list \<Rightarrow> bool" where
  "SubRanges_AssertSubrangeBoundary subranges \<longleftrightarrow>
     subranges = [] \<or>
     assert_duplicates subranges \<and>
     assert_boundaries (-1) (-1) False
       (concat (map (\<lambda>sr. map (Pair (sr_num_duplicates sr)) (sr_tiny_ranges sr)) subranges))"

subsection \<open>The search finds the interval that holds a key\<close>

text \<open>
  What the binary search needs of its elements: two tests that are monotone along an order of the
  elements. The tests of the code may abort; on the elements of the vector they return.
\<close>

locale interval_order =
  fixes is_smaller is_greater :: "'a \<Rightarrow> 'k \<Rightarrow> bool"
    and before :: "'a \<Rightarrow> 'a \<Rightarrow> bool"
  assumes smaller_mono: "before a b \<Longrightarrow> is_smaller a k \<Longrightarrow> is_smaller b k"
    and greater_mono: "before a b \<Longrightarrow> is_greater b k \<Longrightarrow> is_greater a k"
begin

abbreviation holds :: "'a \<Rightarrow> 'k \<Rightarrow> bool" where
  "holds x k \<equiv> \<not> is_smaller x k \<and> \<not> is_greater x k"

abbreviation search_result :: "'a list \<Rightarrow> 'k \<Rightarrow> int option \<Rightarrow> bool" where
  "search_result xs k res \<equiv>
     (case res of None \<Rightarrow> \<forall>x\<in>set xs. \<not> holds x k
      | Some m \<Rightarrow> 0 \<le> m \<and> m < int (length xs) \<and> holds (xs ! nat m) k)"

lemma search_loop_correct:
  assumes sorted: "sorted_wrt before xs"
    and tests: "\<And>x. x \<in> set xs \<Longrightarrow> smaller_test x = Some (is_smaller x k) \<and> greater_test x = Some (is_greater x k)"
  shows "0 \<le> l \<Longrightarrow> r < int (length xs) \<Longrightarrow>
    \<forall>i<length xs. int i < l \<longrightarrow> is_greater (xs ! i) k \<Longrightarrow>
    \<forall>i<length xs. r < int i \<longrightarrow> is_smaller (xs ! i) k \<Longrightarrow>
    \<exists>res. search_loop smaller_test greater_test xs l r = Some res \<and> search_result xs k res"
proof (induction "nat (r - l + 1)" arbitrary: l r rule: less_induct)
  case less
  define m where "m = l + (r - l) div 2"
  let ?loop = "search_loop smaller_test greater_test xs"
  show ?case
  proof (cases "l \<le> r")
    case True
    then have m: "l \<le> m" "m \<le> r" by (auto simp: m_def)
    then have in_range: "nat m < length xs" using less.prems by auto
    then have test: "smaller_test (xs ! nat m) = Some (is_smaller (xs ! nat m) k)"
        "greater_test (xs ! nat m) = Some (is_greater (xs ! nat m) k)"
      using tests by auto
    have unfold: "?loop l r = (if is_smaller (xs ! nat m) k then ?loop l (m - 1)
        else if is_greater (xs ! nat m) k then ?loop (m + 1) r else Some (Some m))"
      using True test by (subst search_loop.simps) (simp add: m_def Let_def)
    have order: "before (xs ! i) (xs ! j)" if "i < j" "j < length xs" for i j
      using sorted that by (simp add: sorted_wrt_nth_less)
    consider "is_smaller (xs ! nat m) k" | "\<not> is_smaller (xs ! nat m) k" "is_greater (xs ! nat m) k"
      | "holds (xs ! nat m) k" by blast
    then show ?thesis
    proof cases
      case 1
      have "is_smaller (xs ! i) k" if "i < length xs" "m - 1 < int i" for i
      proof -
        have "i = nat m \<or> nat m < i" using that m less.prems by linarith
        then show ?thesis using 1 that smaller_mono order [of "nat m" i] by blast
      qed
      with less.hyps [of "m - 1" l] less.prems m 1 unfold show ?thesis by auto
    next
      case 2
      have "is_greater (xs ! i) k" if "i < length xs" "int i < m + 1" for i
      proof -
        have "i = nat m \<or> i < nat m" using that m less.prems by linarith
        then show ?thesis using 2 in_range greater_mono order [of i "nat m"] by blast
      qed
      with less.hyps [of r "m + 1"] less.prems m 2 unfold show ?thesis by auto
    next
      case 3
      with unfold in_range m less.prems show ?thesis by auto
    qed
  next
    case False
    then have "?loop l r = Some None" by (subst search_loop.simps) simp
    moreover have "\<forall>x\<in>set xs. \<not> holds x k"
    proof
      fix x assume "x \<in> set xs"
      then obtain i where "i < length xs" "x = xs ! i" by (auto simp: in_set_conv_nth)
      then show "\<not> holds x k" using False less.prems by (cases "int i < l") auto
    qed
    ultimately show ?thesis by simp
  qed
qed

lemma search_whole:
  assumes "sorted_wrt before xs"
    and "\<And>x. x \<in> set xs \<Longrightarrow> smaller_test x = Some (is_smaller x k) \<and> greater_test x = Some (is_greater x k)"
  shows "\<exists>res. search_loop smaller_test greater_test xs 0 (int (length xs) - 1) = Some res \<and> search_result xs k res"
  using assms by (intro search_loop_correct) auto

end

subsection \<open>Ranges and subranges are such intervals\<close>

text \<open>One range begins no later and ends no later than another.\<close>

definition Range_before :: "(bytes \<Rightarrow> bytes \<Rightarrow> int) \<Rightarrow> Range \<Rightarrow> Range \<Rightarrow> bool" where
  "Range_before cmp a b \<longleftrightarrow>
     (cmp (rg_lower a) (rg_lower b) < 0 \<or>
      cmp (rg_lower a) (rg_lower b) = 0 \<and> (rg_lower_inclusive b \<longrightarrow> rg_lower_inclusive a)) \<and>
     (cmp (rg_upper a) (rg_upper b) < 0 \<or>
      cmp (rg_upper a) (rg_upper b) = 0 \<and> (rg_upper_inclusive a \<longrightarrow> rg_upper_inclusive b))"

locale range_comparator =
  comparator cmp "\<lambda>_. True" for cmp :: "bytes \<Rightarrow> bytes \<Rightarrow> int"
begin

lemma less_or_equal_cases:
  "cmp a b < 0 \<or> cmp a b = 0 \<Longrightarrow> cmp k a < 0 \<Longrightarrow> cmp k b < 0"
  "cmp a b < 0 \<Longrightarrow> cmp k a = 0 \<Longrightarrow> cmp k b < 0"
  "cmp a b = 0 \<Longrightarrow> cmp k a = 0 \<Longrightarrow> cmp k b = 0"
  "cmp a b < 0 \<or> cmp a b = 0 \<Longrightarrow> cmp k b > 0 \<Longrightarrow> cmp k a > 0"
  "cmp a b < 0 \<Longrightarrow> cmp k b = 0 \<Longrightarrow> cmp k a > 0"
  "cmp a b = 0 \<Longrightarrow> cmp k b = 0 \<Longrightarrow> cmp k a = 0"
proof -
  note sym = cmp_sym [simplified] and eq = cmp_eq_sym [simplified]
  show "cmp a b < 0 \<or> cmp a b = 0 \<Longrightarrow> cmp k a < 0 \<Longrightarrow> cmp k b < 0"
    using cmp_less_le_trans [of k a b] by auto
  show "cmp a b < 0 \<Longrightarrow> cmp k a = 0 \<Longrightarrow> cmp k b < 0"
    using cmp_le_less_trans [of k a b] by auto
  show "cmp a b < 0 \<or> cmp a b = 0 \<Longrightarrow> cmp k b > 0 \<Longrightarrow> cmp k a > 0"
    using cmp_le_less_trans [of a b k] sym [of b k] sym [of a k] by auto
  show "cmp a b < 0 \<Longrightarrow> cmp k b = 0 \<Longrightarrow> cmp k a > 0"
    using cmp_less_le_trans [of a b k] sym [of a k] eq [of k b] by auto
  have equal: "cmp x z = 0" if "cmp x y = 0" "cmp y z = 0" for x y z
    using that cmp_le_trans [of x y z] cmp_le_trans [of z y x] eq [of x y] eq [of y z] sym [of x z] sym [of z x]
    by force
  show "cmp a b = 0 \<Longrightarrow> cmp k a = 0 \<Longrightarrow> cmp k b = 0" using equal by blast
  show "cmp a b = 0 \<Longrightarrow> cmp k b = 0 \<Longrightarrow> cmp k a = 0" using equal eq by blast
qed

end

sublocale range_comparator \<subseteq> ranges: interval_order
  "Range_IsSmallerThanLower cmp" "Range_IsGreaterThanUpper cmp" "Range_before cmp"
proof
  fix a b :: Range and k :: bytes
  assume before: "Range_before cmp a b"
  show "Range_IsSmallerThanLower cmp a k \<Longrightarrow> Range_IsSmallerThanLower cmp b k"
    using before less_or_equal_cases(1-3) [of "rg_lower a" "rg_lower b" k]
    by (auto simp: Range_IsSmallerThanLower_def Range_before_def Let_def)
  show "Range_IsGreaterThanUpper cmp b k \<Longrightarrow> Range_IsGreaterThanUpper cmp a k"
    using before less_or_equal_cases(4-6) [of "rg_upper a" "rg_upper b" k]
    by (auto simp: Range_IsGreaterThanUpper_def Range_before_def Let_def)
qed

sublocale range_comparator \<subseteq> subranges: interval_order
  "\<lambda>sr. Range_IsSmallerThanLower cmp (SubRange_hull sr)" "\<lambda>sr. Range_IsGreaterThanUpper cmp (SubRange_hull sr)"
  "\<lambda>a b. Range_before cmp (SubRange_hull a) (SubRange_hull b)"
  by unfold_locales (rule ranges.smaller_mono ranges.greater_mono; assumption)+

lemma SubRange_tests_hull:
  assumes "sr_tiny_ranges sr \<noteq> []"
  shows "SubRange_IsSmallerThanLower cmp sr key = Some (Range_IsSmallerThanLower cmp (SubRange_hull sr) key)"
    and "SubRange_IsGreaterThanUpper cmp sr key = Some (Range_IsGreaterThanUpper cmp (SubRange_hull sr) key)"
  using assms by (simp_all add: SubRange_IsSmallerThanLower_def SubRange_IsGreaterThanUpper_def
      Range_IsSmallerThanLower_def Range_IsGreaterThanUpper_def SubRange_hull_def Let_def)

context range_comparator
begin

text \<open>A key lies in a range, or in a subrange.\<close>

abbreviation in_subrange :: "SubRange \<Rightarrow> bytes \<Rightarrow> bool" where
  "in_subrange sr key \<equiv>
     \<not> Range_IsSmallerThanLower cmp (SubRange_hull sr) key \<and> \<not> Range_IsGreaterThanUpper cmp (SubRange_hull sr) key"

lemma Ranges_BinarySearch_correct:
  assumes "sorted_wrt (Range_before cmp) rs"
  shows "\<exists>found id. Ranges_BinarySearch rs key cmp = Some (found, id) \<and>
    (if found then 0 \<le> id \<and> id < int (length rs) \<and> ranges.holds (rs ! nat id) key
     else id = -1 \<and> (\<forall>r\<in>set rs. \<not> ranges.holds r key))"
proof -
  obtain res where "search_loop (\<lambda>r. Some (Range_IsSmallerThanLower cmp r key))
      (\<lambda>r. Some (Range_IsGreaterThanUpper cmp r key)) rs 0 (int (length rs) - 1) = Some res"
      "ranges.search_result rs key res"
    using ranges.search_whole [OF assms, of "\<lambda>r. Some (Range_IsSmallerThanLower cmp r key)" key
        "\<lambda>r. Some (Range_IsGreaterThanUpper cmp r key)"] by blast
  then show ?thesis by (cases res) (auto simp: Ranges_BinarySearch_def)
qed

lemma SubRanges_BinarySearch_correct:
  assumes "sorted_wrt (\<lambda>a b. Range_before cmp (SubRange_hull a) (SubRange_hull b)) srs"
    and "\<And>sr. sr \<in> set srs \<Longrightarrow> sr_tiny_ranges sr \<noteq> []"
  shows "\<exists>found id. SubRanges_BinarySearch srs key old cmp = Some (found, id) \<and>
    (if found then 0 \<le> id \<and> id < int (length srs) \<and> in_subrange (srs ! nat id) key
     else id = old \<and> (\<forall>sr\<in>set srs. \<not> in_subrange sr key))"
proof -
  obtain res where "search_loop (\<lambda>sr. SubRange_IsSmallerThanLower cmp sr key)
      (\<lambda>sr. SubRange_IsGreaterThanUpper cmp sr key) srs 0 (int (length srs) - 1) = Some res"
      "subranges.search_result srs key res"
    using subranges.search_whole [OF assms(1), of "\<lambda>sr. SubRange_IsSmallerThanLower cmp sr key" key
        "\<lambda>sr. SubRange_IsGreaterThanUpper cmp sr key"] assms(2) SubRange_tests_hull by blast
  then show ?thesis by (cases res) (auto simp: SubRanges_BinarySearch_def)
qed

text \<open>Equal subranges hold the same keys.\<close>

lemma cmp_eq_cong:
  assumes "cmp a b = 0"
  shows "cmp k a < 0 \<longleftrightarrow> cmp k b < 0" and "cmp k a = 0 \<longleftrightarrow> cmp k b = 0" and "cmp k a > 0 \<longleftrightarrow> cmp k b > 0"
proof -
  have "cmp b a = 0" using assms cmp_eq_sym [of a b] by simp
  with assms show "cmp k a < 0 \<longleftrightarrow> cmp k b < 0" "cmp k a = 0 \<longleftrightarrow> cmp k b = 0" "cmp k a > 0 \<longleftrightarrow> cmp k b > 0"
    using less_or_equal_cases(1,3,4) [of a b k] less_or_equal_cases(1,3,4) [of b a k] by blast+
qed

lemma SubRange_Equals_tests:
  assumes "SubRange_Equals cmp a b"
  shows "SubRange_IsSmallerThanLower cmp a key = SubRange_IsSmallerThanLower cmp b key"
    and "SubRange_IsGreaterThanUpper cmp a key = SubRange_IsGreaterThanUpper cmp b key"
proof -
  have all2: "list_all2 (Range_Equals cmp) (sr_tiny_ranges a) (sr_tiny_ranges b)"
    using assms by (simp add: SubRange_Equals_def)
  then have empty: "sr_tiny_ranges a = [] \<longleftrightarrow> sr_tiny_ranges b = []" by auto
  show "SubRange_IsSmallerThanLower cmp a key = SubRange_IsSmallerThanLower cmp b key"
  proof (cases "sr_tiny_ranges a = []")
    case False
    then have "Range_Equals cmp (sr_tiny_ranges a ! 0) (sr_tiny_ranges b ! 0)"
      using all2 by (auto intro: list_all2_nthD)
    with empty show ?thesis
      using cmp_eq_cong [of "rg_lower (sr_tiny_ranges a ! 0)" "rg_lower (sr_tiny_ranges b ! 0)" key]
      by (simp add: SubRange_IsSmallerThanLower_def Range_IsSmallerThanLower_def Range_Equals_def Let_def)
  qed (use empty in \<open>simp add: SubRange_IsSmallerThanLower_def\<close>)
  show "SubRange_IsGreaterThanUpper cmp a key = SubRange_IsGreaterThanUpper cmp b key"
  proof (cases "sr_tiny_ranges a = []")
    case False
    then have "Range_Equals cmp (last (sr_tiny_ranges a)) (last (sr_tiny_ranges b))"
      using all2 empty list_all2_lengthD [OF all2] by (auto simp: last_conv_nth intro: list_all2_nthD)
    with empty show ?thesis
      using cmp_eq_cong [of "rg_upper (last (sr_tiny_ranges a))" "rg_upper (last (sr_tiny_ranges b))" key]
      by (simp add: SubRange_IsGreaterThanUpper_def Range_IsGreaterThanUpper_def Range_Equals_def Let_def)
  qed (use empty in \<open>simp add: SubRange_IsGreaterThanUpper_def\<close>)
qed

end

interpretation bytewise_ranges: range_comparator Bytewise_Compare ..

interpretation ycsb_ranges: range_comparator YCSB_Compare ..

subsection \<open>What the consistency check establishes\<close>

text \<open>The bounds of a range that the 32-bit comparisons of the check handle.\<close>

abbreviation small_bounds :: "Range \<Rightarrow> bool" where
  "small_bounds r \<equiv> Range_lower_int r < Range_upper_int r \<and> Range_upper_int r < 2 ^ 31"

abbreviation range_le :: "Range \<Rightarrow> Range \<Rightarrow> bool" where
  "range_le a b \<equiv> Range_lower_int a \<le> Range_lower_int b \<and> Range_upper_int a \<le> Range_upper_int b"

lemma int_round_trip:
  assumes "v < 2 ^ 31"
  shows "(scast (ucast v :: 32 word) :: u64) = v" and "(ucast v :: 32 word) \<noteq> -1"
proof -
  have uint: "uint v < 2 ^ 31" using assms by (simp add: word_less_def)
  have low: "- (2 ^ 31) \<le> uint v" by (rule order_trans [of _ 0]) simp_all
  have sint: "sint (ucast v :: 32 word) = uint v"
    using uint low
    by (simp add: sint_uint unsigned_ucast_eq signed_take_bit_int_eq_self_iff take_bit_int_eq_self)
  then show "(scast (ucast v :: 32 word) :: u64) = v" by (simp add: scast_eq)
  show "(ucast v :: 32 word) \<noteq> -1"
  proof
    assume "(ucast v :: 32 word) = -1"
    with sint have "uint v = -1" by simp
    moreover have "0 \<le> uint v" by simp
    ultimately show False by linarith
  qed
qed

lemma assert_boundaries_after:
  assumes "assert_boundaries (ucast L) (ucast U) dup drs" and "L < U" and "U < 2 ^ 31"
    and "\<forall>(_, r)\<in>set drs. small_bounds r"
  shows "sorted_wrt range_le (map snd drs) \<and> (\<forall>(_, r)\<in>set drs. L \<le> Range_lower_int r \<and> U \<le> Range_upper_int r)"
  using assms
proof (induction drs arbitrary: L U dup)
  case (Cons dr drs)
  obtain d r where dr: "dr = (d, r)" by (cases dr)
  have casts: "(scast (ucast L :: 32 word) :: u64) = L" "(scast (ucast U :: 32 word) :: u64) = U"
      "(ucast L :: 32 word) \<noteq> -1"
    using Cons.prems int_round_trip [of L] int_round_trip [of U] by auto
  show ?case
  proof (cases "Range_lower_int r = L")
    case True
    with Cons.prems dr casts have "Range_upper_int r = U" "assert_boundaries (ucast L) (ucast U) dup drs"
      by auto
    with Cons.IH [of L U dup] Cons.prems dr True show ?thesis by auto
  next
    case False
    with Cons.prems dr casts have step: "U \<le> Range_lower_int r"
        "assert_boundaries (ucast (Range_lower_int r)) (ucast (Range_upper_int r)) (rg_num_duplicates r > 0) drs"
      by simp_all
    have "small_bounds r" using Cons.prems dr by simp
    with Cons.IH [OF step(2)] Cons.prems dr step(1) show ?thesis by fastforce
  qed
qed simp

lemma assert_boundaries_start:
  assumes "assert_boundaries (-1) (-1) False drs" and "\<forall>(_, r)\<in>set drs. small_bounds r"
  shows "sorted_wrt range_le (map snd drs)"
proof (cases drs)
  case (Cons dr drs')
  obtain d r where "dr = (d, r)" by (cases dr)
  with Cons assms assert_boundaries_after [of "Range_lower_int r" "Range_upper_int r" "rg_num_duplicates r > 0" drs']
  show ?thesis by auto
qed simp

lemma assert_boundaries_flags:
  assumes "assert_boundaries pl pu dup drs" and "(d, r) \<in> set drs"
  shows "rg_lower_inclusive r \<and> \<not> rg_upper_inclusive r"
  using assms by (induction pl pu dup drs rule: assert_boundaries.induct) (auto split: if_splits)

lemma sorted_wrt_concat_ends:
  assumes "sorted_wrt P (concat xss)" and "\<forall>xs\<in>set xss. xs \<noteq> []"
  shows "sorted_wrt (\<lambda>xs ys. P (xs ! 0) (ys ! 0) \<and> P (last xs) (last ys)) xss"
  using assms
proof (induction xss)
  case (Cons xs xss)
  have "P (xs ! 0) (ys ! 0) \<and> P (last xs) (last ys)" if "ys \<in> set xss" for ys
  proof -
    have "ys \<noteq> []" "xs \<noteq> []" using Cons.prems that by auto
    then have "ys ! 0 \<in> set (concat xss)" "last ys \<in> set (concat xss)" "xs ! 0 \<in> set xs" "last xs \<in> set xs"
      using that by (auto intro!: bexI [of _ ys])
    with Cons.prems show ?thesis by (auto simp: sorted_wrt_append)
  qed
  with Cons show ?case by (simp add: sorted_wrt_append)
qed simp

text \<open>Every subrange has tiny ranges, none of them empty, with bounds below $2^{31}$.\<close>

definition subranges_proper :: "SubRange list \<Rightarrow> bool" where
  "subranges_proper srs \<longleftrightarrow>
     list_all (\<lambda>sr. sr_tiny_ranges sr \<noteq> [] \<and> list_all small_bounds (sr_tiny_ranges sr)) srs"

lemma checked_subranges_ordered:
  assumes check: "SubRanges_AssertSubrangeBoundary srs" and proper: "subranges_proper srs"
  shows "sorted_wrt (\<lambda>a b. Range_before YCSB_Compare (SubRange_hull a) (SubRange_hull b)) srs"
proof (cases "srs = []")
  case False
  let ?drs = "concat (map (\<lambda>sr. map (Pair (sr_num_duplicates sr)) (sr_tiny_ranges sr)) srs)"
  have nonempty: "\<forall>sr\<in>set srs. sr_tiny_ranges sr \<noteq> []"
    and small: "\<forall>sr\<in>set srs. \<forall>r\<in>set (sr_tiny_ranges sr). small_bounds r"
    using proper by (auto simp: subranges_proper_def list_all_iff)
  have bounds: "assert_boundaries (-1) (-1) False ?drs"
    using check False by (simp add: SubRanges_AssertSubrangeBoundary_def)
  have flat: "map snd ?drs = concat (map sr_tiny_ranges srs)"
    by (simp add: map_concat comp_def)
  have "\<forall>(_, r)\<in>set ?drs. small_bounds r" using small by auto
  from assert_boundaries_start [OF bounds this]
  have "sorted_wrt range_le (concat (map sr_tiny_ranges srs))" by (simp only: flat)
  from sorted_wrt_concat_ends [OF this] nonempty
  have ends: "sorted_wrt (\<lambda>a b. range_le (sr_tiny_ranges a ! 0) (sr_tiny_ranges b ! 0) \<and>
      range_le (last (sr_tiny_ranges a)) (last (sr_tiny_ranges b))) srs"
    by (simp add: sorted_wrt_map)
  have flags: "rg_lower_inclusive r \<and> \<not> rg_upper_inclusive r" if "sr \<in> set srs" "r \<in> set (sr_tiny_ranges sr)" for sr r
  proof (rule assert_boundaries_flags [OF bounds])
    show "(sr_num_duplicates sr, r) \<in> set ?drs" using that by auto
  qed
  show ?thesis
    using ends
  proof (rule sorted_wrt_mono_rel [rotated])
    fix a b assume ab: "a \<in> set srs" "b \<in> set srs"
    assume "range_le (sr_tiny_ranges a ! 0) (sr_tiny_ranges b ! 0) \<and>
      range_le (last (sr_tiny_ranges a)) (last (sr_tiny_ranges b))"
    with flags [OF ab(1)] flags [OF ab(2)] nonempty ab
    show "Range_before YCSB_Compare (SubRange_hull a) (SubRange_hull b)"
      by (auto simp: Range_before_def SubRange_hull_def Let_def YCSB_Compare_simps
          Range_lower_int_def Range_upper_int_def)
  qed
qed simp

subsection \<open>Routing to a copy of a duplicated subrange\<close>

text \<open>
  Around every subrange with \<open>d\<close> duplicates there are exactly \<open>d\<close> equal ones, next to each other.
\<close>

definition copies_at :: "(bytes \<Rightarrow> bytes \<Rightarrow> int) \<Rightarrow> SubRange list \<Rightarrow> nat \<Rightarrow> nat \<Rightarrow> bool" where
  "copies_at cmp srs m s \<longleftrightarrow>
     (let d = unat (sr_num_duplicates (srs ! m)) in
      s \<le> m \<and> m < s + d \<and> s + d \<le> length srs \<and>
      list_all (\<lambda>i. SubRange_Equals cmp (srs ! i) (srs ! m)) [s..<s + d] \<and>
      (s = 0 \<or> \<not> SubRange_Equals cmp (srs ! (s - 1)) (srs ! m)))"

lemma first_copy_loop_copies:
  assumes "\<forall>i. s \<le> i \<and> i < m \<longrightarrow> SubRange_Equals cmp (srs ! i) sr" and "s \<le> m"
    and "s = 0 \<or> \<not> SubRange_Equals cmp (srs ! (s - 1)) sr"
  shows "first_copy_loop cmp srs sr m = s"
  using assms by (induction m) (auto simp: le_Suc_eq split: nat.splits)

context range_comparator
begin

lemma SubRanges_BinarySearchWithDuplicate_copies:
  assumes found: "SubRanges_BinarySearch srs key old cmp = Some (True, int m)"
    and holds: "m < length srs" "in_subrange (srs ! m) key"
    and nonempty: "sr_tiny_ranges (srs ! m) \<noteq> []"
    and dup: "sr_num_duplicates (srs ! m) \<noteq> 0" and copies: "copies_at cmp srs m s"
  shows "SubRanges_BinarySearchWithDuplicate srs key rand old cmp =
    Some (True, int (s + (case rand of None \<Rightarrow> 0 | Some v \<Rightarrow> unat (v mod sr_num_duplicates (srs ! m)))))"
proof -
  let ?d = "sr_num_duplicates (srs ! m)"
  let ?c = "s + (case rand of None \<Rightarrow> 0 | Some v \<Rightarrow> unat (v mod ?d))"
  from copies have s: "s \<le> m" "m < s + unat ?d" "s + unat ?d \<le> length srs"
      "s = 0 \<or> \<not> SubRange_Equals cmp (srs ! (s - 1)) (srs ! m)"
    and all: "\<forall>i\<in>set [s..<s + unat ?d]. SubRange_Equals cmp (srs ! i) (srs ! m)"
    by (simp_all add: copies_at_def Let_def list_all_iff)
  have eq: "\<forall>i. s \<le> i \<and> i < s + unat ?d \<longrightarrow> SubRange_Equals cmp (srs ! i) (srs ! m)"
    using all by auto
  have first: "first_copy_loop cmp srs (srs ! m) m = s"
    using eq s by (intro first_copy_loop_copies) auto
  have pos: "0 < unat ?d" using dup by (simp add: unat_gt_0)
  then have c: "s \<le> ?c" "?c < s + unat ?d"
    by (auto simp: unat_mod split: option.splits)
  then have "SubRange_Equals cmp (srs ! ?c) (srs ! m)" using eq by blast
  from SubRange_Equals_tests [OF this]
  have "SubRange_IsSmallerThanLower cmp (srs ! ?c) key = Some False"
      "SubRange_IsGreaterThanUpper cmp (srs ! ?c) key = Some False"
    using SubRange_tests_hull [OF nonempty] holds by simp_all
  moreover have "?c < length srs" using c s by linarith
  ultimately show ?thesis
    using found first dup by (simp add: SubRanges_BinarySearchWithDuplicate_def Let_def)
qed

end

subsection \<open>Encodings\<close>

abbreviation range_ok :: "Range \<Rightarrow> bool" where
  "range_ok r \<equiv> fits32 (rg_lower r) \<and> fits32 (rg_upper r)"

text \<open>What an encoded range keeps.\<close>

definition Range_wire :: "Range \<Rightarrow> Range" where
  "Range_wire r = Range_new \<lparr> rg_lower := rg_lower r, rg_upper := rg_upper r,
     rg_lower_inclusive := rg_lower_inclusive r, rg_upper_inclusive := rg_upper_inclusive r,
     rg_num_duplicates := rg_num_duplicates r \<rparr>"

lemma Range_Decode_Encode:
  "range_ok r \<Longrightarrow> Range_Decode Range_new (Range_Encode r @ rest) = Some (Range_wire r, rest)"
  by (simp add: Range_Decode_def Range_Encode_def Range_wire_def Range_new_def codec_simps)

lemma decode_n_Range:
  "list_all range_ok rs \<Longrightarrow>
   decode_n (length rs) (Range_Decode Range_new) (concat (map Range_Encode rs) @ rest) = Some (map Range_wire rs, rest)"
  by (induction rs) (simp_all add: Range_Decode_Encode)

abbreviation subrange_ok :: "SubRange \<Rightarrow> bool" where
  "subrange_ok sr \<equiv> fits32 (sr_tiny_ranges sr) \<and> list_all range_ok (sr_tiny_ranges sr)"

definition SubRange_wire :: "SubRange \<Rightarrow> u32 \<Rightarrow> SubRange" where
  "SubRange_wire sr sid = SubRange_new \<lparr> sr_tiny_ranges := map Range_wire (sr_tiny_ranges sr),
     sr_num_duplicates := sr_num_duplicates sr, sr_decoded_subrange_id := sid \<rparr>"

lemma SubRange_Decode_Encode:
  "subrange_ok sr \<Longrightarrow> SubRange_Decode SubRange_new (SubRange_Encode sr sid @ rest) = Some (SubRange_wire sr sid, rest)"
  by (simp add: SubRange_Decode_def SubRange_Encode_def SubRange_wire_def SubRange_new_def decode_n_Range codec_simps)

lemma decode_n_SubRange:
  "list_all (\<lambda>i. subrange_ok (srs ! i)) is \<Longrightarrow>
   decode_n (length is) (SubRange_Decode SubRange_new)
     (concat (map (\<lambda>i. SubRange_Encode (srs ! i) (of_nat i)) is) @ rest) =
   Some (map (\<lambda>i. SubRange_wire (srs ! i) (of_nat i)) is, rest)"
  by (induction "is") (simp_all add: SubRange_Decode_Encode)

lemma SubRanges_Decode_Encode:
  assumes "fits32 srs" and "list_all subrange_ok srs"
  shows "SubRanges_Decode [] (SubRanges_Encode srs @ rest) =
    Some (map (\<lambda>i. SubRange_wire (srs ! i) (of_nat i)) [0..<length srs], rest)"
proof -
  have "list_all (\<lambda>i. subrange_ok (srs ! i)) [0..<length srs]"
    using assms(2) by (auto simp: list_all_length)
  from decode_n_SubRange [OF this] show ?thesis
    using assms(1) by (simp add: SubRanges_Decode_def SubRanges_Encode_def codec_simps)
qed

lemma Range_wire_tests:
  "Range_IsSmallerThanLower cmp (Range_wire r) key = Range_IsSmallerThanLower cmp r key"
  "Range_IsGreaterThanUpper cmp (Range_wire r) key = Range_IsGreaterThanUpper cmp r key"
  by (simp_all add: Range_wire_def Range_IsSmallerThanLower_def Range_IsGreaterThanUpper_def)

text \<open>A partition sent to another node routes every key as the original does.\<close>

lemma search_loop_same_tests:
  assumes "\<And>i. i < length xs \<Longrightarrow> s' (ys ! i) = s (xs ! i) \<and> g' (ys ! i) = g (xs ! i)"
  shows "0 \<le> l \<Longrightarrow> r < int (length xs) \<Longrightarrow> search_loop s' g' ys l r = search_loop s g xs l r"
proof (induction "nat (r - l + 1)" arbitrary: l r rule: less_induct)
  case less
  define m where "m = l + (r - l) div 2"
  show ?case
  proof (cases "l \<le> r")
    case True
    then have m: "l \<le> m" "m \<le> r" by (auto simp: m_def)
    with less.prems assms [of "nat m"]
    have tests: "s' (ys ! nat m) = s (xs ! nat m)" "g' (ys ! nat m) = g (xs ! nat m)" by auto
    have "search_loop s' g' ys l (m - 1) = search_loop s g xs l (m - 1)"
        "search_loop s' g' ys (m + 1) r = search_loop s g xs (m + 1) r"
      using less m by auto
    with True tests show ?thesis
      by (subst (1 2) search_loop.simps) (simp add: Let_def cong: if_cong flip: m_def)
  qed (subst (1 2) search_loop.simps, simp)
qed

lemma SubRanges_BinarySearch_same_tests:
  assumes "length ys = length xs"
    and "\<And>i. i < length xs \<Longrightarrow>
      SubRange_IsSmallerThanLower cmp (ys ! i) key = SubRange_IsSmallerThanLower cmp (xs ! i) key \<and>
      SubRange_IsGreaterThanUpper cmp (ys ! i) key = SubRange_IsGreaterThanUpper cmp (xs ! i) key"
  shows "SubRanges_BinarySearch ys key old cmp = SubRanges_BinarySearch xs key old cmp"
  using search_loop_same_tests [of xs "\<lambda>sr. SubRange_IsSmallerThanLower cmp sr key" ys
      "\<lambda>sr. SubRange_IsSmallerThanLower cmp sr key" "\<lambda>sr. SubRange_IsGreaterThanUpper cmp sr key"
      "\<lambda>sr. SubRange_IsGreaterThanUpper cmp sr key" 0 "int (length xs) - 1"] assms
  by (simp add: SubRanges_BinarySearch_def)

lemma SubRange_wire_tests:
  "SubRange_IsSmallerThanLower cmp (SubRange_wire sr sid) key = SubRange_IsSmallerThanLower cmp sr key"
  "SubRange_IsGreaterThanUpper cmp (SubRange_wire sr sid) key = SubRange_IsGreaterThanUpper cmp sr key"
  by (simp_all add: SubRange_wire_def SubRange_IsSmallerThanLower_def SubRange_IsGreaterThanUpper_def
      Range_wire_tests last_map)

lemma SubRanges_copy_tests:
  assumes "i < length srs"
  shows "SubRange_IsSmallerThanLower cmp (SubRanges_copy srs ! i) key = SubRange_IsSmallerThanLower cmp (srs ! i) key"
    and "SubRange_IsGreaterThanUpper cmp (SubRanges_copy srs ! i) key = SubRange_IsGreaterThanUpper cmp (srs ! i) key"
  using assms by (simp_all add: SubRanges_copy_def SubRange_IsSmallerThanLower_def SubRange_IsGreaterThanUpper_def
      Range_IsSmallerThanLower_def Range_IsGreaterThanUpper_def Range_copy_def last_map)

subsection \<open>Round robin\<close>

lemma sint_small: "unat w < 2 ^ 63 \<Longrightarrow> sint w = int (unat w)" for w :: u64
proof -
  assume "unat w < 2 ^ 63"
  then have "w < 2 ^ 63" by (simp add: word_less_nat_alt)
  then have "uint w < 2 ^ 63" by (simp add: word_less_def)
  moreover have "- (2 ^ 63) \<le> uint w" by (rule order_trans [of _ 0]) simp_all
  ultimately have "sint w = uint w" by (simp add: sint_uint signed_take_bit_int_eq_self_iff)
  then show ?thesis by simp
qed

lemma GetCompactionThreadId_round_robin:
  assumes "sr_start_tid sr \<le> sr_end_tid sr" and "unat rr < 2 ^ 63"
  shows "SubRange_GetCompactionThreadId sr rr =
    Some (sr_start_tid sr + int (unat rr) mod (sr_end_tid sr - sr_start_tid sr + 1),
          if sr_start_tid sr = sr_end_tid sr then rr else rr + 1, sr_merge_memtables_without_flushing sr)"
proof (cases "sr_start_tid sr = sr_end_tid sr")
  case False
  define n where "n = sr_end_tid sr - sr_start_tid sr + 1"
  have n: "0 < n" "sr_start_tid sr + int (unat rr) mod n \<le> sr_end_tid sr"
    using assms(1) False pos_mod_bound [of n "int (unat rr)"] by (auto simp: n_def)
  with assms(2) False show ?thesis
    by (simp add: SubRange_GetCompactionThreadId_def Let_def sint_small smod_mod_positive flip: n_def)
qed (simp add: SubRange_GetCompactionThreadId_def)

text \<open>The threads that \<open>k\<close> calls in a row choose, each call with the counter its predecessor left.\<close>

primrec thread_choices :: "nat \<Rightarrow> SubRange \<Rightarrow> 64 word \<Rightarrow> (int list \<times> 64 word) option" where
  "thread_choices 0 sr rr = Some ([], rr)"
| "thread_choices (Suc k) sr rr = do {
     (tid, rr, _) \<leftarrow> SubRange_GetCompactionThreadId sr rr;
     (tids, rr) \<leftarrow> thread_choices k sr rr;
     Some (tid # tids, rr) }"

lemma thread_choices_round_robin:
  assumes "sr_start_tid sr \<le> sr_end_tid sr" and "unat rr + k \<le> 2 ^ 63"
  shows "thread_choices k sr rr = Some
    (map (\<lambda>i. sr_start_tid sr + int (unat rr + i) mod (sr_end_tid sr - sr_start_tid sr + 1)) [0..<k],
     if sr_start_tid sr = sr_end_tid sr then rr else rr + of_nat k)"
  using assms(2)
proof (induction k arbitrary: rr)
  case (Suc k)
  have step: "SubRange_GetCompactionThreadId sr rr =
    Some (sr_start_tid sr + int (unat rr) mod (sr_end_tid sr - sr_start_tid sr + 1),
          if sr_start_tid sr = sr_end_tid sr then rr else rr + 1, sr_merge_memtables_without_flushing sr)"
    using Suc.prems by (intro GetCompactionThreadId_round_robin assms(1)) simp
  have upt: "map f [0..<Suc k] = f 0 # map (\<lambda>i. f (Suc i)) [0..<k]" for f :: "nat \<Rightarrow> int"
    by (simp add: upt_rec [of 0] map_Suc_upt [symmetric] del: upt_Suc)
  have one: "unat (rr + 1) = unat rr + 1" using Suc.prems by (simp add: unat_word_ariths)
  show ?case
  proof (cases "sr_start_tid sr = sr_end_tid sr")
    case True
    with Suc show ?thesis unfolding upt by (simp add: step)
  next
    case False
    have "unat (rr + 1) + k \<le> 2 ^ 63" using Suc.prems one by simp
    from Suc.IH [OF this] False show ?thesis unfolding upt one by (simp add: step)
  qed
qed simp

lemma round_robin_all:
  fixes n r :: int
  assumes "0 < n"
  shows "distinct (map (\<lambda>i. s + (r + int i) mod n) [0..<nat n])" (is "distinct ?ts")
    and "set (map (\<lambda>i. s + (r + int i) mod n) [0..<nat n]) = {s..s + n - 1}"
proof -
  have "i = j" if "(r + int i) mod n = (r + int j) mod n" "i < nat n" "j < nat n" for i j
  proof -
    have "int i mod n = int j mod n" using that(1) by (metis mod_diff_left_eq add_diff_cancel_left')
    moreover have "int i mod n = int i" "int j mod n = int j" using that(2,3) by auto
    ultimately show ?thesis by simp
  qed
  then show d: "distinct ?ts" by (auto simp: distinct_map inj_on_def)
  have "card (set ?ts) = card {s..s + n - 1}" using distinct_card [OF d] assms by simp
  moreover have "set ?ts \<subseteq> {s..s + n - 1}" using assms pos_mod_sign [OF assms] pos_mod_bound [OF assms]
    by (auto simp: add_nonneg_nonneg intro: order_trans [OF _ zle_diff1_eq [THEN iffD2]])
  ultimately show "set ?ts = {s..s + n - 1}" by (intro card_subset_eq) simp_all
qed

subsection \<open>Properties\<close>

text \<open>The key's number lies between the bounds of a subrange.\<close>

definition covers :: "SubRange \<Rightarrow> bytes \<Rightarrow> bool" where
  "covers sr key \<longleftrightarrow> Range_lower_int (sr_tiny_ranges sr ! 0) \<le> key_int key \<and>
     key_int key < Range_upper_int (last (sr_tiny_ranges sr))"

lemma checked_subrange_covers:
  assumes check: "SubRanges_AssertSubrangeBoundary srs" and proper: "subranges_proper srs" and sr: "sr \<in> set srs"
  shows "ycsb_ranges.in_subrange sr key \<longleftrightarrow> covers sr key"
proof -
  let ?drs = "concat (map (\<lambda>sr. map (Pair (sr_num_duplicates sr)) (sr_tiny_ranges sr)) srs)"
  have nonempty: "sr_tiny_ranges sr \<noteq> []"
    using proper sr by (auto simp: subranges_proper_def list_all_iff)
  have bounds: "assert_boundaries (-1) (-1) False ?drs"
    using check sr by (auto simp: SubRanges_AssertSubrangeBoundary_def)
  have flags: "rg_lower_inclusive r \<and> \<not> rg_upper_inclusive r" if "r \<in> set (sr_tiny_ranges sr)" for r
  proof (rule assert_boundaries_flags [OF bounds])
    show "(sr_num_duplicates sr, r) \<in> set ?drs" using that sr by auto
  qed
  have "rg_lower_inclusive (sr_tiny_ranges sr ! 0)" "\<not> rg_upper_inclusive (last (sr_tiny_ranges sr))"
    using flags nonempty by auto
  then show ?thesis
    by (auto simp: covers_def Range_IsSmallerThanLower_def Range_IsGreaterThanUpper_def SubRange_hull_def
        Range_lower_int_def Range_upper_int_def YCSB_Compare_simps Let_def)
qed

text \<open>A small partition, [0, 5) followed by two copies of [5, 6), for the witnesses.\<close>

definition example_range :: "bytes \<Rightarrow> bytes \<Rightarrow> u32 \<Rightarrow> SubRange" where
  "example_range l u dup = SubRange_new \<lparr> sr_num_duplicates := dup, sr_tiny_ranges :=
     [Range_new \<lparr> rg_lower := l, rg_upper := u, rg_num_duplicates := dup \<rparr>] \<rparr>"

definition example_partition :: "SubRange list" where
  "example_partition = [example_range [48] [53] 0, example_range [53] [54] 2, example_range [53] [54] 2]"

lemmas example_simps = example_partition_def example_range_def SubRange_new_def Range_new_def
  Range_lower_int_def Range_upper_int_def

lemma example_key_ints [simp]: "key_int [48] = 0" "key_int [53] = 5" "key_int [54] = 6"
  by (simp_all add: key_int_def str_to_int_def)

lemma example_checked: "SubRanges_AssertSubrangeBoundary example_partition"
  by (simp add: SubRanges_AssertSubrangeBoundary_def example_simps SubRange_IsAPoint_def Range_IsAPoint_def)

lemma example_proper: "subranges_proper example_partition"
  by (simp add: subranges_proper_def example_simps)

lemma example_search: "SubRanges_BinarySearch example_partition [53] old YCSB_Compare = Some (True, int 1)"
  by (simp add: SubRanges_BinarySearch_def search_loop.simps example_simps SubRange_IsSmallerThanLower_def
      SubRange_IsGreaterThanUpper_def Range_IsSmallerThanLower_def Range_IsGreaterThanUpper_def YCSB_Compare_def)

text \<open>
  (C5) Routing: on a partition that the consistency check accepts, with non-empty subranges whose tiny
  ranges are not empty and have bounds below $2^{31}$, the binary search never aborts, returns a subrange whose bounds enclose
  the key's number when there is one, and otherwise reports that no subrange covers the key and leaves
  the caller's index unchanged.
\<close>

theorem routing_correct:
  assumes "SubRanges_AssertSubrangeBoundary srs" and "subranges_proper srs"
  shows "\<exists>found i. SubRanges_BinarySearch srs key old YCSB_Compare = Some (found, i) \<and>
    (if found then 0 \<le> i \<and> i < int (length srs) \<and> covers (srs ! nat i) key
     else i = old \<and> list_all (\<lambda>sr. \<not> covers sr key) srs)"
proof -
  have "\<And>sr. sr \<in> set srs \<Longrightarrow> sr_tiny_ranges sr \<noteq> []"
    using assms(2) by (auto simp: subranges_proper_def list_all_iff)
  from ycsb_ranges.SubRanges_BinarySearch_correct [OF checked_subranges_ordered [OF assms] this, of key old]
  obtain found i where search: "SubRanges_BinarySearch srs key old YCSB_Compare = Some (found, i)"
    and res: "if found then 0 \<le> i \<and> i < int (length srs) \<and> ycsb_ranges.in_subrange (srs ! nat i) key
       else i = old \<and> (\<forall>sr\<in>set srs. \<not> ycsb_ranges.in_subrange sr key)"
    by blast
  show ?thesis
  proof (cases found)
    case True
    with res have "0 \<le> i" "i < int (length srs)" "srs ! nat i \<in> set srs" by auto
    with True res search checked_subrange_covers [OF assms, of "srs ! nat i" key] show ?thesis by auto
  next
    case False
    with res search checked_subrange_covers [OF assms, of _ key] show ?thesis by (auto simp: list_all_iff)
  qed
qed

theorem routing_correct_witness:
  "\<exists>found i. SubRanges_BinarySearch example_partition [48] 9 YCSB_Compare = Some (found, i) \<and>
    (if found then 0 \<le> i \<and> i < int (length example_partition) \<and> covers (example_partition ! nat i) [48]
     else i = 9 \<and> list_all (\<lambda>sr. \<not> covers sr [48]) example_partition)"
  using routing_correct [OF example_checked example_proper, of "[48]" 9] .

text \<open>
  (C21) Duplicated subranges: when the search lands on one of \<open>d\<close> equal neighbouring copies, the lookup
  returns the copy the random number selects, starting from the first one, and its final assertion
  that the chosen copy holds the key does not fail. Every copy is selected by some random number.
\<close>

theorem duplicate_routing:
  assumes "SubRanges_BinarySearch srs key old YCSB_Compare = Some (True, int m)"
    and "m < length srs" and "sr_tiny_ranges (srs ! m) \<noteq> []" and "ycsb_ranges.in_subrange (srs ! m) key"
    and "sr_num_duplicates (srs ! m) \<noteq> 0" and "copies_at YCSB_Compare srs m s"
  shows "SubRanges_BinarySearchWithDuplicate srs key None old YCSB_Compare = Some (True, int s) \<and>
    (\<forall>v. SubRanges_BinarySearchWithDuplicate srs key (Some v) old YCSB_Compare =
       Some (True, int (s + unat (v mod sr_num_duplicates (srs ! m))))) \<and>
    (\<forall>k<unat (sr_num_duplicates (srs ! m)).
       SubRanges_BinarySearchWithDuplicate srs key (Some (of_nat k)) old YCSB_Compare = Some (True, int (s + k)))"
proof -
  note result = ycsb_ranges.SubRanges_BinarySearchWithDuplicate_copies [OF assms(1,2,4,3,5,6)]
  have "unat ((of_nat k :: u32) mod sr_num_duplicates (srs ! m)) = k" if "k < unat (sr_num_duplicates (srs ! m))" for k
    using that less_trans [OF that unat_u32_less] by (simp add: unat_mod)
  then show ?thesis using result [of None] result [of "Some _"] by (simp del: of_nat_unat)
qed

theorem duplicate_routing_witness:
  "SubRanges_BinarySearchWithDuplicate example_partition [53] (Some 7) 0 YCSB_Compare = Some (True, 2)"
proof -
  have "copies_at YCSB_Compare example_partition 1 1"
    by (simp add: copies_at_def upt_rec example_simps SubRange_Equals_def Range_Equals_def YCSB_Compare_def)
  moreover have "ycsb_ranges.in_subrange (example_partition ! 1) [53]"
    by (simp add: example_simps SubRange_hull_def Range_IsSmallerThanLower_def Range_IsGreaterThanUpper_def
        YCSB_Compare_def)
  ultimately show ?thesis
    using duplicate_routing [OF example_search [of 0], of 1] by (simp add: example_simps)
qed



text \<open>
  (C23) The flush threads of a subrange take turns. As long as the counter stays below $2^{63}$, \<open>k\<close>
  calls in a row never fail the assertion on the thread and choose the threads cyclically, starting
  from the one the counter selects; the counter ends \<open>k\<close> higher, or unchanged where there is only one
  thread. As many calls as there are threads choose every thread exactly once.
\<close>

theorem thread_choice_fair:
  assumes "sr_start_tid sr \<le> sr_end_tid sr" and "unat rr + k \<le> 2 ^ 63"
  shows "\<exists>tids. thread_choices k sr rr =
      Some (tids, if sr_start_tid sr = sr_end_tid sr then rr else rr + of_nat k) \<and>
    tids = map (\<lambda>i. sr_start_tid sr + int (unat rr + i) mod (sr_end_tid sr - sr_start_tid sr + 1)) [0..<k] \<and>
    (int k = sr_end_tid sr - sr_start_tid sr + 1 \<longrightarrow>
       distinct tids \<and> set tids = {sr_start_tid sr..sr_end_tid sr})"
proof -
  let ?n = "sr_end_tid sr - sr_start_tid sr + 1"
  let ?ts = "map (\<lambda>i. sr_start_tid sr + int (unat rr + i) mod ?n) [0..<k]"
  have "distinct ?ts \<and> set ?ts = {sr_start_tid sr..sr_end_tid sr}" if "int k = ?n"
  proof -
    have "0 < ?n" "k = nat ?n" using assms(1) that by auto
    then show ?thesis
      using round_robin_all [of ?n "sr_start_tid sr" "int (unat rr)"] by simp
  qed
  with thread_choices_round_robin [OF assms] show ?thesis by blast
qed

theorem thread_choice_fair_witness:
  "thread_choices 4 (SubRange_new \<lparr> sr_start_tid := 2, sr_end_tid := 5 \<rparr>) 10 = Some ([4, 5, 2, 3], 14)"
  using thread_choice_fair [of "SubRange_new \<lparr> sr_start_tid := 2, sr_end_tid := 5 \<rparr>" 10 4]
  by (simp add: upt_rec)

subsection \<open>A limit of the consistency check\<close>

text \<open>
  The prior bounds are kept in 32-bit signed variables, so two adjacent, well-formed subranges with
  bounds above $2^{31}$ fail the check.
\<close>

lemma large_bounds_rejected:
  "\<not> SubRanges_AssertSubrangeBoundary
     [example_range (to_string 3000000000) (to_string 3000000005) 0,
      example_range (to_string 3000000005) (to_string 3000000009) 0]"
  by (simp add: SubRanges_AssertSubrangeBoundary_def example_range_def SubRange_new_def Range_new_def
      Range_lower_int_def Range_upper_int_def key_int_to_string)

end
