(* ===== verification/Status.thy ===== *)
theory Status
  imports Coding
begin

text \<open>
  The status values of \<^verbatim>\<open>include/leveldb/status.h\<close> and \<^verbatim>\<open>util/status.cc\<close>. A status is success (a null
  state) or an array that holds the length of a message, a code and the message; the definitions
  build and read that array byte by byte. The length is copied with \<^verbatim>\<open>memcpy\<close>, which on the
  little-endian machines the system runs on is the fixed 32-bit encoding.
\<close>

subsection \<open>Definitions\<close>

datatype Code = kOk | kNotFound | kCorruption | kNotSupported | kInvalidArgument | kIOError

fun Code_code :: "Code \<Rightarrow> byte" where
  "Code_code kOk = 0"
| "Code_code kNotFound = 1"
| "Code_code kCorruption = 2"
| "Code_code kNotSupported = 3"
| "Code_code kInvalidArgument = 4"
| "Code_code kIOError = 5"

type_synonym status = "bytes option"

definition Status_OK :: status where
  "Status_OK = None"

text \<open>The two lengths are truncated to 32 bits.\<close>

definition Status_new :: "Code \<Rightarrow> bytes \<Rightarrow> bytes \<Rightarrow> status" where
  "Status_new code msg msg2 =
     (let len1 = (of_nat (length msg) :: u32); len2 = (of_nat (length msg2) :: u32);
          size = len1 + (if len2 \<noteq> 0 then 2 + len2 else 0)
      in Some (EncodeFixed32 size @ [Code_code code] @ take (unat len1) msg @
           (if len2 \<noteq> 0 then [char_byte (CHR '':''), char_byte (CHR '' '')] @ take (unat len2) msg2 else [])))"

definition Status_NotFound :: "bytes \<Rightarrow> bytes \<Rightarrow> status" where
  "Status_NotFound msg msg2 = Status_new kNotFound msg msg2"

definition Status_Corruption :: "bytes \<Rightarrow> bytes \<Rightarrow> status" where
  "Status_Corruption msg msg2 = Status_new kCorruption msg msg2"

definition Status_NotSupported :: "bytes \<Rightarrow> bytes \<Rightarrow> status" where
  "Status_NotSupported msg msg2 = Status_new kNotSupported msg msg2"

definition Status_InvalidArgument :: "bytes \<Rightarrow> bytes \<Rightarrow> status" where
  "Status_InvalidArgument msg msg2 = Status_new kInvalidArgument msg msg2"

definition Status_IOError :: "bytes \<Rightarrow> bytes \<Rightarrow> status" where
  "Status_IOError msg msg2 = Status_new kIOError msg msg2"

definition Status_ok :: "status \<Rightarrow> bool" where
  "Status_ok s \<longleftrightarrow> s = None"

text \<open>The code is the byte at position 4, as the enumeration's number.\<close>

definition Status_code :: "status \<Rightarrow> byte" where
  "Status_code s = (case s of None \<Rightarrow> Code_code kOk | Some state \<Rightarrow> state ! 4)"

definition Status_IsNotFound :: "status \<Rightarrow> bool" where
  "Status_IsNotFound s \<longleftrightarrow> Status_code s = Code_code kNotFound"

definition Status_IsCorruption :: "status \<Rightarrow> bool" where
  "Status_IsCorruption s \<longleftrightarrow> Status_code s = Code_code kCorruption"

definition Status_IsIOError :: "status \<Rightarrow> bool" where
  "Status_IsIOError s \<longleftrightarrow> Status_code s = Code_code kIOError"

definition Status_IsNotSupportedError :: "status \<Rightarrow> bool" where
  "Status_IsNotSupportedError s \<longleftrightarrow> Status_code s = Code_code kNotSupported"

definition Status_IsInvalidArgument :: "status \<Rightarrow> bool" where
  "Status_IsInvalidArgument s \<longleftrightarrow> Status_code s = Code_code kInvalidArgument"

text \<open>A copy reads the size from the array and copies that many bytes and five more.\<close>

definition Status_CopyState :: "bytes \<Rightarrow> bytes option" where
  "Status_CopyState state = do { size \<leftarrow> DecodeFixed32_ptr state; Some (take (unat (size + 5)) state) }"

definition cstr :: "string \<Rightarrow> bytes" where
  "cstr s = map char_byte s"

text \<open>\<open>unknown\<close> is what \<^verbatim>\<open>snprintf\<close> prints for a code that is none of the enumeration.\<close>

definition Status_ToString :: "(byte \<Rightarrow> bytes) \<Rightarrow> status \<Rightarrow> bytes option" where
  "Status_ToString unknown s =
     (case s of
        None \<Rightarrow> Some (cstr ''OK'')
      | Some state \<Rightarrow>
          let c = Status_code s;
            type = if c = Code_code kOk then cstr ''OK''
              else if c = Code_code kNotFound then cstr ''NotFound: ''
              else if c = Code_code kCorruption then cstr ''Corruption: ''
              else if c = Code_code kNotSupported then cstr ''Not implemented: ''
              else if c = Code_code kInvalidArgument then cstr ''Invalid argument: ''
              else if c = Code_code kIOError then cstr ''IO error: ''
              else unknown c
          in do { length \<leftarrow> DecodeFixed32_ptr state; Some (type @ take (unat length) (drop 5 state)) })"

subsection \<open>What a status reports\<close>

lemma Code_code_inject [simp]: "Code_code a = Code_code b \<longleftrightarrow> a = b"
  by (cases a; cases b) simp_all

lemma Status_code_new [simp]: "Status_code (Status_new c msg msg2) = Code_code c"
  by (simp add: Status_code_def Status_new_def Let_def nth_append)

lemma Status_code_OK [simp]: "Status_code Status_OK = Code_code kOk"
  by (simp add: Status_code_def Status_OK_def)

lemma Status_ok_new [simp]: "\<not> Status_ok (Status_new c msg msg2)" "Status_ok Status_OK"
  by (simp_all add: Status_ok_def Status_new_def Status_OK_def Let_def)

text \<open>Success and the five errors are told apart by the predicates the callers use.\<close>

lemmas status_simps = Status_NotFound_def Status_Corruption_def Status_NotSupported_def
  Status_InvalidArgument_def Status_IOError_def Status_IsNotFound_def Status_IsCorruption_def
  Status_IsIOError_def Status_IsNotSupportedError_def Status_IsInvalidArgument_def

definition Status_message :: "bytes \<Rightarrow> bytes \<Rightarrow> bytes" where
  "Status_message msg msg2 = msg @ (if msg2 = [] then [] else cstr '': '' @ msg2)"

lemma length_Status_message: "length (Status_message msg msg2) = length msg + (if msg2 = [] then 0 else 2 + length msg2)"
  by (simp add: Status_message_def cstr_def)

lemma Status_new_alt:
  assumes "length (Status_message msg msg2) < 2 ^ 32"
  shows "Status_new c msg msg2 =
    Some (EncodeFixed32 (of_nat (length (Status_message msg msg2))) @ [Code_code c] @ Status_message msg msg2)"
proof (cases "msg2 = []")
  case True
  with assms show ?thesis by (simp add: Status_new_def Status_message_def)
next
  case False
  with assms have len: "length msg < 2 ^ 32" "length msg2 < 2 ^ 32" "length msg2 \<noteq> 0"
    by (auto simp: length_Status_message)
  then have "unat (of_nat (length msg2) :: u32) = length msg2" by (simp del: length_0_conv)
  with len(3) have "(of_nat (length msg2) :: u32) \<noteq> 0" by (metis unat_0)
  with len False show ?thesis
    by (simp add: Status_new_def Status_message_def cstr_def Let_def ac_simps)
qed

lemma Status_copy_and_print:
  assumes "length (Status_message msg msg2) + 5 < 2 ^ 32"
  shows "Status_new c msg msg2 = Some state \<Longrightarrow> Status_CopyState state = Some state"
    and "Status_ToString unknown (Status_Corruption msg msg2) = Some (cstr ''Corruption: '' @ Status_message msg msg2)"
    and "Status_ToString unknown (Status_NotFound msg msg2) = Some (cstr ''NotFound: '' @ Status_message msg msg2)"
    and "Status_ToString unknown (Status_IOError msg msg2) = Some (cstr ''IO error: '' @ Status_message msg msg2)"
proof -
  let ?m = "Status_message msg msg2"
  have "unat (of_nat (length ?m) + 5 :: u32) = unat (of_nat (length ?m + 5) :: u32)" by simp
  also have "\<dots> = length ?m + 5" using assms by (intro unat_of_nat_u32) simp
  finally have size: "unat (of_nat (length ?m) + 5 :: u32) = length ?m + 5" .
  have ok: "length ?m < 2 ^ 32" using assms by simp
  note new = Status_new_alt [OF ok]
  show "Status_new c msg msg2 = Some state \<Longrightarrow> Status_CopyState state = Some state"
    using size by (auto simp: new Status_CopyState_def DecodeFixed32_ptr_Encode)
  show "Status_ToString unknown (Status_Corruption msg msg2) = Some (cstr ''Corruption: '' @ ?m)"
    "Status_ToString unknown (Status_NotFound msg msg2) = Some (cstr ''NotFound: '' @ ?m)"
    "Status_ToString unknown (Status_IOError msg msg2) = Some (cstr ''IO error: '' @ ?m)"
    using ok by (simp_all add: Status_ToString_def status_simps new DecodeFixed32_ptr_Encode Status_code_def nth_append)
qed

end
