(* ===== verification/VersionEdits.thy ===== *)
theory VersionEdits
  imports FileMeta Subranges Status
begin

text \<open>
  The edits of a database's table metadata (\<^verbatim>\<open>db/version_edit.h\<close>, \<^verbatim>\<open>db/version_edit.cc\<close>), which are
  appended to the manifest and applied again at recovery, and the compaction requests one node sends
  to another (\<^verbatim>\<open>CompactionRequest\<close>, \<^verbatim>\<open>db/dbformat.cc\<close>). Both are sequences of the encodings of the
  theories \<open>FileMeta\<close> and \<open>Subranges\<close>. Levels are the 32-bit pattern of an \<^verbatim>\<open>int\<close>.
\<close>

subsection \<open>Version edits\<close>

record VersionEdit =
  ve_comparator :: bytes
  ve_next_file_number :: u64
  ve_last_sequence :: u64
  ve_has_comparator :: bool
  ve_has_prev_log_number :: bool
  ve_has_next_file_number :: bool
  ve_has_last_sequence :: bool
  ve_update_replica_locations :: bool
  ve_compact_pointers :: "(u32 \<times> bytes) list"
  ve_deleted_files :: "(u32 \<times> u64) list"
  ve_new_files :: "(u32 \<times> FileMetaData) list"
  ve_new_subranges :: "SubRange list"

text \<open>\<open>Clear\<close> leaves the replica-location flag alone.\<close>

definition VersionEdit_Clear :: "VersionEdit \<Rightarrow> VersionEdit" where
  "VersionEdit_Clear e = e \<lparr> ve_comparator := [], ve_last_sequence := 0, ve_next_file_number := 0,
     ve_has_comparator := False, ve_has_prev_log_number := False, ve_has_next_file_number := False,
     ve_has_last_sequence := False, ve_compact_pointers := [], ve_deleted_files := [],
     ve_new_files := [], ve_new_subranges := [] \<rparr>"

definition VersionEdit_new :: VersionEdit where
  "VersionEdit_new = \<lparr> ve_comparator = [], ve_next_file_number = 0, ve_last_sequence = 0,
     ve_has_comparator = False, ve_has_prev_log_number = False, ve_has_next_file_number = False,
     ve_has_last_sequence = False, ve_update_replica_locations = False, ve_compact_pointers = [],
     ve_deleted_files = [], ve_new_files = [], ve_new_subranges = [] \<rparr>"

definition VersionEdit_SetComparatorName :: "bytes \<Rightarrow> VersionEdit \<Rightarrow> VersionEdit" where
  "VersionEdit_SetComparatorName name e = e \<lparr> ve_has_comparator := True, ve_comparator := name \<rparr>"

definition VersionEdit_SetNextFile :: "u64 \<Rightarrow> VersionEdit \<Rightarrow> VersionEdit" where
  "VersionEdit_SetNextFile num e = e \<lparr> ve_has_next_file_number := True, ve_next_file_number := num \<rparr>"

definition VersionEdit_SetLastSequence :: "u64 \<Rightarrow> VersionEdit \<Rightarrow> VersionEdit" where
  "VersionEdit_SetLastSequence seq e = e \<lparr> ve_has_last_sequence := True, ve_last_sequence := seq \<rparr>"

definition VersionEdit_SetCompactPointer :: "u32 \<Rightarrow> bytes \<Rightarrow> VersionEdit \<Rightarrow> VersionEdit" where
  "VersionEdit_SetCompactPointer level key e = e \<lparr> ve_compact_pointers := ve_compact_pointers e @ [(level, key)] \<rparr>"

definition VersionEdit_SetUpdateReplicaLocations :: "bool \<Rightarrow> VersionEdit \<Rightarrow> VersionEdit" where
  "VersionEdit_SetUpdateReplicaLocations flag e = e \<lparr> ve_update_replica_locations := flag \<rparr>"

definition VersionEdit_UpdateSubRange :: "u32 \<Rightarrow> Range list \<Rightarrow> u32 \<Rightarrow> VersionEdit \<Rightarrow> VersionEdit" where
  "VersionEdit_UpdateSubRange subrange_id tiny_ranges num_duplicates e =
     e \<lparr> ve_new_subranges := ve_new_subranges e @
          [SubRange_new \<lparr> sr_decoded_subrange_id := subrange_id, sr_tiny_ranges := tiny_ranges,
             sr_num_duplicates := num_duplicates \<rparr>] \<rparr>"

definition VersionEdit_AddFile ::
    "u32 \<Rightarrow> u32 list \<Rightarrow> u64 \<Rightarrow> u64 \<Rightarrow> u64 \<Rightarrow> u64 \<Rightarrow> bytes \<Rightarrow> bytes \<Rightarrow> FileReplicaMetaData list \<Rightarrow>
     StoCBlockHandle \<Rightarrow> VersionEdit \<Rightarrow> VersionEdit" where
  "VersionEdit_AddFile level memtable_ids file file_size converted_file_size flush_timestamp
     smallest largest replicas parity_block_handle e =
     (let f = FileMetaData_new \<lparr> fmd_level := level, fmd_memtable_ids := memtable_ids, fmd_number := file,
            fmd_file_size := file_size, fmd_converted_file_size := converted_file_size,
            fmd_flush_timestamp := flush_timestamp, fmd_smallest := smallest, fmd_largest := largest,
            fmd_block_replica_handles := replicas, fmd_parity_block_handle := parity_block_handle \<rparr>
      in e \<lparr> ve_new_files := ve_new_files e @ [(level, f)] \<rparr>)"

definition VersionEdit_DeleteFile :: "u32 \<Rightarrow> u64 \<Rightarrow> VersionEdit \<Rightarrow> VersionEdit" where
  "VersionEdit_DeleteFile level file e = e \<lparr> ve_deleted_files := ve_deleted_files e @ [(level, file)] \<rparr>"

subsection \<open>Encoding\<close>

datatype Tag = kComparator | kLogNumber | kNextFileNumber | kLastSequence | kCompactPointer | kDeletedFile
  | kNewFile | kUpdateSubRange | kEndEdit | kPrevLogNumber

fun Tag_code :: "Tag \<Rightarrow> byte" where
  "Tag_code kComparator = 1"
| "Tag_code kLogNumber = 2"
| "Tag_code kNextFileNumber = 3"
| "Tag_code kLastSequence = 4"
| "Tag_code kCompactPointer = 5"
| "Tag_code kDeletedFile = 6"
| "Tag_code kNewFile = 7"
| "Tag_code kUpdateSubRange = 8"
| "Tag_code kEndEdit = 10"
| "Tag_code kPrevLogNumber = 9"

definition VersionEdit_EncodeTo :: "VersionEdit \<Rightarrow> bytes" where
  "VersionEdit_EncodeTo e =
     (if ve_has_comparator e then Tag_code kComparator # EncodeStr (ve_comparator e) else []) @
     (if ve_has_next_file_number e then Tag_code kNextFileNumber # EncodeFixed64 (ve_next_file_number e) else []) @
     (if ve_has_last_sequence e then Tag_code kLastSequence # EncodeFixed64 (ve_last_sequence e) else []) @
     concat (map (\<lambda>(level, fnumber). Tag_code kDeletedFile # EncodeFixed32 level @ EncodeFixed64 fnumber)
       (ve_deleted_files e)) @
     concat (map (\<lambda>(level, f). Tag_code kNewFile # EncodeFixed32 level @ FileMetaData_Encode f) (ve_new_files e)) @
     concat (map (\<lambda>i. Tag_code kUpdateSubRange # SubRange_Encode (ve_new_subranges e ! i) (of_nat i))
       [0..<length (ve_new_subranges e)]) @
     [Tag_code kEndEdit]"

subsection \<open>Decoding\<close>

definition GetLevel :: "u32 \<Rightarrow> u32 decoder" where
  "GetLevel config_level input =
     do { (v, input) \<leftarrow> DecodeFixed32 input; if v < config_level then Some (v, input) else None }"

text \<open>
  What one iteration of the loop does with the tag it read: it goes on with the edit, the reused file
  object and the rest of the input, or it sets the error message, or the process aborts inside
  \<open>SubRange::Decode\<close>. How much of the input a failed entry consumed is not part of the result.
\<close>

datatype step_result = Step VersionEdit FileMetaData bytes | Error bytes VersionEdit | Abort

definition VersionEdit_DecodeTag ::
    "u32 \<Rightarrow> byte \<Rightarrow> VersionEdit \<Rightarrow> FileMetaData \<Rightarrow> bytes \<Rightarrow> step_result" where
  "VersionEdit_DecodeTag config_level tag e f input =
     (if tag = Tag_code kComparator then Step e f input
      else if tag = Tag_code kNextFileNumber then
        (case DecodeFixed64 input of
           Some (n, input) \<Rightarrow> Step (e \<lparr> ve_next_file_number := n, ve_has_next_file_number := True \<rparr>) f input
         | None \<Rightarrow> Error (cstr ''next file number'') e)
      else if tag = Tag_code kLastSequence then
        (case DecodeFixed64 input of
           Some (n, input) \<Rightarrow> Step (e \<lparr> ve_last_sequence := n, ve_has_last_sequence := True \<rparr>) f input
         | None \<Rightarrow> Error (cstr ''last sequence number'') e)
      else if tag = Tag_code kDeletedFile then
        (case do { (level, input) \<leftarrow> GetLevel config_level input; (number, input) \<leftarrow> DecodeFixed64 input;
                   Some (level, number, input) } of
           Some (level, number, input) \<Rightarrow>
             Step (e \<lparr> ve_deleted_files := ve_deleted_files e @ [(level, number)] \<rparr>) f input
         | None \<Rightarrow> Error (cstr ''deleted file'') e)
      else if tag = Tag_code kNewFile then
        (case do { (level, input) \<leftarrow> GetLevel config_level input; (f, input) \<leftarrow> FileMetaData_Decode f input;
                   Some (level, f, input) } of
           Some (level, f, input) \<Rightarrow>
             Step (e \<lparr> ve_new_files := ve_new_files e @ [(level, f)] \<rparr>) (f \<lparr> fmd_block_replica_handles := [] \<rparr>) input
         | None \<Rightarrow> Error (cstr ''new-file entry'') e)
      else if tag = Tag_code kUpdateSubRange then
        (case SubRange_Decode SubRange_new input of
           Some (sr, input) \<Rightarrow> Step (e \<lparr> ve_new_subranges := ve_new_subranges e @ [sr] \<rparr>) f input
         | None \<Rightarrow> Abort)
      else Error (cstr ''unknown tag '' @ to_string (ucast (scast tag :: u32))) e)"

text \<open>A decoder leaves no more input than it was given; composed decoders inherit it.\<close>

definition shortens :: "'a decoder \<Rightarrow> bool" where
  "shortens dec \<longleftrightarrow> (\<forall>input x rest. dec input = Some (x, rest) \<longrightarrow> length rest \<le> length input)"

named_theorems shortens_intros \<open>decoders that do not grow their input\<close>

lemma shortens_Some [shortens_intros]: "shortens (\<lambda>input. Some (v, input))"
  by (simp add: shortens_def)

lemma shortens_None [shortens_intros]: "shortens (\<lambda>input. None)"
  by (simp add: shortens_def)

lemma shortens_bind [shortens_intros]:
  assumes "shortens dec" and "\<And>x. shortens (k x)"
  shows "shortens (\<lambda>input. do { (x, input) \<leftarrow> dec input; k x input })"
  using assms unfolding shortens_def by (fastforce split: Option.bind_splits)

lemma shortens_if [shortens_intros]:
  "shortens d1 \<Longrightarrow> shortens d2 \<Longrightarrow> shortens (\<lambda>input. if b then d1 input else d2 input)"
  by (simp add: shortens_def)

lemma shortens_decode_n [shortens_intros]:
  assumes "shortens dec"
  shows "shortens (decode_n n dec)"
proof -
  have "decode_n n dec input = Some (xs, rest) \<Longrightarrow> length rest \<le> length input" for input xs rest
    using assms unfolding shortens_def
    by (induction n arbitrary: input xs) (fastforce split: Option.bind_splits)+
  then show ?thesis by (simp add: shortens_def)
qed

lemma shortens_primitives [shortens_intros]:
  "shortens DecodeFixed32" "shortens DecodeFixed64" "shortens (DecodeStr s)" "shortens DecodeStr_slice"
  "shortens DecodeBool" "shortens StoCBlockHandle_DecodeHandle"
  by (auto simp: shortens_def DecodeFixed32_iff DecodeFixed64_iff DecodeStr_slice_iff DecodeStr_def DecodeBool_def
      StoCBlockHandle_DecodeHandle_def split: Option.bind_splits if_splits list.splits)

lemma shortens_GetInternalKey [shortens_intros]: "shortens (GetInternalKey k)"
  unfolding GetInternalKey_def InternalKey_DecodeFrom_def Let_def prod.case
  by (intro shortens_intros)

lemma shortens_file_parts [shortens_intros]:
  "shortens (FileMetaData_DecodeMemTableIds ids)" "shortens (FileMetaData_DecodeReplicas rs)"
  unfolding FileMetaData_DecodeMemTableIds_def FileMetaData_DecodeReplicas_def FileReplicaMetaData_Decode_def
    StoCBlockHandle_DecodeHandles_def
  by (intro shortens_intros)+

lemma shortens_FileMetaData_Decode [shortens_intros]: "shortens (FileMetaData_Decode f)"
  unfolding FileMetaData_Decode_def by (intro shortens_intros)

lemma shortens_SubRange_Decode [shortens_intros]: "shortens (SubRange_Decode sr)"
  unfolding SubRange_Decode_def Range_Decode_def by (intro shortens_intros)

lemma shortens_GetLevel [shortens_intros]: "shortens (GetLevel n)"
  unfolding GetLevel_def by (intro shortens_intros)

text \<open>A decoder that succeeds does not look behind what it consumed; composed decoders inherit it.\<close>

definition stable :: "'a decoder \<Rightarrow> bool" where
  "stable dec \<longleftrightarrow> (\<forall>input x rest behind. dec input = Some (x, rest) \<longrightarrow> dec (input @ behind) = Some (x, rest @ behind))"

named_theorems stable_intros \<open>decoders that do not look behind what they consume\<close>

lemma stable_Some [stable_intros]: "stable (\<lambda>input. Some (v, input))"
  by (simp add: stable_def)

lemma stable_None [stable_intros]: "stable (\<lambda>input. None)"
  by (simp add: stable_def)

lemma stable_bind [stable_intros]:
  assumes "stable dec" and "\<And>x. stable (k x)"
  shows "stable (\<lambda>input. do { (x, input) \<leftarrow> dec input; k x input })"
  using assms unfolding stable_def by (fastforce split: Option.bind_splits)

lemma stable_if [stable_intros]:
  "stable d1 \<Longrightarrow> stable d2 \<Longrightarrow> stable (\<lambda>input. if b then d1 input else d2 input)"
  by (simp add: stable_def)

lemma stable_decode_n [stable_intros]:
  assumes "stable dec"
  shows "stable (decode_n n dec)"
proof -
  have "decode_n n dec input = Some (xs, rest) \<Longrightarrow> decode_n n dec (input @ behind) = Some (xs, rest @ behind)"
    for input xs rest behind
    using assms unfolding stable_def
    by (induction n arbitrary: input xs) (fastforce split: Option.bind_splits)+
  then show ?thesis by (simp add: stable_def)
qed

lemma stable_primitives [stable_intros]:
  "stable DecodeFixed32" "stable DecodeFixed64" "stable DecodeStr_slice" "stable DecodeBool"
  by (auto simp: stable_def DecodeFixed32_iff DecodeFixed64_iff DecodeStr_slice_iff DecodeBool_def
      split: if_splits list.splits)

lemma stable_DecodeStr [stable_intros]: "stable (DecodeStr s)"
proof -
  have "stable (\<lambda>src. if length src < unat (n :: u32) then None else Some (s @ take (unat n) src, drop (unat n) src))" for n
    by (auto simp: stable_def)
  then show ?thesis unfolding DecodeStr_def by (intro stable_intros)
qed

lemma DecodeFixed_ptr_append:
  "DecodeFixed32_ptr src = Some v \<Longrightarrow> DecodeFixed32_ptr (src @ behind) = Some v"
  "DecodeFixed64_ptr src = Some w \<Longrightarrow> DecodeFixed64_ptr (src @ behind) = Some w"
  by (cases src rule: DecodeFixed32_ptr.cases; simp) (cases src rule: DecodeFixed64_ptr.cases; simp)

lemma stable_DecodeHandle [stable_intros]: "stable StoCBlockHandle_DecodeHandle"
  by (auto simp: stable_def StoCBlockHandle_DecodeHandle_def StoCBlockHandle_DecodeHandle_ptr_def
      StoCBlockHandle_HandleSize_def DecodeFixed_ptr_append split: if_splits Option.bind_splits)

lemma stable_GetInternalKey [stable_intros]: "stable (GetInternalKey k)"
  unfolding GetInternalKey_def InternalKey_DecodeFrom_def Let_def prod.case
  by (intro stable_intros)

lemma stable_file_parts [stable_intros]:
  "stable (FileMetaData_DecodeMemTableIds ids)" "stable (FileMetaData_DecodeReplicas rs)"
  unfolding FileMetaData_DecodeMemTableIds_def FileMetaData_DecodeReplicas_def FileReplicaMetaData_Decode_def
    StoCBlockHandle_DecodeHandles_def
  by (intro stable_intros)+

lemma stable_FileMetaData_Decode [stable_intros]: "stable (FileMetaData_Decode f)"
  unfolding FileMetaData_Decode_def by (intro stable_intros)

lemma stable_SubRange_Decode [stable_intros]: "stable (SubRange_Decode sr)"
  unfolding SubRange_Decode_def Range_Decode_def by (intro stable_intros)

lemma stable_truncated:
  assumes "stable dec" and "dec enc = Some (x, [])" and "k < length enc"
  shows "dec (take k enc) = None"
proof (rule ccontr)
  assume "dec (take k enc) \<noteq> None"
  then obtain y rest where "dec (take k enc) = Some (y, rest)" by auto
  then have "dec (take k enc @ drop k enc) = Some (y, rest @ drop k enc)"
    using assms(1) unfolding stable_def by blast
  with assms(2,3) show False by simp
qed

lemma DecodeTag_shortens:
  assumes "VersionEdit_DecodeTag n tag e f input = Step e' f' rest"
  shows "length rest \<le> length input"
proof -
  have dels: "shortens (\<lambda>input. do { (level, input) \<leftarrow> GetLevel n input; (number, input) \<leftarrow> DecodeFixed64 input;
      Some ((level, number), input) })"
    and files: "shortens (\<lambda>input. do { (level, input) \<leftarrow> GetLevel n input; (f, input) \<leftarrow> FileMetaData_Decode f input;
      Some ((level, f), input) })"
    by (intro shortens_intros)+
  show ?thesis
    using assms dels files shortens_primitives(2) shortens_SubRange_Decode [of SubRange_new]
    unfolding VersionEdit_DecodeTag_def shortens_def
    by (auto split: if_splits option.splits prod.splits Option.bind_splits)
qed

text \<open>
  The loop of \<open>DecodeFrom\<close>: success with the edit and the rest of the input, a corruption status with
  the edit as far as it was filled, or an abort. Running out of input without an end tag is success.
\<close>

datatype decode_result = Decoded VersionEdit bytes | Corrupted status VersionEdit | Aborted

function VersionEdit_DecodeFrom_loop :: "u32 \<Rightarrow> VersionEdit \<Rightarrow> FileMetaData \<Rightarrow> bytes \<Rightarrow> decode_result" where
  "VersionEdit_DecodeFrom_loop config_level e f [] = Decoded e []"
| "VersionEdit_DecodeFrom_loop config_level e f (tag # input) =
     (if tag = Tag_code kEndEdit then Decoded e input
      else case VersionEdit_DecodeTag config_level tag e f input of
             Step e f input \<Rightarrow> VersionEdit_DecodeFrom_loop config_level e f input
           | Error msg e \<Rightarrow> Corrupted (Status_Corruption (cstr ''VersionEdit'') msg) e
           | Abort \<Rightarrow> Aborted)"
  by pat_completeness auto
termination
  by (relation "measure (\<lambda>(n, e, f, input). length input)") (auto dest!: DecodeTag_shortens)

definition VersionEdit_DecodeFrom :: "u32 \<Rightarrow> VersionEdit \<Rightarrow> bytes \<Rightarrow> decode_result" where
  "VersionEdit_DecodeFrom config_level e src =
     VersionEdit_DecodeFrom_loop config_level (VersionEdit_Clear e) FileMetaData_new src"

subsection \<open>Compaction requests\<close>

record CompactionRequest =
  cr_dbname :: bytes
  cr_smallest_snapshot :: u64
  cr_inputs0 :: "FileMetaData list"
  cr_inputs1 :: "FileMetaData list"
  cr_guides :: "FileMetaData list"
  cr_subranges :: "SubRange list"
  cr_source_level :: u32
  cr_target_level :: u32
  cr_outputs :: "FileMetaData list"

definition encode_files :: "FileMetaData list \<Rightarrow> bytes" where
  "encode_files fs = EncodeFixed32 (of_nat (length fs)) @ concat (map FileMetaData_Encode fs)"

fun encode_subranges :: "nat \<Rightarrow> SubRange list \<Rightarrow> bytes option" where
  "encode_subranges i [] = Some []"
| "encode_subranges i (sr # srs) =
     do { b \<leftarrow> SubRange_EncodeForCompaction sr (of_nat i); bs \<leftarrow> encode_subranges (Suc i) srs; Some (b @ bs) }"

text \<open>
  \<open>None\<close>: a subrange without tiny ranges is indexed. The position in the buffer is a \<^verbatim>\<open>uint32_t\<close> in the
  source: the model describes requests shorter than $2^{32}$ bytes.
\<close>

definition CompactionRequest_EncodeRequest :: "CompactionRequest \<Rightarrow> bytes option" where
  "CompactionRequest_EncodeRequest r = do {
     srs \<leftarrow> encode_subranges 0 (cr_subranges r);
     Some (EncodeStr (cr_dbname r) @ EncodeFixed64 (cr_smallest_snapshot r) @
       EncodeFixed32 (cr_source_level r) @ EncodeFixed32 (cr_target_level r) @
       encode_files (cr_inputs0 r) @ encode_files (cr_inputs1 r) @ encode_files (cr_guides r) @
       EncodeFixed32 (of_nat (length (cr_subranges r))) @ srs) }"

definition decode_files :: "FileMetaData list decoder" where
  "decode_files input = do { (n, input) \<leftarrow> DecodeFixed32 input;
     decode_n (unat n) (FileMetaData_Decode FileMetaData_new) input }"

text \<open>
  The request fills an existing object. The slice is built behind the name with the size of the whole
  buffer, so its last bytes lie behind the buffer; \<open>memory\<close> is the memory from the buffer on.
\<close>

definition CompactionRequest_DecodeRequest :: "CompactionRequest \<Rightarrow> bytes \<Rightarrow> nat \<Rightarrow> CompactionRequest option" where
  "CompactionRequest_DecodeRequest r memory buf_size = do {
     (dbname, memory) \<leftarrow> DecodeStr_ptr (cr_dbname r) memory;
     let input = take buf_size memory in do {
     (smallest_snapshot, input) \<leftarrow> DecodeFixed64 input;
     (source_level, input) \<leftarrow> DecodeFixed32 input;
     (target_level, input) \<leftarrow> DecodeFixed32 input;
     (inputs0, input) \<leftarrow> decode_files input;
     (inputs1, input) \<leftarrow> decode_files input;
     (guides, input) \<leftarrow> decode_files input;
     (num_subranges, input) \<leftarrow> DecodeFixed32 input;
     (subranges, input) \<leftarrow> decode_n (unat num_subranges) (SubRange_DecodeForCompaction SubRange_new) input;
     Some (r \<lparr> cr_dbname := dbname, cr_smallest_snapshot := smallest_snapshot, cr_source_level := source_level,
       cr_target_level := target_level, cr_inputs0 := cr_inputs0 r @ inputs0, cr_inputs1 := cr_inputs1 r @ inputs1,
       cr_guides := cr_guides r @ guides, cr_subranges := cr_subranges r @ subranges \<rparr>) } }"

subsection \<open>Edits round trip\<close>

text \<open>What decoding makes of the new files: the identifiers of earlier files stay in the reused object.\<close>

fun files_wire :: "u32 list \<Rightarrow> (u32 \<times> FileMetaData) list \<Rightarrow> (u32 \<times> FileMetaData) list" where
  "files_wire ids [] = []"
| "files_wire ids ((level, f) # fs) =
     (let ids' = fold set_insert (fmd_memtable_ids f) ids in
      (level, f \<lparr> fmd_refs := 0, fmd_allowed_seeks := 2 ^ 30, fmd_compaction_status := FCS_NONE,
                 fmd_memtable_ids := ids' \<rparr>) # files_wire ids' fs)"

lemma tag_simps [simp]:
  "VersionEdit_DecodeFrom_loop n e f (10 # input) = Decoded e input" by simp

lemma loop_next_file:
  "VersionEdit_DecodeFrom_loop n e f (Tag_code kNextFileNumber # EncodeFixed64 v @ rest) =
   VersionEdit_DecodeFrom_loop n (e \<lparr> ve_next_file_number := v, ve_has_next_file_number := True \<rparr>) f rest"
  by (simp add: VersionEdit_DecodeTag_def codec_simps)

lemma loop_last_sequence:
  "VersionEdit_DecodeFrom_loop n e f (Tag_code kLastSequence # EncodeFixed64 v @ rest) =
   VersionEdit_DecodeFrom_loop n (e \<lparr> ve_last_sequence := v, ve_has_last_sequence := True \<rparr>) f rest"
  by (simp add: VersionEdit_DecodeTag_def codec_simps)

lemma loop_deleted_files:
  "list_all (\<lambda>(level, _). level < n) ds \<Longrightarrow>
   VersionEdit_DecodeFrom_loop n e f
     (concat (map (\<lambda>(level, fnumber). Tag_code kDeletedFile # EncodeFixed32 level @ EncodeFixed64 fnumber) ds) @ rest) =
   VersionEdit_DecodeFrom_loop n (e \<lparr> ve_deleted_files := ve_deleted_files e @ ds \<rparr>) f rest"
  by (induction ds arbitrary: e) (auto simp: VersionEdit_DecodeTag_def GetLevel_def codec_simps)

text \<open>The reused object between two entries: only its identifiers matter to the next one.\<close>

abbreviation fresh_but_ids :: "FileMetaData \<Rightarrow> u32 list \<Rightarrow> bool" where
  "fresh_but_ids f ids \<equiv> fmd_refs f = 0 \<and> fmd_allowed_seeks f = 2 ^ 30 \<and> fmd_compaction_status f = FCS_NONE \<and>
     fmd_block_replica_handles f = [] \<and> fmd_memtable_ids f = ids"

lemma loop_new_files:
  "list_all (\<lambda>(level, g). level < n \<and> FileMetaData_ok g) fs \<Longrightarrow> fresh_but_ids f ids \<Longrightarrow>
   \<exists>f'. VersionEdit_DecodeFrom_loop n e f
     (concat (map (\<lambda>(level, g). Tag_code kNewFile # EncodeFixed32 level @ FileMetaData_Encode g) fs) @ rest) =
   VersionEdit_DecodeFrom_loop n (e \<lparr> ve_new_files := ve_new_files e @ files_wire ids fs \<rparr>) f' rest"
proof (induction fs arbitrary: e f ids)
  case (Cons lf fs)
  obtain level g where lf: "lf = (level, g)" by (cases lf)
  define ids' where "ids' = fold set_insert (fmd_memtable_ids g) ids"
  define g' where "g' = g \<lparr> fmd_refs := 0, fmd_allowed_seeks := 2 ^ 30, fmd_compaction_status := FCS_NONE,
    fmd_memtable_ids := ids' \<rparr>"
  have ok: "level < n" "FileMetaData_ok g" using Cons.prems lf by auto
  have step: "VersionEdit_DecodeFrom_loop n e f (Tag_code kNewFile # EncodeFixed32 level @ FileMetaData_Encode g @ tail) =
      VersionEdit_DecodeFrom_loop n (e \<lparr> ve_new_files := ve_new_files e @ [(level, g')] \<rparr>)
        (g' \<lparr> fmd_block_replica_handles := [] \<rparr>) tail" for tail
    using ok Cons.prems(2)
    by (simp add: VersionEdit_DecodeTag_def GetLevel_def codec_simps FileMetaData_Decode_Encode g'_def ids'_def)
  have fresh: "fresh_but_ids (g' \<lparr> fmd_block_replica_handles := [] \<rparr>) ids'" by (simp add: g'_def)
  obtain f' where "VersionEdit_DecodeFrom_loop n (e \<lparr> ve_new_files := ve_new_files e @ [(level, g')] \<rparr>)
      (g' \<lparr> fmd_block_replica_handles := [] \<rparr>)
      (concat (map (\<lambda>(level, g). Tag_code kNewFile # EncodeFixed32 level @ FileMetaData_Encode g) fs) @ rest) =
    VersionEdit_DecodeFrom_loop n (e \<lparr> ve_new_files := ve_new_files e @ (level, g') # files_wire ids' fs \<rparr>) f' rest"
    using Cons.IH [OF _ fresh, of "e \<lparr> ve_new_files := ve_new_files e @ [(level, g')] \<rparr>"] Cons.prems by auto
  moreover have "files_wire ids (lf # fs) = (level, g') # files_wire ids' fs"
    by (simp add: lf Let_def g'_def ids'_def)
  ultimately show ?case
    by (simp add: lf step del: VersionEdit_DecodeFrom_loop.simps Tag_code.simps files_wire.simps) blast
qed auto

lemma loop_new_subranges:
  "list_all (\<lambda>i. subrange_ok (srs ! i)) is \<Longrightarrow>
   VersionEdit_DecodeFrom_loop n e f
     (concat (map (\<lambda>i. Tag_code kUpdateSubRange # SubRange_Encode (srs ! i) (of_nat i)) is) @ rest) =
   VersionEdit_DecodeFrom_loop n
     (e \<lparr> ve_new_subranges := ve_new_subranges e @ map (\<lambda>i. SubRange_wire (srs ! i) (of_nat i)) is \<rparr>) f rest"
  by (induction "is" arbitrary: e) (auto simp: VersionEdit_DecodeTag_def SubRange_Decode_Encode)

text \<open>The edit \<open>e0\<close> after decoding the entries of \<open>e\<close> into it.\<close>

definition VersionEdit_wire :: "VersionEdit \<Rightarrow> VersionEdit \<Rightarrow> VersionEdit" where
  "VersionEdit_wire e0 e = VersionEdit_Clear e0 \<lparr>
      ve_next_file_number := (if ve_has_next_file_number e then ve_next_file_number e else 0),
      ve_has_next_file_number := ve_has_next_file_number e,
      ve_last_sequence := (if ve_has_last_sequence e then ve_last_sequence e else 0),
      ve_has_last_sequence := ve_has_last_sequence e,
      ve_deleted_files := ve_deleted_files e, ve_new_files := files_wire [] (ve_new_files e),
      ve_new_subranges := map (\<lambda>i. SubRange_wire (ve_new_subranges e ! i) (of_nat i)) [0..<length (ve_new_subranges e)] \<rparr>"

text \<open>The entries of an edit are its encoding without the end tag.\<close>

abbreviation VersionEdit_entries :: "VersionEdit \<Rightarrow> bytes" where
  "VersionEdit_entries e \<equiv> butlast (VersionEdit_EncodeTo e)"

lemma EncodeTo_entries: "VersionEdit_EncodeTo e = VersionEdit_entries e @ [Tag_code kEndEdit]"
  by (simp add: VersionEdit_EncodeTo_def butlast_append)

lemma VersionEdit_DecodeFrom_entries:
  assumes "\<not> ve_has_comparator e" and "list_all (\<lambda>(level, _). level < n) (ve_deleted_files e)"
    and "list_all (\<lambda>(level, f). level < n \<and> FileMetaData_ok f) (ve_new_files e)"
    and "list_all subrange_ok (ve_new_subranges e)"
  shows "\<exists>f. VersionEdit_DecodeFrom n e0 (VersionEdit_entries e @ rest) =
    VersionEdit_DecodeFrom_loop n (VersionEdit_wire e0 e) f rest"
proof -
  have srs: "list_all (\<lambda>i. subrange_ok (ve_new_subranges e ! i)) [0..<length (ve_new_subranges e)]"
    using assms(4) by (auto simp: list_all_length)
  have fresh: "fresh_but_ids FileMetaData_new []" by (simp add: FileMetaData_new_def)
  let ?loop = "VersionEdit_DecodeFrom_loop n"
  let ?news = "concat (map (\<lambda>(level, f). Tag_code kNewFile # EncodeFixed32 level @ FileMetaData_Encode f) (ve_new_files e))"
  let ?subs = "concat (map (\<lambda>i. Tag_code kUpdateSubRange # SubRange_Encode (ve_new_subranges e ! i) (of_nat i))
    [0..<length (ve_new_subranges e)])"
  define e1 where "e1 = VersionEdit_Clear e0 \<lparr>
      ve_next_file_number := (if ve_has_next_file_number e then ve_next_file_number e else 0),
      ve_has_next_file_number := ve_has_next_file_number e,
      ve_last_sequence := (if ve_has_last_sequence e then ve_last_sequence e else 0),
      ve_has_last_sequence := ve_has_last_sequence e \<rparr>"
  have entries: "VersionEdit_entries e =
     (if ve_has_next_file_number e then Tag_code kNextFileNumber # EncodeFixed64 (ve_next_file_number e) else []) @
     (if ve_has_last_sequence e then Tag_code kLastSequence # EncodeFixed64 (ve_last_sequence e) else []) @
     concat (map (\<lambda>(level, fnumber). Tag_code kDeletedFile # EncodeFixed32 level @ EncodeFixed64 fnumber)
       (ve_deleted_files e)) @ ?news @ ?subs"
    using assms(1) by (simp add: VersionEdit_EncodeTo_def butlast_append)
  have "VersionEdit_DecodeFrom n e0 (VersionEdit_entries e @ rest) =
      ?loop (e1 \<lparr> ve_deleted_files := ve_deleted_files e \<rparr>) FileMetaData_new (?news @ ?subs @ rest)"
    unfolding entries
    by (cases e0; cases "ve_has_next_file_number e"; cases "ve_has_last_sequence e")
      (simp_all add: VersionEdit_DecodeFrom_def e1_def VersionEdit_Clear_def
        loop_next_file loop_last_sequence loop_deleted_files [OF assms(2)]
        del: VersionEdit_DecodeFrom_loop.simps Tag_code.simps)
  also obtain f' where "\<dots> = ?loop (e1 \<lparr> ve_deleted_files := ve_deleted_files e, ve_new_files := files_wire [] (ve_new_files e) \<rparr>) f'
      (?subs @ rest)"
    using loop_new_files [OF assms(3) fresh, of "e1 \<lparr> ve_deleted_files := ve_deleted_files e \<rparr>" "?subs @ rest"]
    by (auto simp: e1_def VersionEdit_Clear_def simp del: VersionEdit_DecodeFrom_loop.simps Tag_code.simps)
  also note loop_new_subranges [OF srs]
  finally show ?thesis by (auto simp: e1_def VersionEdit_wire_def VersionEdit_Clear_def)
qed

lemma VersionEdit_DecodeFrom_EncodeTo:
  assumes "\<not> ve_has_comparator e" and "list_all (\<lambda>(level, _). level < n) (ve_deleted_files e)"
    and "list_all (\<lambda>(level, f). level < n \<and> FileMetaData_ok f) (ve_new_files e)"
    and "list_all subrange_ok (ve_new_subranges e)"
  shows "VersionEdit_DecodeFrom n e0 (VersionEdit_EncodeTo e @ rest) = Decoded (VersionEdit_wire e0 e) rest"
proof -
  obtain f where "VersionEdit_DecodeFrom n e0 (VersionEdit_entries e @ Tag_code kEndEdit # rest) =
      VersionEdit_DecodeFrom_loop n (VersionEdit_wire e0 e) f (Tag_code kEndEdit # rest)"
    using VersionEdit_DecodeFrom_entries [OF assms] by blast
  then show ?thesis by (subst EncodeTo_entries) simp
qed

text \<open>
  An entry at which decoding stops, with the message: a tag that is unknown or not decoded any more, a
  number that is cut off, a level that is cut off or not below the configured number of levels, or
  file metadata cut off anywhere.
\<close>

inductive bad_entry :: "u32 \<Rightarrow> bytes \<Rightarrow> bytes \<Rightarrow> bool" for n :: u32 where
  unknown_tag: "tag \<notin> Tag_code ` {kComparator, kNextFileNumber, kLastSequence, kDeletedFile, kNewFile, kUpdateSubRange, kEndEdit} \<Longrightarrow>
    bad_entry n (tag # input) (cstr ''unknown tag '' @ to_string (ucast (scast tag :: u32)))"
| next_file: "length input < 8 \<Longrightarrow> bad_entry n (Tag_code kNextFileNumber # input) (cstr ''next file number'')"
| last_sequence: "length input < 8 \<Longrightarrow> bad_entry n (Tag_code kLastSequence # input) (cstr ''last sequence number'')"
| deleted_cut: "length input < 12 \<Longrightarrow> bad_entry n (Tag_code kDeletedFile # input) (cstr ''deleted file'')"
| deleted_level: "n \<le> level \<Longrightarrow>
    bad_entry n (Tag_code kDeletedFile # EncodeFixed32 level @ input) (cstr ''deleted file'')"
| new_file_level_cut: "length input < 4 \<Longrightarrow> bad_entry n (Tag_code kNewFile # input) (cstr ''new-file entry'')"
| new_file_level: "n \<le> level \<Longrightarrow>
    bad_entry n (Tag_code kNewFile # EncodeFixed32 level @ input) (cstr ''new-file entry'')"
| new_file_cut: "FileMetaData_ok f \<Longrightarrow> k < length (FileMetaData_Encode f) \<Longrightarrow>
    bad_entry n (Tag_code kNewFile # EncodeFixed32 level @ take k (FileMetaData_Encode f)) (cstr ''new-file entry'')"

lemma bad_entry_reported:
  assumes "bad_entry n entry msg"
  shows "VersionEdit_DecodeFrom_loop n e f entry = Corrupted (Status_Corruption (cstr ''VersionEdit'') msg) e"
  using assms
proof cases
  case (deleted_cut input)
  have "do { (level, input) \<leftarrow> GetLevel n input; (number, input) \<leftarrow> DecodeFixed64 input; Some (level, number, input) } = None"
    using deleted_cut(3) by (auto simp: GetLevel_def DecodeFixed32_iff DecodeFixed64_def split: Option.bind_splits)
  with deleted_cut show ?thesis by (simp add: VersionEdit_DecodeTag_def)
next
  case (new_file_cut g k level)
  have "FileMetaData_Decode f (take k (FileMetaData_Encode g)) = None"
    using stable_truncated [OF stable_FileMetaData_Decode _ new_file_cut(4)]
      FileMetaData_Decode_Encode [OF new_file_cut(3), of f "[]"] by simp
  with new_file_cut show ?thesis by (simp add: VersionEdit_DecodeTag_def GetLevel_def codec_simps)
qed (simp_all add: VersionEdit_DecodeTag_def GetLevel_def DecodeFixed32_def DecodeFixed64_def DecodeFixed32_ptr_Encode
    flip: not_le)

subsection \<open>Compaction requests round trip\<close>

abbreviation file_wire :: "FileMetaData \<Rightarrow> FileMetaData" where
  "file_wire f \<equiv> f \<lparr> fmd_refs := 0, fmd_allowed_seeks := 2 ^ 30, fmd_compaction_status := FCS_NONE \<rparr>"

lemma decode_n_files:
  "list_all FileMetaData_ok fs \<Longrightarrow>
   decode_n (length fs) (FileMetaData_Decode FileMetaData_new) (concat (map FileMetaData_Encode fs) @ rest) =
   Some (map file_wire fs, rest)"
  by (induction fs) (auto simp: FileMetaData_Decode_new)

lemma decode_files_encode [codec_simps]:
  "fits32 fs \<Longrightarrow> list_all FileMetaData_ok fs \<Longrightarrow>
   decode_files (encode_files fs @ rest) = Some (map file_wire fs, rest)"
  by (simp add: decode_files_def encode_files_def codec_simps decode_n_files)

text \<open>A subrange sent for compaction arrives as the one range that spans it.\<close>

definition subrange_sent :: "nat \<Rightarrow> SubRange \<Rightarrow> SubRange" where
  "subrange_sent i sr = SubRange_new \<lparr> sr_decoded_subrange_id := of_nat i, sr_num_duplicates := sr_num_duplicates sr,
     sr_tiny_ranges := [SubRange_hull sr] \<rparr>"

abbreviation sendable :: "SubRange \<Rightarrow> bool" where
  "sendable sr \<equiv> sr_tiny_ranges sr \<noteq> [] \<and> list_all range_ok (sr_tiny_ranges sr)"

lemma SubRange_hull_wire: "Range_wire (SubRange_hull sr) = SubRange_hull sr"
  by (simp add: Range_wire_def SubRange_hull_def Range_new_def Let_def)

lemma sendable_hull: "sendable sr \<Longrightarrow> range_ok (SubRange_hull sr)"
  by (cases "sr_tiny_ranges sr") (auto simp: SubRange_hull_def Let_def list_all_iff split: if_splits)

lemma encode_subranges_Some:
  "list_all sendable srs \<Longrightarrow> \<exists>bs. encode_subranges i srs = Some bs \<and>
   (\<forall>rest. decode_n (length srs) (SubRange_DecodeForCompaction SubRange_new) (bs @ rest) =
      Some (map (\<lambda>(j, sr). subrange_sent j sr) (enumerate i srs), rest))"
proof (induction srs arbitrary: i)
  case (Cons sr srs)
  then obtain bs where bs: "encode_subranges (Suc i) srs = Some bs"
      "\<And>rest. decode_n (length srs) (SubRange_DecodeForCompaction SubRange_new) (bs @ rest) =
        Some (map (\<lambda>(j, sr). subrange_sent j sr) (enumerate (Suc i) srs), rest)"
    by fastforce
  have sr: "sendable sr" using Cons.prems by simp
  let ?b = "EncodeFixed32 (of_nat i) @ EncodeFixed32 (sr_num_duplicates sr) @ Range_Encode (SubRange_hull sr)"
  have "SubRange_EncodeForCompaction sr (of_nat i) = Some ?b"
    using sr by (simp add: SubRange_EncodeForCompaction_def)
  moreover have "SubRange_DecodeForCompaction SubRange_new (?b @ rest) = Some (subrange_sent i sr, rest)" for rest
    using Range_Decode_Encode [OF sendable_hull [OF sr]]
    by (simp add: SubRange_DecodeForCompaction_def subrange_sent_def SubRange_hull_wire SubRange_new_def codec_simps)
  ultimately show ?case using bs by simp
qed simp

abbreviation request_ok :: "CompactionRequest \<Rightarrow> bool" where
  "request_ok r \<equiv> fits32 (cr_dbname r) \<and>
     list_all (\<lambda>fs. fits32 fs \<and> list_all FileMetaData_ok fs) [cr_inputs0 r, cr_inputs1 r, cr_guides r] \<and>
     fits32 (cr_subranges r) \<and> list_all sendable (cr_subranges r)"

definition CompactionRequest_new :: CompactionRequest where
  "CompactionRequest_new = \<lparr> cr_dbname = [], cr_smallest_snapshot = 0, cr_inputs0 = [], cr_inputs1 = [],
     cr_guides = [], cr_subranges = [], cr_source_level = 0, cr_target_level = 0, cr_outputs = [] \<rparr>"

lemma CompactionRequest_Decode_Encode:
  assumes "request_ok r"
  shows "\<exists>msg. CompactionRequest_EncodeRequest r = Some msg \<and>
    (\<forall>behind. CompactionRequest_DecodeRequest CompactionRequest_new (msg @ behind) (length msg) =
      Some (r \<lparr> cr_inputs0 := map file_wire (cr_inputs0 r), cr_inputs1 := map file_wire (cr_inputs1 r),
               cr_guides := map file_wire (cr_guides r), cr_outputs := [],
               cr_subranges := map (\<lambda>(j, sr). subrange_sent j sr) (enumerate 0 (cr_subranges r)) \<rparr>))"
proof -
  obtain bs where bs: "encode_subranges 0 (cr_subranges r) = Some bs"
      "\<And>rest. decode_n (length (cr_subranges r)) (SubRange_DecodeForCompaction SubRange_new) (bs @ rest) =
        Some (map (\<lambda>(j, sr). subrange_sent j sr) (enumerate 0 (cr_subranges r)), rest)"
    using encode_subranges_Some [of "cr_subranges r" 0] assms by auto
  define body where "body = EncodeFixed64 (cr_smallest_snapshot r) @ EncodeFixed32 (cr_source_level r) @
    EncodeFixed32 (cr_target_level r) @ encode_files (cr_inputs0 r) @ encode_files (cr_inputs1 r) @
    encode_files (cr_guides r) @ EncodeFixed32 (of_nat (length (cr_subranges r))) @ bs"
  let ?msg = "EncodeStr (cr_dbname r) @ body"
  show ?thesis
  proof (intro exI conjI allI)
    show "CompactionRequest_EncodeRequest r = Some ?msg"
      by (simp add: CompactionRequest_EncodeRequest_def bs(1) body_def)
    fix behind
    have cut: "take (length ?msg) (body @ behind) = body @ take (4 + length (cr_dbname r)) behind" by simp
    show "CompactionRequest_DecodeRequest CompactionRequest_new (?msg @ behind) (length ?msg) =
      Some (r \<lparr> cr_inputs0 := map file_wire (cr_inputs0 r), cr_inputs1 := map file_wire (cr_inputs1 r),
               cr_guides := map file_wire (cr_guides r), cr_outputs := [],
               cr_subranges := map (\<lambda>(j, sr). subrange_sent j sr) (enumerate 0 (cr_subranges r)) \<rparr>)"
      unfolding CompactionRequest_DecodeRequest_def append_assoc DecodeStr_ptr_Encode [OF conjunct1 [OF assms]]
        Option.bind.bind_lunit prod.case Let_def cut
      using assms bs(2) by (simp add: body_def CompactionRequest_new_def codec_simps)
  qed
qed

subsection \<open>Properties\<close>

text \<open>
  (C6) What an encoded edit becomes when it is decoded, into any edit object, for an edit without a
  comparator name whose levels exist. The deleted files are the same, the file number and the
  sequence are the same when they were set and otherwise zero, and the bytes behind the edit are left.
  Compact pointers and the flag for replica locations are not carried: there are no pointers
  afterwards, and the flag is that of the object. A new file has its level and metadata with the
  counters and the compaction status of a new object, and, besides its own memtable identifiers, those
  of the files before it in the same edit. A subrange has its tiny ranges and duplicates, and its
  position in the edit as its identifier (\<open>SubRange_wire\<close>).
\<close>

theorem version_edit_round_trip:
  assumes "\<not> ve_has_comparator e" and "list_all (\<lambda>(level, _). level < n) (ve_deleted_files e)"
    and "list_all (\<lambda>(level, f). level < n \<and> FileMetaData_ok f) (ve_new_files e)"
    and "list_all subrange_ok (ve_new_subranges e)"
  shows "VersionEdit_DecodeFrom n e0 (VersionEdit_EncodeTo e @ rest) =
    Decoded (VersionEdit_Clear e0 \<lparr>
      ve_next_file_number := (if ve_has_next_file_number e then ve_next_file_number e else 0),
      ve_has_next_file_number := ve_has_next_file_number e,
      ve_last_sequence := (if ve_has_last_sequence e then ve_last_sequence e else 0),
      ve_has_last_sequence := ve_has_last_sequence e,
      ve_deleted_files := ve_deleted_files e, ve_new_files := files_wire [] (ve_new_files e),
      ve_new_subranges := map (\<lambda>i. SubRange_wire (ve_new_subranges e ! i) (of_nat i)) [0..<length (ve_new_subranges e)] \<rparr>) rest"
  using VersionEdit_DecodeFrom_EncodeTo [OF assms] unfolding VersionEdit_wire_def .

theorem version_edit_round_trip_witness:
  "let f = FileMetaData_new \<lparr> fmd_memtable_ids := [3], fmd_number := 42, fmd_smallest := [1], fmd_largest := [9] \<rparr>;
       e = VersionEdit_DeleteFile 1 7 (VersionEdit_SetNextFile 5 (VersionEdit_new \<lparr> ve_new_files := [(2, f)] \<rparr>))
   in VersionEdit_DecodeFrom 6 VersionEdit_new (VersionEdit_EncodeTo e @ [8]) = Decoded e [8]"
  unfolding Let_def
  by (subst version_edit_round_trip)
    (simp_all add: VersionEdit_DeleteFile_def VersionEdit_SetNextFile_def VersionEdit_new_def VersionEdit_Clear_def
      FileMetaData_ok_def FileMetaData_new_def)

text \<open>
  (C25) Damaged edits are reported, not followed. Wherever it stands behind the entries of an edit, an entry
  that is damaged (\<open>bad_entry\<close>: an unknown tag; a file number, sequence number, level or metadata of a
  file cut off anywhere; a level the configuration does not have) ends decoding with a corruption
  status that names the entry, and the edit holds exactly what the entries before it say. A subrange
  cut off anywhere aborts the process.
\<close>

theorem version_edit_errors:
  assumes "\<not> ve_has_comparator e" and "list_all (\<lambda>(level, _). level < n) (ve_deleted_files e)"
    and "list_all (\<lambda>(level, f). level < n \<and> FileMetaData_ok f) (ve_new_files e)"
    and "list_all subrange_ok (ve_new_subranges e)"
  shows "(bad_entry n entry msg \<longrightarrow> VersionEdit_DecodeFrom n e0 (VersionEdit_entries e @ entry) =
      Corrupted (Status_Corruption (cstr ''VersionEdit'') msg) (VersionEdit_wire e0 e)) \<and>
    (subrange_ok sr \<and> k < length (SubRange_Encode sr i) \<longrightarrow>
      VersionEdit_DecodeFrom n e0 (VersionEdit_entries e @ Tag_code kUpdateSubRange # take k (SubRange_Encode sr i)) = Aborted)"
proof (intro conjI impI)
  assume "bad_entry n entry msg"
  then show "VersionEdit_DecodeFrom n e0 (VersionEdit_entries e @ entry) =
      Corrupted (Status_Corruption (cstr ''VersionEdit'') msg) (VersionEdit_wire e0 e)"
    using VersionEdit_DecodeFrom_entries [OF assms] bad_entry_reported by metis
next
  assume sr: "subrange_ok sr \<and> k < length (SubRange_Encode sr i)"
  have "SubRange_Decode SubRange_new (take k (SubRange_Encode sr i)) = None"
    using stable_truncated [OF stable_SubRange_Decode] SubRange_Decode_Encode [of sr i "[]"] sr by (metis append_Nil2)
  then have "VersionEdit_DecodeFrom_loop n e' f (Tag_code kUpdateSubRange # take k (SubRange_Encode sr i)) = Aborted" for e' f
    by (simp add: VersionEdit_DecodeTag_def)
  then show "VersionEdit_DecodeFrom n e0 (VersionEdit_entries e @ Tag_code kUpdateSubRange # take k (SubRange_Encode sr i)) = Aborted"
    using VersionEdit_DecodeFrom_entries [OF assms] by metis
qed

theorem version_edit_errors_witness:
  "VersionEdit_DecodeFrom 6 VersionEdit_new (3 # EncodeFixed64 5 @ [4, 1, 2]) =
     Corrupted (Status_Corruption (cstr ''VersionEdit'') (cstr ''last sequence number'')) (VersionEdit_SetNextFile 5 VersionEdit_new) \<and>
   VersionEdit_DecodeFrom 6 VersionEdit_new (3 # EncodeFixed64 5 @ [8, 0]) = Aborted"
proof -
  let ?e = "VersionEdit_SetNextFile 5 VersionEdit_new"
  have entries: "VersionEdit_entries ?e = 3 # EncodeFixed64 5" and wire: "VersionEdit_wire VersionEdit_new ?e = ?e"
    by (simp_all add: VersionEdit_EncodeTo_def VersionEdit_SetNextFile_def VersionEdit_new_def VersionEdit_wire_def
        VersionEdit_Clear_def)
  have bad: "bad_entry 6 [4, 1, 2] (cstr ''last sequence number'')"
    using bad_entry.last_sequence [of "[1, 2]" 6] by simp
  have sr: "subrange_ok SubRange_new" "1 < length (SubRange_Encode SubRange_new 0)"
      "take 1 (SubRange_Encode SubRange_new 0) = [0]"
    by (simp_all add: SubRange_new_def SubRange_Encode_def EncodeFixed32_def)
  have "\<not> ve_has_comparator ?e" "list_all (\<lambda>(level, _). level < 6) (ve_deleted_files ?e)"
      "list_all (\<lambda>(level, f). level < 6 \<and> FileMetaData_ok f) (ve_new_files ?e)"
      "list_all subrange_ok (ve_new_subranges ?e)"
    by (simp_all add: VersionEdit_SetNextFile_def VersionEdit_new_def)
  from version_edit_errors [OF this, of "[4, 1, 2]" "cstr ''last sequence number''" VersionEdit_new SubRange_new 1 0] bad sr
  show ?thesis by (simp add: entries wire)
qed

text \<open>
  (C26) A compaction request read from the buffer it was written to gives the receiving node the same
  database, snapshot, levels and input files, and every subrange as one range with the bounds of the
  original, so that a key falls below or above it exactly as it does for the sender.
\<close>

theorem compaction_request_round_trip:
  assumes "request_ok r"
  shows "\<exists>msg r'. CompactionRequest_EncodeRequest r = Some msg \<and>
    CompactionRequest_DecodeRequest CompactionRequest_new (msg @ behind) (length msg) = Some r' \<and>
    cr_dbname r' = cr_dbname r \<and> cr_smallest_snapshot r' = cr_smallest_snapshot r \<and>
    cr_source_level r' = cr_source_level r \<and> cr_target_level r' = cr_target_level r \<and>
    cr_inputs0 r' = map file_wire (cr_inputs0 r) \<and> cr_inputs1 r' = map file_wire (cr_inputs1 r) \<and>
    cr_guides r' = map file_wire (cr_guides r) \<and>
    list_all2 (\<lambda>sr' sr.
      SubRange_IsSmallerThanLower cmp sr' key = SubRange_IsSmallerThanLower cmp sr key \<and>
      SubRange_IsGreaterThanUpper cmp sr' key = SubRange_IsGreaterThanUpper cmp sr key) (cr_subranges r') (cr_subranges r)"
proof -
  have "list_all2 (\<lambda>sr' sr.
      SubRange_IsSmallerThanLower cmp sr' key = SubRange_IsSmallerThanLower cmp sr key \<and>
      SubRange_IsGreaterThanUpper cmp sr' key = SubRange_IsGreaterThanUpper cmp sr key)
      (map (\<lambda>(j, sr). subrange_sent j sr) (enumerate 0 (cr_subranges r))) (cr_subranges r)"
    using assms SubRange_tests_hull [of _ cmp key]
    by (auto simp: list_all2_conv_all_nth nth_enumerate_eq list_all_length subrange_sent_def
        SubRange_IsSmallerThanLower_def SubRange_IsGreaterThanUpper_def)
  with CompactionRequest_Decode_Encode [OF assms] show ?thesis by fastforce
qed

theorem compaction_request_round_trip_witness:
  "\<exists>msg r'. CompactionRequest_EncodeRequest (CompactionRequest_new \<lparr> cr_dbname := [100], cr_subranges := example_partition \<rparr>) = Some msg \<and>
    CompactionRequest_DecodeRequest CompactionRequest_new (msg @ [1, 2, 3]) (length msg) = Some r' \<and> cr_dbname r' = [100] \<and>
    length (cr_subranges r') = 3"
proof -
  have ok: "request_ok (CompactionRequest_new \<lparr> cr_dbname := [100], cr_subranges := example_partition \<rparr>)"
    by (simp add: CompactionRequest_new_def example_simps)
  show ?thesis
    using compaction_request_round_trip [OF ok, of "[1, 2, 3]" YCSB_Compare "[]"]
    by (auto dest!: list_all2_lengthD simp: example_partition_def)
qed

subsection \<open>Edits that do not come back\<close>

text \<open>
  \<open>DecodeFrom\<close> does not read the name a comparator entry carries: an edit with a comparator name is
  rejected, or read as something else.
\<close>

lemma comparator_edit_rejected:
  "VersionEdit_DecodeFrom 6 VersionEdit_new (VersionEdit_EncodeTo (VersionEdit_SetComparatorName [120] VersionEdit_new)) =
   Corrupted (Status_Corruption (cstr ''VersionEdit'') (cstr ''unknown tag '' @ to_string 0)) (VersionEdit_Clear VersionEdit_new)"
  by (simp add: VersionEdit_DecodeFrom_def VersionEdit_EncodeTo_def VersionEdit_SetComparatorName_def VersionEdit_new_def
      VersionEdit_DecodeTag_def EncodeStr_def EncodeFixed32_def)

text \<open>The second of two new files comes back with the memtable identifiers of the first.\<close>

lemma memtable_ids_leak:
  assumes "FileMetaData_ok f" and "FileMetaData_ok g" and "0 < n"
  shows "\<exists>e f' g'. VersionEdit_DecodeFrom n VersionEdit_new
      (VersionEdit_EncodeTo (VersionEdit_new \<lparr> ve_new_files := [(0, f), (0, g)] \<rparr>)) = Decoded e [] \<and>
    ve_new_files e = [(0, f'), (0, g')] \<and>
    set (fmd_memtable_ids g') = set (fmd_memtable_ids f) \<union> set (fmd_memtable_ids g)"
proof -
  have "list_all (\<lambda>(level, f). level < n \<and> FileMetaData_ok f) [(0, f), (0, g)]" using assms by simp
  with VersionEdit_DecodeFrom_EncodeTo [of "VersionEdit_new \<lparr> ve_new_files := [(0, f), (0, g)] \<rparr>" n VersionEdit_new "[]"]
  show ?thesis by (auto simp: VersionEdit_new_def VersionEdit_wire_def VersionEdit_Clear_def Let_def set_fold_set_insert)
qed

end
