(* ===== verification/Util.thy ===== *)
theory Util
  imports NovaCommon
begin

text \<open>
  Small utilities of \<^verbatim>\<open>util/\<close>: the hash function (\<^verbatim>\<open>hash.cc\<close>), the linear congruential generator
  (\<^verbatim>\<open>random.h\<close>), parsing of decimal numbers and escaping of strings (\<^verbatim>\<open>logging.cc\<close>), and the arena a
  memtable allocates from (\<^verbatim>\<open>arena.h\<close>, \<^verbatim>\<open>arena.cc\<close>). The address \<^verbatim>\<open>new\<close> returns is a parameter of the
  arena's operations. The generators based on \<^verbatim>\<open>std::mt19937\<close> are library code.
\<close>

subsection \<open>Hash\<close>

fun Hash_words :: "bytes \<Rightarrow> u32 \<Rightarrow> bytes \<times> u32" where
  "Hash_words (a # b # c # d # data) h =
     (let w = the (DecodeFixed32_ptr [a, b, c, d]); h = (h + w) * 0xc6a4a793
      in Hash_words data (h XOR drop_bit 16 h))"
| "Hash_words data h = (data, h)"

definition Hash_rest :: "bytes \<Rightarrow> u32 \<Rightarrow> u32" where
  "Hash_rest data h =
     (let h = (if length data = 3 then h + push_bit 16 (ucast (data ! 2)) else h);
          h = (if length data = 3 \<or> length data = 2 then h + push_bit 8 (ucast (data ! 1)) else h)
      in if data \<noteq> [] then let h = (h + ucast (data ! 0)) * 0xc6a4a793 in h XOR drop_bit 24 h else h)"

definition Hash :: "bytes \<Rightarrow> u32 \<Rightarrow> u32" where
  "Hash data seed =
     (let (rest, h) = Hash_words data (seed XOR (of_nat (length data) * 0xc6a4a793)) in Hash_rest rest h)"

subsection \<open>Random numbers\<close>

definition Random_new :: "u32 \<Rightarrow> u32" where
  "Random_new s = (let seed = s AND 0x7fffffff in if seed = 0 \<or> seed = 2147483647 then 1 else seed)"

text \<open>The new seed, which is also the value returned.\<close>

definition Random_Next :: "u32 \<Rightarrow> u32" where
  "Random_Next seed =
     (let M = (2147483647 :: u32); product = (ucast seed * 16807 :: u64);
          seed' = (ucast (drop_bit 31 product + (product AND ucast M)) :: u32)
      in if seed' > M then seed' - M else seed')"

definition Random_Uniform :: "u32 \<Rightarrow> u32 \<Rightarrow> u32 \<times> u32" where
  "Random_Uniform n seed = (let seed = Random_Next seed in (seed mod n, seed))"

definition Random_OneIn :: "u32 \<Rightarrow> u32 \<Rightarrow> bool \<times> u32" where
  "Random_OneIn n seed = (let seed = Random_Next seed in (seed mod n = 0, seed))"

definition Random_Skewed :: "u32 \<Rightarrow> u32 \<Rightarrow> u32 \<times> u32" where
  "Random_Skewed max_log seed =
     (let (base, seed) = Random_Uniform (max_log + 1) seed in Random_Uniform (push_bit (unat base) 1) seed)"

subsection \<open>Decimal numbers and escaping\<close>

text \<open>\<open>Inl ()\<close>: the value would not fit in 64 bits. Otherwise the value and the input behind the digits.\<close>

fun ConsumeDecimalNumber_loop :: "u64 \<Rightarrow> bytes \<Rightarrow> unit + u64 \<times> bytes" where
  "ConsumeDecimalNumber_loop value [] = Inr (value, [])"
| "ConsumeDecimalNumber_loop value (ch # cs) =
     (if ch < zero_char \<or> ch > char_byte (CHR ''9'') then Inr (value, ch # cs)
      else if value > -1 div 10 \<or> value = -1 div 10 \<and> ch > zero_char + ucast ((-1 :: u64) mod 10) then Inl ()
      else ConsumeDecimalNumber_loop (value * 10 + (ucast ch - ucast zero_char)) cs)"

text \<open>Whether a number was read, the new value of \<^verbatim>\<open>*val\<close> and the new \<^verbatim>\<open>*in\<close>.\<close>

definition ConsumeDecimalNumber :: "bytes \<Rightarrow> u64 \<Rightarrow> bool \<times> u64 \<times> bytes" where
  "ConsumeDecimalNumber input val =
     (case ConsumeDecimalNumber_loop 0 input of
        Inl _ \<Rightarrow> (False, val, input)
      | Inr (value, rest) \<Rightarrow> (length input - length rest \<noteq> 0, value, rest))"

definition AppendNumberTo :: "bytes \<Rightarrow> u64 \<Rightarrow> bytes" where
  "AppendNumberTo s num = s @ to_string num"

definition NumberToString :: "u64 \<Rightarrow> bytes" where
  "NumberToString num = AppendNumberTo [] num"

definition hex_digit :: "byte \<Rightarrow> byte" where
  "hex_digit n = (if n < 10 then zero_char + n else char_byte (CHR ''a'') + (n - 10))"

fun AppendEscapedStringTo :: "bytes \<Rightarrow> bytes \<Rightarrow> bytes" where
  "AppendEscapedStringTo s [] = s"
| "AppendEscapedStringTo s (c # value) =
     AppendEscapedStringTo
       (s @ (if char_byte (CHR '' '') \<le> c \<and> c \<le> char_byte (CHR ''~'') then [c]
             else [92, char_byte (CHR ''x''), hex_digit (drop_bit 4 c), hex_digit (c AND 15)])) value"

definition EscapeString :: "bytes \<Rightarrow> bytes" where
  "EscapeString value = AppendEscapedStringTo [] value"

subsection \<open>Arena\<close>

definition kBlockSize :: nat where
  "kBlockSize = 4096"

text \<open>A block is its address and its size. The usage counts a pointer per block.\<close>

record Arena =
  ar_alloc_ptr :: nat
  ar_alloc_bytes_remaining :: nat
  ar_blocks :: "(nat \<times> nat) list"
  ar_memory_usage :: nat

definition Arena_new :: Arena where
  "Arena_new = \<lparr> ar_alloc_ptr = 0, ar_alloc_bytes_remaining = 0, ar_blocks = [], ar_memory_usage = 0 \<rparr>"

definition Arena_AllocateNewBlock :: "nat \<Rightarrow> nat \<Rightarrow> Arena \<Rightarrow> nat \<times> Arena" where
  "Arena_AllocateNewBlock addr block_bytes a =
     (addr, a \<lparr> ar_blocks := ar_blocks a @ [(addr, block_bytes)],
               ar_memory_usage := ar_memory_usage a + (block_bytes + 8) \<rparr>)"

definition Arena_AllocateFallback :: "nat \<Rightarrow> nat \<Rightarrow> Arena \<Rightarrow> nat \<times> Arena" where
  "Arena_AllocateFallback addr bytes a =
     (if bytes > kBlockSize div 4 then Arena_AllocateNewBlock addr bytes a
      else let (p, a) = Arena_AllocateNewBlock addr kBlockSize a
        in (p, a \<lparr> ar_alloc_ptr := p + bytes, ar_alloc_bytes_remaining := kBlockSize - bytes \<rparr>))"

definition Arena_Allocate :: "nat \<Rightarrow> nat \<Rightarrow> Arena \<Rightarrow> nat \<times> Arena" where
  "Arena_Allocate addr bytes a =
     (if bytes \<le> ar_alloc_bytes_remaining a then
        (ar_alloc_ptr a, a \<lparr> ar_alloc_ptr := ar_alloc_ptr a + bytes,
           ar_alloc_bytes_remaining := ar_alloc_bytes_remaining a - bytes \<rparr>)
      else Arena_AllocateFallback addr bytes a)"

definition Arena_AllocateAligned :: "nat \<Rightarrow> nat \<Rightarrow> Arena \<Rightarrow> nat \<times> Arena" where
  "Arena_AllocateAligned addr bytes a =
     (let align = 8; current_mod = ar_alloc_ptr a mod align;
          slop = (if current_mod = 0 then 0 else align - current_mod); needed = bytes + slop
      in if needed \<le> ar_alloc_bytes_remaining a then
           (ar_alloc_ptr a + slop, a \<lparr> ar_alloc_ptr := ar_alloc_ptr a + needed,
              ar_alloc_bytes_remaining := ar_alloc_bytes_remaining a - needed \<rparr>)
         else Arena_AllocateFallback addr bytes a)"

subsection \<open>The generator computes a product modulo a Mersenne prime\<close>

lemma mod_mersenne: "(q * 2 ^ 31 + r) mod 2147483647 = (q + r) mod (2147483647 :: nat)"
proof -
  have "q * 2 ^ 31 + r = q + r + q * 2147483647" by simp
  then show ?thesis by (metis mod_mult_self1)
qed

lemma multiplier_invertible:
  assumes "s * 16807 mod 2147483647 = 0" and "s < (2147483647 :: nat)"
  shows "s = 0"
proof -
  have "s * 16807 * 1407677000 = s + s * 11017 * 2147483647" by simp
  then have "s * 16807 * 1407677000 mod 2147483647 = s" using assms(2) by (metis mod_less mod_mult_self1)
  moreover have "s * 16807 * 1407677000 mod 2147483647 = 0" using assms(1) by (metis mod_mult_left_eq mod_0 mult_0)
  ultimately show ?thesis by simp
qed

abbreviation good_seed :: "u32 \<Rightarrow> bool" where
  "good_seed s \<equiv> 0 < unat s \<and> unat s < 2147483647"

lemma Random_Next_Lehmer:
  assumes "good_seed s"
  shows "unat (Random_Next s) = unat s * 16807 mod 2147483647"
proof -
  define p where "p = unat s * 16807"
  have p: "p < 2 ^ 46" using assms by (simp add: p_def)
  define q r where "q = p div 2 ^ 31" and "r = p mod 2 ^ 31"
  have q: "q < 2 ^ 15" using p by (simp add: q_def less_mult_imp_div_less)
  have r: "r < 2 ^ 31" by (simp add: r_def)
  have pqr: "p = q * 2 ^ 31 + r" by (simp add: q_def r_def)
  have prod: "unat (ucast s * 16807 :: u64) = p"
    using p by (simp add: unat_word_ariths p_def)
  have "unat (drop_bit 31 (ucast s * 16807 :: u64)) = q"
    by (simp add: drop_bit_eq_div unat_div prod q_def)
  moreover have "unat ((ucast s * 16807 :: u64) AND 2147483647) = r"
  proof -
    have "(2147483647 :: u64) = mask 31" by (simp add: mask_eq_exp_minus_1)
    then have "(ucast s * 16807 :: u64) AND 2147483647 = take_bit 31 (ucast s * 16807)"
      by (simp add: take_bit_eq_mask)
    then show ?thesis by (simp add: take_bit_eq_mod unat_mod prod r_def)
  qed
  ultimately have sum: "unat (drop_bit 31 (ucast s * 16807 :: u64) + ((ucast s * 16807) AND 2147483647)) = q + r"
    using q r by (simp add: unat_word_ariths)
  define t where "t = (ucast (drop_bit 31 (ucast s * 16807 :: u64) + ((ucast s * 16807) AND 2147483647)) :: u32)"
  have t: "unat t = q + r"
    using q r by (simp add: t_def unsigned_ucast_eq sum take_bit_nat_eq_self)
  have next_t: "Random_Next s = (if t > 2147483647 then t - 2147483647 else t)"
    by (simp add: Random_Next_def t_def Let_def)
  have mod: "p mod 2147483647 = (q + r) mod 2147483647" using mod_mersenne [of q r] pqr by simp
  have "q + r \<noteq> 2147483647"
    using multiplier_invertible [of "unat s"] assms mod by (auto simp: p_def)
  then show ?thesis
    using t q r mod
    by (auto simp: next_t word_less_nat_alt unat_sub word_le_nat_alt p_def [symmetric] le_mod_geq)
qed

lemma Random_Next_good: "good_seed s \<Longrightarrow> good_seed (Random_Next s)"
  using multiplier_invertible [of "unat s"] by (auto simp: Random_Next_Lehmer intro: gr0I)

lemma Random_new_good: "good_seed (Random_new s)"
proof -
  have "(0x7fffffff :: u32) = mask 31" by (simp add: mask_eq_exp_minus_1)
  then have "s AND 0x7fffffff = take_bit 31 s" by (simp add: take_bit_eq_mask)
  then have "unat (s AND 0x7fffffff) < 2 ^ 31" by (simp add: take_bit_eq_mod unat_mod)
  moreover have "s AND 0x7fffffff \<noteq> 2147483647 \<Longrightarrow> unat (s AND 0x7fffffff) \<noteq> 2147483647"
    by (auto simp: word_unat_eq_iff)
  ultimately show ?thesis by (auto simp: Random_new_def Let_def unat_gt_0 word_neq_0_conv)
qed

subsection \<open>Decimal numbers are read exactly\<close>

text \<open>The number a digit string stands for, without a bound.\<close>

definition digits_value :: "nat \<Rightarrow> bytes \<Rightarrow> nat" where
  "digits_value v ds = fold (\<lambda>d v. v * 10 + (unat d - 48)) ds v"

lemma digits_value_ge: "v \<le> digits_value v ds"
proof (induction ds arbitrary: v)
  case (Cons d ds)
  have "v \<le> v * 10 + (unat d - 48)" by simp
  also have "\<dots> \<le> digits_value (v * 10 + (unat d - 48)) ds" by (rule Cons.IH)
  finally show ?case by (simp add: digits_value_def)
qed (simp add: digits_value_def)

abbreviation digit :: "byte \<Rightarrow> bool" where
  "digit d \<equiv> 48 \<le> d \<and> d \<le> 57"

lemma ConsumeDecimalNumber_loop_exact:
  assumes "list_all digit ds" and "rest = [] \<or> \<not> digit (hd rest)"
  shows "ConsumeDecimalNumber_loop v (ds @ rest) =
    (if digits_value (unat v) ds < 2 ^ 64 then Inr (of_nat (digits_value (unat v) ds), rest) else Inl ())"
  using assms
proof (induction ds arbitrary: v)
  case Nil
  then show ?case using unat_u64_less [of v] by (cases rest) (auto simp: digits_value_def not_le)
next
  case (Cons d ds)
  have d: "48 \<le> unat d" "unat d \<le> 57" using Cons.prems by (auto simp: word_le_nat_alt)
  then have unat_d: "unat (ucast d - 48 :: u64) = unat d - 48"
    by (simp add: unat_sub word_le_nat_alt unsigned_ucast_eq take_bit_nat_eq_self)
  let ?v = "unat v * 10 + (unat d - 48)"
  have overflow: "(v > -1 div 10 \<or> v = -1 div 10 \<and> d > zero_char + ucast ((-1 :: u64) mod 10)) \<longleftrightarrow> 2 ^ 64 \<le> ?v"
  proof -
    have "(-1 div 10 :: u64) = 1844674407370955161" "(-1 mod 10 :: u64) = 5" by simp_all
    then show ?thesis using d by (auto simp: word_less_nat_alt word_unat_eq_iff)
  qed
  have step: "ConsumeDecimalNumber_loop v ((d # ds) @ rest) =
      (if 2 ^ 64 \<le> ?v then Inl () else ConsumeDecimalNumber_loop (v * 10 + (ucast d - 48)) (ds @ rest))"
    unfolding append_Cons ConsumeDecimalNumber_loop.simps overflow using Cons.prems by (auto simp: not_le)
  have val: "digits_value (unat v) (d # ds) = digits_value ?v ds" by (simp add: digits_value_def)
  show ?case
  proof (cases "2 ^ 64 \<le> ?v")
    case True
    then have "\<not> digits_value ?v ds < 2 ^ 64" using digits_value_ge [of ?v ds] by linarith
    with True show ?thesis unfolding step val by simp
  next
    case False
    then have "unat (v * 10 + (ucast d - 48)) = ?v"
      by (simp add: unat_word_ariths unat_d)
    with Cons.IH [of "v * 10 + (ucast d - 48)"] Cons.prems False show ?thesis
      unfolding step val by simp
  qed
qed

lemma ConsumeDecimalNumber_prefix:
  "ConsumeDecimalNumber input old =
     (let ds = takeWhile digit input in
      if digits_value 0 ds < 2 ^ 64 then (ds \<noteq> [], of_nat (digits_value 0 ds), dropWhile digit input)
      else (False, old, input))"
proof -
  let ?ds = "takeWhile digit input" and ?rest = "dropWhile digit input"
  have "list_all digit ?ds" by (auto simp: list_all_iff dest: set_takeWhileD)
  moreover have "?rest = [] \<or> \<not> digit (hd ?rest)" using hd_dropWhile [of digit input] by blast
  ultimately have loop: "ConsumeDecimalNumber_loop 0 (?ds @ ?rest) =
      (if digits_value 0 ?ds < 2 ^ 64 then Inr (of_nat (digits_value 0 ?ds), ?rest) else Inl ())"
    using ConsumeDecimalNumber_loop_exact [of ?ds ?rest 0] by simp
  have "length input = length ?ds + length ?rest"
    by (metis length_append takeWhile_dropWhile_id)
  then have "length input - length ?rest \<noteq> 0 \<longleftrightarrow> ?ds \<noteq> []" by simp
  with loop show ?thesis by (simp add: ConsumeDecimalNumber_def Let_def)
qed

lemma unat_digit_char: "unat (ucast (x mod 10) + 48 :: byte) = unat (x mod 10) + 48" for x :: u64
  using mod_10_less [of x] by (simp add: unat_word_ariths unsigned_ucast_eq take_bit_nat_eq_self)

lemma int_to_str_digits_digit: "d \<in> set (int_to_str_digits x) \<Longrightarrow> digit d"
proof (induction x rule: int_to_str_digits.induct)
  case (1 x)
  have "digit (ucast (x mod 10) + 48)"
    using unat_digit_char [of x] mod_10_less [of x] by (simp add: word_le_nat_alt word_less_nat_alt)
  moreover have "d = ucast (x mod 10) + zero_char \<or> x div 10 \<noteq> 0 \<and> d \<in> set (int_to_str_digits (x div 10))"
    using "1.prems" by (subst (asm) int_to_str_digits.simps) (auto simp: Let_def split: if_splits)
  ultimately show ?case using "1.IH" by fastforce
qed

lemma to_string_value: "digits_value 0 (to_string x) = unat x"
  unfolding to_string_def
proof (induction x rule: int_to_str_digits.induct)
  case (1 x)
  have d: "unat (ucast (x mod 10) + 48 :: byte) - 48 = unat x mod 10"
    unfolding unat_digit_char unat_mod by simp
  have div: "unat (x div 10) = unat x div 10" unfolding unat_div by simp
  show ?case
  proof (cases "x div 10 = 0")
    case True
    then have "unat x div 10 = 0" unfolding div [symmetric] by simp
    then have "unat x mod 10 = unat x" by simp
    with True d show ?thesis by (subst int_to_str_digits.simps) (simp add: Let_def digits_value_def)
  next
    case False
    with 1 have "digits_value 0 (rev (int_to_str_digits (x div 10))) = unat x div 10" unfolding div [symmetric] by simp
    with False d show ?thesis by (subst int_to_str_digits.simps) (simp add: Let_def digits_value_def)
  qed
qed

lemma to_string_not_Nil: "to_string x \<noteq> []"
  by (simp add: to_string_def)

lemma to_string_takeWhile: "takeWhile digit (to_string x) = to_string x"
  by (auto simp: to_string_def takeWhile_eq_all_conv dest: int_to_str_digits_digit)

lemma to_string_dropWhile: "dropWhile digit (to_string x) = []"
  by (auto simp: to_string_def dropWhile_eq_Nil_conv dest: int_to_str_digits_digit)

subsection \<open>Memory of an arena\<close>

text \<open>
  The states an arena reaches, with the regions it handed out. What is known of \<^verbatim>\<open>new\<close>: the block it
  returns is aligned to eight bytes and does not overlap a block returned before.
\<close>

definition disjoint :: "nat \<times> nat \<Rightarrow> nat \<times> nat \<Rightarrow> bool" where
  "disjoint r s \<longleftrightarrow> fst r + snd r \<le> fst s \<or> fst s + snd s \<le> fst r"

definition inside :: "nat \<times> nat \<Rightarrow> nat \<times> nat \<Rightarrow> bool" where
  "inside r s \<longleftrightarrow> fst s \<le> fst r \<and> fst r + snd r \<le> fst s + snd s"

definition new_block_ok :: "nat \<Rightarrow> nat \<Rightarrow> Arena \<Rightarrow> bool" where
  "new_block_ok addr bytes a \<longleftrightarrow> 8 dvd addr \<and>
     list_all (disjoint (addr, if bytes > kBlockSize div 4 then bytes else kBlockSize)) (ar_blocks a)"

inductive arena_reach :: "Arena \<Rightarrow> (nat \<times> nat) list \<Rightarrow> bool" where
  init: "arena_reach Arena_new []"
| allocate: "arena_reach a rs \<Longrightarrow> 0 < n \<Longrightarrow> new_block_ok addr n a \<Longrightarrow> Arena_Allocate addr n a = (p, a') \<Longrightarrow>
    arena_reach a' ((p, n) # rs)"
| aligned: "arena_reach a rs \<Longrightarrow> 0 < n \<Longrightarrow> new_block_ok addr n a \<Longrightarrow> Arena_AllocateAligned addr n a = (p, a') \<Longrightarrow>
    arena_reach a' ((p, n) # rs)"

text \<open>
  The invariant: blocks are disjoint, every region handed out lies in a block, regions are disjoint
  from each other and from the unused part of the current block, which lies in a block too.
\<close>

definition arena_inv :: "Arena \<Rightarrow> (nat \<times> nat) list \<Rightarrow> bool" where
  "arena_inv a rs \<longleftrightarrow>
     sorted_wrt disjoint (ar_blocks a) \<and> sorted_wrt disjoint rs \<and>
     (\<forall>r\<in>set rs. (\<exists>b\<in>set (ar_blocks a). inside r b) \<and>
        (ar_alloc_bytes_remaining a \<noteq> 0 \<longrightarrow> disjoint r (ar_alloc_ptr a, ar_alloc_bytes_remaining a))) \<and>
     (ar_alloc_bytes_remaining a \<noteq> 0 \<longrightarrow>
        (\<exists>b\<in>set (ar_blocks a). inside (ar_alloc_ptr a, ar_alloc_bytes_remaining a) b)) \<and>
     ar_memory_usage a = sum_list (map (\<lambda>(_, size). size + 8) (ar_blocks a))"

text \<open>Cutting a region off the front of the free part, after some slop.\<close>

lemma arena_inv_cut:
  assumes inv: "arena_inv a rs" and fits: "slop + n \<le> ar_alloc_bytes_remaining a" and "0 < n"
  shows "arena_inv (a \<lparr> ar_alloc_ptr := ar_alloc_ptr a + (slop + n),
      ar_alloc_bytes_remaining := ar_alloc_bytes_remaining a - (slop + n) \<rparr>) ((ar_alloc_ptr a + slop, n) # rs)"
proof -
  obtain b where b: "b \<in> set (ar_blocks a)" "inside (ar_alloc_ptr a, ar_alloc_bytes_remaining a) b"
    using inv fits \<open>0 < n\<close> unfolding arena_inv_def by auto
  have "disjoint (ar_alloc_ptr a + slop, n) r \<and>
      disjoint r (ar_alloc_ptr a + (slop + n), ar_alloc_bytes_remaining a - (slop + n))" if "r \<in> set rs" for r
  proof -
    have "disjoint r (ar_alloc_ptr a, ar_alloc_bytes_remaining a)"
      using inv that fits \<open>0 < n\<close> unfolding arena_inv_def by auto
    with fits show ?thesis by (auto simp: disjoint_def)
  qed
  moreover have "inside (ar_alloc_ptr a + slop, n) b"
      "inside (ar_alloc_ptr a + (slop + n), ar_alloc_bytes_remaining a - (slop + n)) b"
    using b fits by (auto simp: inside_def)
  ultimately show ?thesis
    using inv b fits unfolding arena_inv_def by (auto simp: disjoint_def)
qed

text \<open>A region in a fresh block.\<close>

lemma arena_inv_fallback:
  assumes inv: "arena_inv a rs" and ok: "new_block_ok addr n a" and "0 < n"
    and alloc: "Arena_AllocateFallback addr n a = (p, a')"
  shows "arena_inv a' ((p, n) # rs) \<and> p = addr"
proof -
  define size where "size = (if n > kBlockSize div 4 then n else kBlockSize)"
  have n: "n \<le> size" by (simp add: size_def kBlockSize_def)
  have fresh: "\<forall>b\<in>set (ar_blocks a). disjoint (addr, size) b"
    using ok by (simp add: new_block_ok_def size_def list_all_iff)
  have apart: "disjoint (addr, m) r \<and> disjoint r (addr, m) \<and> disjoint r (addr + m, size - m)"
    if "inside r b" "b \<in> set (ar_blocks a)" "m \<le> size" for r b m
    using that fresh by (auto simp: disjoint_def inside_def)
  have rs: "\<exists>b\<in>set (ar_blocks a). inside r b" if "r \<in> set rs" for r
    using inv that unfolding arena_inv_def by blast
  have blocks: "sorted_wrt disjoint (ar_blocks a @ [(addr, size)])"
    using inv fresh unfolding arena_inv_def by (auto simp: sorted_wrt_append disjoint_def)
  have regions: "sorted_wrt disjoint ((addr, n) # rs)"
  proof -
    have "disjoint (addr, n) r" if "r \<in> set rs" for r using rs [OF that] apart n by blast
    then show ?thesis using inv unfolding arena_inv_def by simp
  qed
  show ?thesis
  proof (cases "n > kBlockSize div 4")
    case True
    with alloc have a': "p = addr" "a' = a \<lparr> ar_blocks := ar_blocks a @ [(addr, n)],
        ar_memory_usage := ar_memory_usage a + (n + 8) \<rparr>" "size = n"
      by (auto simp: Arena_AllocateFallback_def Arena_AllocateNewBlock_def size_def)
    have "ar_alloc_bytes_remaining a \<noteq> 0 \<Longrightarrow> disjoint (addr, n) (ar_alloc_ptr a, ar_alloc_bytes_remaining a)"
      using inv apart n unfolding arena_inv_def by blast
    with a' blocks regions inv rs show ?thesis
      unfolding arena_inv_def by (auto simp: inside_def)
  next
    case False
    with alloc have a': "p = addr" "a' = a \<lparr> ar_blocks := ar_blocks a @ [(addr, size)],
        ar_memory_usage := ar_memory_usage a + (size + 8), ar_alloc_ptr := addr + n,
        ar_alloc_bytes_remaining := size - n \<rparr>"
      by (auto simp: Arena_AllocateFallback_def Arena_AllocateNewBlock_def size_def)
    have "disjoint r (addr + n, size - n)" if "r \<in> set rs" for r
      using rs [OF that] apart n by blast
    with a' blocks regions inv rs n show ?thesis
      unfolding arena_inv_def by (auto simp: inside_def disjoint_def)
  qed
qed

lemma arena_reach_inv: "arena_reach a rs \<Longrightarrow> arena_inv a rs"
proof (induction rule: arena_reach.induct)
  case init
  show ?case by (simp add: arena_inv_def Arena_new_def)
next
  case (allocate a rs n addr p a')
  show ?case
  proof (cases "n \<le> ar_alloc_bytes_remaining a")
    case True
    with allocate arena_inv_cut [of a rs 0 n] show ?thesis by (auto simp: Arena_Allocate_def)
  next
    case False
    with allocate arena_inv_fallback [of a rs addr n p a'] show ?thesis by (auto simp: Arena_Allocate_def)
  qed
next
  case (aligned a rs n addr p a')
  define slop where "slop = (if ar_alloc_ptr a mod 8 = 0 then 0 else 8 - ar_alloc_ptr a mod 8)"
  show ?case
  proof (cases "slop + n \<le> ar_alloc_bytes_remaining a")
    case True
    with aligned arena_inv_cut [of a rs slop n] show ?thesis
      by (auto simp: Arena_AllocateAligned_def Let_def slop_def add.commute [of n] split: if_splits)
  next
    case False
    with aligned arena_inv_fallback [of a rs addr n p a'] show ?thesis
      by (auto simp: Arena_AllocateAligned_def Let_def slop_def add.commute [of n] split: if_splits)
  qed
qed

lemma AllocateAligned_aligned:
  assumes "new_block_ok addr n a" and "Arena_AllocateAligned addr n a = (p, a')"
  shows "8 dvd p"
proof -
  have slop: "8 dvd ar_alloc_ptr a + (if ar_alloc_ptr a mod 8 = 0 then 0 else 8 - ar_alloc_ptr a mod 8)"
    by presburger
  then show ?thesis using assms
    by (auto simp: Arena_AllocateAligned_def Let_def Arena_AllocateFallback_def Arena_AllocateNewBlock_def
        new_block_ok_def split: if_splits)
qed

subsection \<open>Properties\<close>

text \<open>
  (C29) The random number generator computes the product of the seed with 16807 modulo the prime
  $2^{31} - 1$, by shifting and adding instead of dividing. From the seed the constructor installs it
  never reaches the two seeds that would repeat forever, whatever the number of calls.
\<close>

theorem random_lehmer:
  "good_seed ((Random_Next ^^ k) (Random_new s)) \<and>
   unat (Random_Next ((Random_Next ^^ k) (Random_new s))) =
     unat ((Random_Next ^^ k) (Random_new s)) * 16807 mod 2147483647"
proof -
  have "good_seed ((Random_Next ^^ k) (Random_new s))"
    by (induction k) (simp_all add: Random_new_good Random_Next_good)
  then show ?thesis by (simp add: Random_Next_Lehmer)
qed

text \<open>
  (C28) Decimal parsing is exact on every input. The digits the input starts with are read to their value,
  and the input moves behind them, when the value is below $2^{64}$; otherwise parsing fails and
  touches neither the output nor the input, however many digits there are. Without a digit it fails
  too, and stores zero. What \<open>NumberToString\<close> prints is read back.
\<close>

theorem consume_decimal_exact:
  "ConsumeDecimalNumber input old =
     (let ds = takeWhile digit input in
      if digits_value 0 ds < 2 ^ 64 then (ds \<noteq> [], of_nat (digits_value 0 ds), dropWhile digit input)
      else (False, old, input)) \<and>
   ConsumeDecimalNumber (NumberToString v) old = (True, v, [])"
proof
  show all: "ConsumeDecimalNumber input old =
     (let ds = takeWhile digit input in
      if digits_value 0 ds < 2 ^ 64 then (ds \<noteq> [], of_nat (digits_value 0 ds), dropWhile digit input)
      else (False, old, input))" for input
    by (rule ConsumeDecimalNumber_prefix)
  show "ConsumeDecimalNumber (NumberToString v) old = (True, v, [])"
    using all [of "to_string v"] unat_u64_less [of v] to_string_not_Nil [of v]
    by (simp add: NumberToString_def AppendNumberTo_def to_string_takeWhile to_string_dropWhile to_string_value Let_def)
qed

text \<open>
  (C9) Whatever sequence of requests an arena serves, the regions it hands out lie in blocks it owns and
  do not overlap each other nor the unused part of its current block, a region of an aligned request
  starts at a multiple of eight, and the reported memory usage is the size of all blocks with one
  pointer per block.
\<close>

theorem arena_regions:
  assumes "arena_reach a rs"
  shows "sorted_wrt disjoint rs \<and> list_all (\<lambda>r. list_ex (inside r) (ar_blocks a)) rs \<and>
    ar_memory_usage a = sum_list (map (\<lambda>(_, size). size + 8) (ar_blocks a)) \<and>
    (new_block_ok addr n a \<longrightarrow> 8 dvd fst (Arena_AllocateAligned addr n a))"
  using arena_reach_inv [OF assms] AllocateAligned_aligned [of addr n a]
  by (auto simp: arena_inv_def list_all_iff list_ex_iff prod_eq_iff)

theorem arena_regions_witness:
  "\<exists>a. arena_reach a [(4008, 16), (4000, 3)] \<and> sorted_wrt disjoint [(4008, 16), (4000, 3)] \<and>
     ar_memory_usage a = sum_list (map (\<lambda>(_, size). size + 8) (ar_blocks a))"
proof -
  let ?a = "snd (Arena_Allocate 4000 3 Arena_new)"
  note defs = new_block_ok_def disjoint_def Arena_new_def Arena_Allocate_def Arena_AllocateAligned_def
    Arena_AllocateFallback_def Arena_AllocateNewBlock_def kBlockSize_def
  have "arena_reach ?a [(4000, 3)]"
    by (rule arena_reach.allocate [OF arena_reach.init, of 3 4000]) (simp_all add: defs)
  then have "arena_reach (snd (Arena_AllocateAligned 9000 16 ?a)) [(4008, 16), (4000, 3)]"
    by (rule arena_reach.aligned [of _ _ 16 9000]) (simp_all add: defs)
  with arena_regions [OF this] show ?thesis by blast
qed

end

