(* ===== verification/Filters.thy ===== *)
theory Filters
  imports DBFormat Util
begin

text \<open>
  The filters a table keeps to avoid reading data blocks that cannot hold a key: the Bloom filter
  (\<^verbatim>\<open>util/bloom.cc\<close>), the wrapper that applies a policy to the user part of internal keys
  (\<^verbatim>\<open>db/dbformat.cc\<close>), and the filter block of a table with its builder and reader
  (\<^verbatim>\<open>table/filter_block.cc\<close>). A policy is the pair of its two operations. The contract of a policy is
  that it has no false negatives; it is met by the Bloom filter and inherited by the wrapper and by the
  whole filter block.
\<close>

subsection \<open>Bloom filter\<close>

definition BloomHash :: "bytes \<Rightarrow> u32" where
  "BloomHash key = Hash key 0xbc9f1d34"

text \<open>
  The number of probes. The product with 0.69 is truncated; below 100 bits per key it is never within
  a rounding error of an integer, and above the result is cut to 30.
\<close>

definition Bloom_k :: "nat \<Rightarrow> nat" where
  "Bloom_k bits_per_key =
     (let k = bits_per_key * 69 div 100; k = (if k < 1 then 1 else k) in if k > 30 then 30 else k)"

definition Bloom_delta :: "u32 \<Rightarrow> u32" where
  "Bloom_delta h = drop_bit 17 h OR push_bit 15 h"

fun Bloom_set_bits :: "nat \<Rightarrow> nat \<Rightarrow> u32 \<Rightarrow> u32 \<Rightarrow> bytes \<Rightarrow> bytes" where
  "Bloom_set_bits 0 bits h delta array = array"
| "Bloom_set_bits (Suc j) bits h delta array =
     (let bitpos = unat h mod bits
      in Bloom_set_bits j bits (h + delta) delta
           (array[bitpos div 8 := array ! (bitpos div 8) OR push_bit (bitpos mod 8) 1]))"

definition Bloom_add_key :: "nat \<Rightarrow> nat \<Rightarrow> bytes \<Rightarrow> bytes \<Rightarrow> bytes" where
  "Bloom_add_key k bits key array = (let h = BloomHash key in Bloom_set_bits k bits h (Bloom_delta h) array)"

definition Bloom_CreateFilter :: "nat \<Rightarrow> bytes list \<Rightarrow> bytes \<Rightarrow> bytes" where
  "Bloom_CreateFilter bits_per_key keys dst =
     (let k = Bloom_k bits_per_key;
          bits = length keys * bits_per_key;
          bits = (if bits < 64 then 64 else bits);
          bytes = (bits + 7) div 8;
          bits = bytes * 8;
          array = fold (Bloom_add_key k bits) keys (replicate bytes 0)
      in dst @ array @ [of_nat k])"

fun Bloom_test_bits :: "nat \<Rightarrow> nat \<Rightarrow> u32 \<Rightarrow> u32 \<Rightarrow> bytes \<Rightarrow> bool" where
  "Bloom_test_bits 0 bits h delta array = True"
| "Bloom_test_bits (Suc j) bits h delta array =
     (let bitpos = unat h mod bits
      in if array ! (bitpos div 8) AND push_bit (bitpos mod 8) 1 = 0 then False
         else Bloom_test_bits j bits (h + delta) delta array)"

text \<open>The stored number of probes is a signed byte widened to \<^verbatim>\<open>size_t\<close>.\<close>

definition Bloom_KeyMayMatch :: "bytes \<Rightarrow> bytes \<Rightarrow> bool" where
  "Bloom_KeyMayMatch key bloom_filter =
     (let len = length bloom_filter in
      if len < 2 then False
      else let bits = (len - 1) * 8; k = unat (scast (bloom_filter ! (len - 1)) :: u64) in
        if k > 30 then True
        else let h = BloomHash key in Bloom_test_bits k bits h (Bloom_delta h) bloom_filter)"

subsection \<open>Filters on user keys\<close>

definition InternalFilterPolicy_CreateFilter ::
    "(bytes list \<Rightarrow> bytes \<Rightarrow> bytes) \<Rightarrow> bytes list \<Rightarrow> bytes \<Rightarrow> bytes" where
  "InternalFilterPolicy_CreateFilter user_create keys dst = user_create (map ExtractUserKey keys) dst"

definition InternalFilterPolicy_KeyMayMatch :: "(bytes \<Rightarrow> bytes \<Rightarrow> bool) \<Rightarrow> bytes \<Rightarrow> bytes \<Rightarrow> bool" where
  "InternalFilterPolicy_KeyMayMatch user_may_match key f = user_may_match (ExtractUserKey key) f"

subsection \<open>Filter blocks\<close>

definition kFilterBaseLg :: nat where
  "kFilterBaseLg = 11"

definition kFilterBase :: nat where
  "kFilterBase = 2 ^ kFilterBaseLg"

record FilterBlockBuilder =
  fb_keys :: bytes
  fb_start :: "nat list"
  fb_result :: bytes
  fb_filter_offsets :: "u32 list"

definition FilterBlockBuilder_new :: FilterBlockBuilder where
  "FilterBlockBuilder_new = \<lparr> fb_keys = [], fb_start = [], fb_result = [], fb_filter_offsets = [] \<rparr>"

definition FilterBlockBuilder_GenerateFilter ::
    "(bytes list \<Rightarrow> bytes \<Rightarrow> bytes) \<Rightarrow> FilterBlockBuilder \<Rightarrow> FilterBlockBuilder" where
  "FilterBlockBuilder_GenerateFilter create b =
     (let num_keys = length (fb_start b) in
      if num_keys = 0 then b \<lparr> fb_filter_offsets := fb_filter_offsets b @ [of_nat (length (fb_result b))] \<rparr>
      else let start = fb_start b @ [length (fb_keys b)];
        tmp_keys = map (\<lambda>i. take (start ! (i + 1) - start ! i) (drop (start ! i) (fb_keys b))) [0..<num_keys]
      in b \<lparr> fb_filter_offsets := fb_filter_offsets b @ [of_nat (length (fb_result b))],
             fb_result := create tmp_keys (fb_result b), fb_keys := [], fb_start := [] \<rparr>)"

lemma length_offsets_GenerateFilter [simp]:
  "length (fb_filter_offsets (FilterBlockBuilder_GenerateFilter create b)) = Suc (length (fb_filter_offsets b))"
  by (simp add: FilterBlockBuilder_GenerateFilter_def Let_def)

function StartBlock_loop ::
    "(bytes list \<Rightarrow> bytes \<Rightarrow> bytes) \<Rightarrow> nat \<Rightarrow> FilterBlockBuilder \<Rightarrow> FilterBlockBuilder" where
  "StartBlock_loop create filter_index b =
     (if filter_index > length (fb_filter_offsets b)
      then StartBlock_loop create filter_index (FilterBlockBuilder_GenerateFilter create b) else b)"
  by pat_completeness auto
termination
  by (relation "measure (\<lambda>(create, i, b). i - length (fb_filter_offsets b))") auto

declare StartBlock_loop.simps [simp del]

text \<open>\<open>None\<close> is the failed assertion: the offsets of the blocks must not go back below a finished filter.\<close>

definition FilterBlockBuilder_StartBlock ::
    "(bytes list \<Rightarrow> bytes \<Rightarrow> bytes) \<Rightarrow> u64 \<Rightarrow> FilterBlockBuilder \<Rightarrow> FilterBlockBuilder option" where
  "FilterBlockBuilder_StartBlock create block_offset b =
     (let filter_index = unat block_offset div kFilterBase in
      if filter_index \<ge> length (fb_filter_offsets b) then Some (StartBlock_loop create filter_index b) else None)"

definition FilterBlockBuilder_AddKey :: "bytes \<Rightarrow> FilterBlockBuilder \<Rightarrow> FilterBlockBuilder" where
  "FilterBlockBuilder_AddKey key b =
     b \<lparr> fb_start := fb_start b @ [length (fb_keys b)], fb_keys := fb_keys b @ key \<rparr>"

definition FilterBlockBuilder_Finish ::
    "(bytes list \<Rightarrow> bytes \<Rightarrow> bytes) \<Rightarrow> FilterBlockBuilder \<Rightarrow> bytes" where
  "FilterBlockBuilder_Finish create b =
     (let b = (if fb_start b \<noteq> [] then FilterBlockBuilder_GenerateFilter create b else b);
          filter_block_size = (of_nat (length (fb_result b)) :: u32);
          result = fold (\<lambda>offset dst. PutFixed32 dst offset) (fb_filter_offsets b) (fb_result b)
      in PutFixed32 (PutFixed32 result (of_nat (length (fb_filter_offsets b)))) filter_block_size @ [of_nat kFilterBaseLg])"

record FilterBlockReader =
  fr_data :: bytes
  fr_base_lg :: nat
  fr_size :: nat
  fr_filter_offsets :: "u32 list"
  fr_filter_size :: u32

text \<open>
  The reader of a block too short to hold the fixed part has no filters. \<open>None\<close>: a failed assertion, or a
  read outside the block.
\<close>

definition FilterBlockReader_new :: "bytes \<Rightarrow> FilterBlockReader option" where
  "FilterBlockReader_new contents =
     (let n = length contents in
      if n < 5 then Some \<lparr> fr_data = [], fr_base_lg = 0, fr_size = n, fr_filter_offsets = [], fr_filter_size = 0 \<rparr>
      else if n < 9 then None
      else do {
        filter_size \<leftarrow> DecodeFixed32_ptr (drop (n - 5) contents);
        num_filter_offsets \<leftarrow> DecodeFixed32_ptr (drop (n - 9) contents);
        if contents ! (n - 1) \<noteq> of_nat kFilterBaseLg then None
        else if unat (filter_size + num_filter_offsets * 4 + 4 + 4 + 1) \<noteq> n then None
        else do {
          (offsets, _) \<leftarrow> decode_n (unat num_filter_offsets) DecodeFixed32 (drop (unat filter_size) contents);
          Some \<lparr> fr_data = contents, fr_base_lg = kFilterBaseLg, fr_size = n, fr_filter_offsets = offsets,
                 fr_filter_size = filter_size \<rparr> } })"

definition FilterBlockReader_KeyMayMatch ::
    "(bytes \<Rightarrow> bytes \<Rightarrow> bool) \<Rightarrow> u64 \<Rightarrow> bytes \<Rightarrow> FilterBlockReader \<Rightarrow> bool" where
  "FilterBlockReader_KeyMayMatch may_match block_offset key r =
     (let index = unat block_offset div kFilterBase in
      if index \<ge> length (fr_filter_offsets r) then True
      else let start = fr_filter_offsets r ! index;
        end' = (if index + 1 < length (fr_filter_offsets r) then fr_filter_offsets r ! (index + 1) else fr_filter_size r)
      in may_match key (take (unat (end' - start)) (drop (unat start) (fr_data r))))"

subsection \<open>The contract of a filter policy\<close>

locale filter_policy =
  fixes create :: "bytes list \<Rightarrow> bytes \<Rightarrow> bytes"
    and may_match :: "bytes \<Rightarrow> bytes \<Rightarrow> bool"
  assumes create_append: "create keys dst = dst @ create keys []"
    and no_false_negative: "key \<in> set keys \<Longrightarrow> may_match key (create keys [])"

context filter_policy
begin

lemma internal_policy:
  "filter_policy (InternalFilterPolicy_CreateFilter create) (InternalFilterPolicy_KeyMayMatch may_match)"
proof
  show "InternalFilterPolicy_CreateFilter create keys dst = dst @ InternalFilterPolicy_CreateFilter create keys []"
    for keys dst
    unfolding InternalFilterPolicy_CreateFilter_def by (rule create_append)
  show "key \<in> set keys \<Longrightarrow>
      InternalFilterPolicy_KeyMayMatch may_match key (InternalFilterPolicy_CreateFilter create keys [])"
    for key keys
    unfolding InternalFilterPolicy_CreateFilter_def InternalFilterPolicy_KeyMayMatch_def
    by (rule no_false_negative) simp
qed

end

subsection \<open>The Bloom filter has no false negatives\<close>

lemma length_Bloom_set_bits [simp]: "length (Bloom_set_bits k bits h delta array) = length array"
  by (induction k bits h delta array rule: Bloom_set_bits.induct) (auto simp: Let_def)

lemma length_Bloom_add_key [simp]: "length (Bloom_add_key k bits key array) = length array"
  by (simp add: Bloom_add_key_def Let_def)

lemma length_fold_Bloom_add_key [simp]: "length (fold (Bloom_add_key k bits) keys array) = length array"
  by (induction keys arbitrary: array) simp_all

text \<open>The bit at a position of the array.\<close>

definition array_bit :: "bytes \<Rightarrow> nat \<Rightarrow> bool" where
  "array_bit array p \<longleftrightarrow> bit (array ! (p div 8)) (p mod 8)"

lemma and_power_eq_0: "b AND 2 ^ n = 0 \<longleftrightarrow> \<not> bit b n" for b :: byte
  using bit_iff_and_push_bit_not_eq_0 [of b n] by (simp add: push_bit_eq_mult)

lemma bit_power_byte: "bit (2 ^ n :: byte) m \<longleftrightarrow> m = n \<and> n < 8"
  by (auto simp: bit_exp_iff)

lemma Bloom_test_bits_iff:
  "Bloom_test_bits k bits h delta array \<longleftrightarrow> (\<forall>j<k. array_bit array (unat (h + of_nat j * delta) mod bits))"
proof (induction k bits h delta array rule: Bloom_test_bits.induct)
  case (2 j bits h delta array)
  have "Bloom_test_bits (Suc j) bits h delta array \<longleftrightarrow>
      array_bit array (unat h mod bits) \<and> Bloom_test_bits j bits (h + delta) delta array"
    by (auto simp: Let_def array_bit_def and_power_eq_0)
  also have "\<dots> \<longleftrightarrow> array_bit array (unat h mod bits) \<and>
      (\<forall>i<j. array_bit array (unat (h + of_nat (Suc i) * delta) mod bits))"
    using "2.IH" [OF refl] by (auto simp: algebra_simps and_power_eq_0 array_bit_def)
  also have "\<dots> \<longleftrightarrow> (\<forall>i<Suc j. array_bit array (unat (h + of_nat i * delta) mod bits))"
    by (auto simp: less_Suc_eq_0_disj)
  finally show ?case .
qed simp

lemma array_bit_set:
  assumes "p < 8 * length array" "q < 8 * length array"
  shows "array_bit (array[q div 8 := array ! (q div 8) OR push_bit (q mod 8) 1]) p \<longleftrightarrow> array_bit array p \<or> p = q"
proof (cases "p div 8 = q div 8")
  case True
  then have eq: "p mod 8 = q mod 8 \<longleftrightarrow> p = q" by (metis div_mult_mod_eq)
  show ?thesis
    using assms True eq
    by (auto simp: array_bit_def bit_or_iff bit_power_byte less_mult_imp_div_less mult.commute)
next
  case False
  then show ?thesis by (auto simp: array_bit_def nth_list_update)
qed

lemma array_bit_Bloom_set_bits:
  assumes "bits = 8 * length array" "p < bits"
  shows "array_bit (Bloom_set_bits k bits h delta array) p \<longleftrightarrow>
    array_bit array p \<or> (\<exists>j<k. p = unat (h + of_nat j * delta) mod bits)"
  using assms
proof (induction k bits h delta array rule: Bloom_set_bits.induct)
  case (2 j bits h delta array)
  let ?q = "unat h mod bits"
  let ?array = "array[?q div 8 := array ! (?q div 8) OR push_bit (?q mod 8) 1]"
  have "0 < bits" using "2.prems" by linarith
  then have q: "?q < 8 * length array" using "2.prems"(1) mod_less_divisor by metis
  have "array_bit (Bloom_set_bits (Suc j) bits h delta array) p \<longleftrightarrow>
      array_bit ?array p \<or> (\<exists>i<j. p = unat (h + delta + of_nat i * delta) mod bits)"
    unfolding Bloom_set_bits.simps Let_def by (rule "2.IH" [OF refl]) (use 2 in simp_all)
  also have "\<dots> \<longleftrightarrow> array_bit array p \<or> p = ?q \<or> (\<exists>i<j. p = unat (h + delta + of_nat i * delta) mod bits)"
    using array_bit_set [OF _ q, of p] 2 by auto
  also have "\<dots> \<longleftrightarrow> array_bit array p \<or> (\<exists>i<Suc j. p = unat (h + of_nat i * delta) mod bits)"
    by (simp add: Ex_less_Suc2 algebra_simps)
  finally show ?case .
qed simp

lemma array_bit_fold_Bloom_add_key:
  assumes "bits = 8 * length array" "p < bits"
  shows "array_bit (fold (Bloom_add_key k bits) keys array) p \<longleftrightarrow>
    array_bit array p \<or>
    (\<exists>key\<in>set keys. \<exists>j<k. p = unat (BloomHash key + of_nat j * Bloom_delta (BloomHash key)) mod bits)"
  using assms
proof (induction keys arbitrary: array)
  case (Cons key keys)
  have "array_bit (Bloom_add_key k bits key array) p \<longleftrightarrow>
      array_bit array p \<or> (\<exists>j<k. p = unat (BloomHash key + of_nat j * Bloom_delta (BloomHash key)) mod bits)"
    unfolding Bloom_add_key_def Let_def using Cons.prems by (rule array_bit_Bloom_set_bits)
  then show ?case
    using Cons.IH [of "Bloom_add_key k bits key array"] Cons.prems by simp
qed simp

lemma Bloom_k_bounds: "1 \<le> Bloom_k n" "Bloom_k n \<le> 30"
  by (simp_all add: Bloom_k_def Let_def)

lemma stored_k: "unat (scast (of_nat (Bloom_k n) :: byte) :: u64) = Bloom_k n"
proof -
  have "Bloom_k n \<in> {1..30}" using Bloom_k_bounds [of n] by simp
  then have "Bloom_k n \<in> set [1..<31]" by auto
  moreover have "\<forall>k\<in>set [1..<31]. unat (scast (of_nat k :: byte) :: u64) = k"
    by (simp add: upt_rec)
  ultimately show ?thesis by blast
qed

text \<open>What a Bloom filter answers: exactly that the bits of all probes of the key were set by some key.\<close>

lemma Bloom_KeyMayMatch_iff:
  defines "probe bits key j \<equiv> unat (BloomHash key + of_nat j * Bloom_delta (BloomHash key)) mod bits"
  assumes bits: "bits = (max 64 (length keys * n) + 7) div 8 * 8"
  shows "Bloom_KeyMayMatch key (Bloom_CreateFilter n keys []) \<longleftrightarrow>
    (\<forall>j<Bloom_k n. \<exists>key'\<in>set keys. \<exists>i<Bloom_k n. probe bits key j = probe bits key' i)"
proof -
  let ?bytes = "(max 64 (length keys * n) + 7) div 8"
  let ?array = "fold (Bloom_add_key (Bloom_k n) bits) keys (replicate ?bytes 0)"
  have pos: "0 < ?bytes" by simp
  have len: "length ?array = ?bytes" by simp
  have create: "Bloom_CreateFilter n keys [] = ?array @ [of_nat (Bloom_k n)]"
    by (simp add: Bloom_CreateFilter_def Let_def bits max_def not_less)
  have app: "array_bit (?array @ x) p \<longleftrightarrow> array_bit ?array p" if "p < bits" for p x
    using that len bits by (simp add: array_bit_def nth_append less_mult_imp_div_less)
  have zero: "\<not> array_bit (replicate ?bytes 0) p" if "p < bits" for p
    using that bits by (simp add: array_bit_def less_mult_imp_div_less)
  have lt: "probe bits x j < bits" for x j
    unfolding probe_def using bits by (intro mod_less_divisor) simp
  have "Bloom_KeyMayMatch key (Bloom_CreateFilter n keys []) \<longleftrightarrow>
      (\<forall>j<Bloom_k n. array_bit (?array @ [of_nat (Bloom_k n)]) (probe bits key j))"
    unfolding create Bloom_KeyMayMatch_def probe_def
    using Bloom_k_bounds [of n] pos len bits
    by (simp add: Let_def Bloom_test_bits_iff nth_append stored_k not_less)
  also have "\<dots> \<longleftrightarrow> (\<forall>j<Bloom_k n. array_bit ?array (probe bits key j))"
    using app lt by simp
  also have "\<dots> \<longleftrightarrow> (\<forall>j<Bloom_k n. \<exists>key'\<in>set keys. \<exists>i<Bloom_k n. probe bits key j = probe bits key' i)"
    using array_bit_fold_Bloom_add_key [of bits "replicate ?bytes 0"] zero lt bits
    by (simp add: probe_def mult.commute)
  finally show ?thesis .
qed

interpretation bloom: filter_policy "Bloom_CreateFilter n" Bloom_KeyMayMatch for n
proof
  show "Bloom_CreateFilter n keys dst = dst @ Bloom_CreateFilter n keys []" for keys dst
    by (simp add: Bloom_CreateFilter_def Let_def)
  show "key \<in> set keys \<Longrightarrow> Bloom_KeyMayMatch key (Bloom_CreateFilter n keys [])" for key keys
    using Bloom_KeyMayMatch_iff [OF refl] by blast
qed

interpretation internal_bloom: filter_policy
  "InternalFilterPolicy_CreateFilter (Bloom_CreateFilter n)" "InternalFilterPolicy_KeyMayMatch Bloom_KeyMayMatch" for n
  by (rule bloom.internal_policy)

subsection \<open>Filter blocks answer by the keys of a range of offsets\<close>

text \<open>
  The flattened representation of a list of strings, used for the pending keys and for the finished
  filters: the concatenation and the offset of every element.
\<close>

fun offsets_from :: "nat \<Rightarrow> bytes list \<Rightarrow> nat list" where
  "offsets_from n [] = []"
| "offsets_from n (x # xs) = n # offsets_from (n + length x) xs"

lemma length_offsets_from [simp]: "length (offsets_from n xs) = length xs"
  by (induction n xs rule: offsets_from.induct) simp_all

lemma offsets_from_snoc [simp]: "offsets_from n (xs @ [x]) = offsets_from n xs @ [n + length (concat xs)]"
  by (induction n xs rule: offsets_from.induct) simp_all

lemma offsets_from_eq_Nil [simp]: "offsets_from n xs = [] \<longleftrightarrow> xs = []"
  by (cases xs) simp_all

lemma nth_offsets_from:
  "i \<le> length xs \<Longrightarrow> (offsets_from n xs @ [n + length (concat xs)]) ! i = n + length (concat (take i xs))"
proof (induction n xs arbitrary: i rule: offsets_from.induct)
  case (2 n x xs)
  then show ?case by (cases i) (simp_all add: add.assoc)
qed simp

lemma concat_slice:
  assumes "i < length xs"
  shows "take (length (concat (take (Suc i) xs)) - length (concat (take i xs)))
    (drop (length (concat (take i xs))) (concat xs @ rest)) = xs ! i"
proof -
  have "concat xs = concat (take i xs) @ xs ! i @ concat (drop (Suc i) xs)"
    using arg_cong [OF id_take_nth_drop [OF assms], of concat] by simp
  then show ?thesis using assms by (simp add: take_Suc_conv_app_nth)
qed

lemma offsets_from_slices:
  defines "start xs \<equiv> offsets_from 0 xs @ [length (concat xs)]"
  shows "map (\<lambda>i. take (start xs ! (i + 1) - start xs ! i) (drop (start xs ! i) (concat xs))) [0..<length xs] = xs"
proof (rule nth_equalityI)
  fix i assume "i < length (map (\<lambda>i. take (start xs ! (i + 1) - start xs ! i) (drop (start xs ! i) (concat xs))) [0..<length xs])"
  then have i: "i < length xs" by simp
  have nth: "start xs ! i = length (concat (take i xs))" if "i \<le> length xs" for i
    using nth_offsets_from [OF that, of 0] by (simp add: start_def)
  show "map (\<lambda>i. take (start xs ! (i + 1) - start xs ! i) (drop (start xs ! i) (concat xs))) [0..<length xs] ! i = xs ! i"
    using i concat_slice [OF i, of "[]"] by (simp add: nth)
qed simp

text \<open>The contents of the filter of one range, and the keys of the blocks that start in a range.\<close>

definition filter_of :: "(bytes list \<Rightarrow> bytes \<Rightarrow> bytes) \<Rightarrow> bytes list \<Rightarrow> bytes" where
  "filter_of create keys = (if keys = [] then [] else create keys [])"

definition range_keys :: "(u64 \<times> bytes list) list \<Rightarrow> nat \<Rightarrow> bytes list" where
  "range_keys blocks j = concat (map snd (filter (\<lambda>(offset, _). unat offset div kFilterBase = j) blocks))"

lemma range_keys_Nil [simp]: "range_keys [] j = []"
  by (simp add: range_keys_def)

lemma range_keys_snoc:
  "range_keys (blocks @ [(off, ks)]) j =
     range_keys blocks j @ (if unat off div kFilterBase = j then ks else [])"
  by (simp add: range_keys_def)

lemma range_keys_beyond:
  "(\<And>off ks. (off, ks) \<in> set blocks \<Longrightarrow> unat off div kFilterBase < j) \<Longrightarrow> range_keys blocks j = []"
  by (fastforce simp: range_keys_def)

lemma range_keys_member:
  "(off, ks) \<in> set blocks \<Longrightarrow> key \<in> set ks \<Longrightarrow> key \<in> set (range_keys blocks (unat off div kFilterBase))"
  by (force simp: range_keys_def)

text \<open>
  A builder stands for the key lists of its finished filters and the keys of the range it is in. Every
  operation is simulated on this abstract state.
\<close>

definition builder_rep ::
    "(bytes list \<Rightarrow> bytes \<Rightarrow> bytes) \<Rightarrow> FilterBlockBuilder \<Rightarrow> bytes list list \<Rightarrow> bytes list \<Rightarrow> bool" where
  "builder_rep create b finished pending \<longleftrightarrow>
     fb_result b = concat (map (filter_of create) finished) \<and>
     fb_filter_offsets b = map of_nat (offsets_from 0 (map (filter_of create) finished)) \<and>
     fb_keys b = concat pending \<and> fb_start b = offsets_from 0 pending"

lemma builder_rep_new: "builder_rep create FilterBlockBuilder_new [] []"
  by (simp add: builder_rep_def FilterBlockBuilder_new_def)

lemma builder_rep_AddKey:
  "builder_rep create b finished pending \<Longrightarrow>
   builder_rep create (FilterBlockBuilder_AddKey key b) finished (pending @ [key])"
  by (simp add: builder_rep_def FilterBlockBuilder_AddKey_def)

lemma builder_rep_AddKeys:
  "builder_rep create b finished pending \<Longrightarrow>
   builder_rep create (fold FilterBlockBuilder_AddKey keys b) finished (pending @ keys)"
proof (induction keys arbitrary: b pending)
  case (Cons key keys)
  then show ?case using Cons.IH [OF builder_rep_AddKey [OF Cons.prems]] by simp
qed simp

context filter_policy
begin

lemma builder_rep_GenerateFilter:
  assumes "builder_rep create b finished pending"
  shows "builder_rep create (FilterBlockBuilder_GenerateFilter create b) (finished @ [pending]) []"
proof (cases "pending = []")
  case True
  then show ?thesis
    using assms by (simp add: builder_rep_def FilterBlockBuilder_GenerateFilter_def filter_of_def)
next
  case False
  have "create pending (fb_result b) = fb_result b @ create pending []" by (rule create_append)
  then show ?thesis
    using assms False offsets_from_slices [of pending]
    by (simp add: builder_rep_def FilterBlockBuilder_GenerateFilter_def filter_of_def Let_def)
qed

lemma builder_rep_StartBlock_loop:
  "builder_rep create b finished pending \<Longrightarrow> length finished < i \<Longrightarrow>
   builder_rep create (StartBlock_loop create i b)
     (finished @ pending # replicate (i - length finished - 1) []) []"
proof (induction "i - length finished" arbitrary: b finished pending)
  case (Suc n)
  have len: "length (fb_filter_offsets b) = length finished" using Suc.prems by (simp add: builder_rep_def)
  let ?b = "FilterBlockBuilder_GenerateFilter create b"
  have gen: "builder_rep create ?b (finished @ [pending]) []"
    using Suc.prems builder_rep_GenerateFilter by simp
  have loop: "StartBlock_loop create i b = StartBlock_loop create i ?b"
    using Suc.prems len by (subst StartBlock_loop.simps) simp
  show ?case
  proof (cases "length finished + 1 = i")
    case True
    then have "StartBlock_loop create i ?b = ?b" using len by (subst StartBlock_loop.simps) simp
    then show ?thesis using loop gen True by simp
  next
    case False
    have "builder_rep create (StartBlock_loop create i ?b)
        ((finished @ [pending]) @ [] # replicate (i - length (finished @ [pending]) - 1) []) []"
      using Suc.prems Suc.hyps(2) False by (intro Suc.hyps(1) gen) simp_all
    moreover have "[] # replicate (i - length (finished @ [pending]) - 1) [] = replicate (i - length finished - 1) ([] :: bytes list)"
      using Suc.prems False by (simp flip: replicate_Suc)
    ultimately show ?thesis using loop by simp
  qed
qed simp

lemma builder_rep_Finish:
  assumes "builder_rep create b finished pending"
  defines "fs \<equiv> map (filter_of create) (if pending = [] then finished else finished @ [pending])"
  shows "FilterBlockBuilder_Finish create b =
    concat fs @ concat (map (EncodeFixed32 \<circ> of_nat) (offsets_from 0 fs)) @
    EncodeFixed32 (of_nat (length fs)) @ EncodeFixed32 (of_nat (length (concat fs))) @ [of_nat kFilterBaseLg]"
proof -
  have fold: "fold (\<lambda>offset dst. PutFixed32 dst offset) xs dst = dst @ concat (map EncodeFixed32 xs)" for xs dst
    by (induction xs arbitrary: dst) (simp_all add: PutFixed32_def)
  note fold = fold [unfolded PutFixed32_def]
  have finish: "FilterBlockBuilder_Finish create b = fb_result b' @ concat (map EncodeFixed32 (fb_filter_offsets b')) @
      EncodeFixed32 (of_nat (length (fb_filter_offsets b'))) @ EncodeFixed32 (of_nat (length (fb_result b'))) @ [of_nat kFilterBaseLg]"
    if "b' = (if fb_start b \<noteq> [] then FilterBlockBuilder_GenerateFilter create b else b)" for b'
    by (simp add: FilterBlockBuilder_Finish_def Let_def fold PutFixed32_def that)
  show ?thesis
  proof (cases "pending = []")
    case True
    then show ?thesis using assms(1) finish [of b] by (simp add: builder_rep_def fs_def)
  next
    case False
    then have "fb_start b \<noteq> []" "length (fb_filter_offsets b) = length finished"
      using assms(1) by (simp_all add: builder_rep_def)
    then show ?thesis
      using finish [OF refl] builder_rep_GenerateFilter [OF assms(1)] False
      by (simp add: builder_rep_def fs_def)
  qed
qed

end

lemma FilterBlockReader_new_Finish:
  assumes contents: "contents = concat fs @ concat (map (EncodeFixed32 \<circ> of_nat) (offsets_from 0 fs)) @
      EncodeFixed32 (of_nat (length fs)) @ EncodeFixed32 (of_nat (length (concat fs))) @ [of_nat kFilterBaseLg]"
    and bound: "length contents < 2 ^ 32"
  shows "FilterBlockReader_new contents = Some \<lparr> fr_data = contents, fr_base_lg = kFilterBaseLg,
    fr_size = length contents, fr_filter_offsets = map of_nat (offsets_from 0 fs),
    fr_filter_size = of_nat (length (concat fs)) \<rparr>"
proof -
  define offs where "offs = concat (map (EncodeFixed32 \<circ> of_nat) (offsets_from 0 fs))"
  have len_offs: "length offs = 4 * length fs"
    by (simp add: offs_def length_concat o_def sum_list_triv)
  have len: "length contents = length (concat fs) + 4 * length fs + 9"
    unfolding contents by (fold offs_def) (simp add: len_offs)
  have fits: "length (concat fs) < 2 ^ 32" "length fs < 2 ^ 32" using bound len by simp_all
  have "drop (length contents - 5) contents = EncodeFixed32 (of_nat (length (concat fs))) @ [of_nat kFilterBaseLg]"
    "drop (length contents - 9) contents = EncodeFixed32 (of_nat (length fs)) @
       EncodeFixed32 (of_nat (length (concat fs))) @ [of_nat kFilterBaseLg]"
    unfolding len by (simp_all add: contents offs_def [symmetric] len_offs)
  moreover have "contents ! (length contents - 1) = of_nat kFilterBaseLg"
    unfolding len by (simp add: contents offs_def [symmetric] len_offs nth_append)
  moreover have "unat (of_nat (length (concat fs)) + of_nat (length fs) * 4 + 4 + 4 + 1 :: u32) = length contents"
  proof -
    have "(of_nat (length (concat fs)) + of_nat (length fs) * 4 + 4 + 4 + 1 :: u32) = of_nat (length contents)"
      by (simp add: len)
    then show ?thesis using bound by (simp add: unat_of_nat take_bit_nat_eq_self)
  qed
  moreover have "decode_n (length fs) DecodeFixed32 (drop (length (concat fs)) contents) =
      Some (map of_nat (offsets_from 0 fs), EncodeFixed32 (of_nat (length fs)) @
       EncodeFixed32 (of_nat (length (concat fs))) @ [of_nat kFilterBaseLg])"
    using fixed32.decode_n_enc [of "map of_nat (offsets_from 0 fs)"]
    by (simp add: contents offs_def [symmetric]) (simp add: offs_def list_all_iff o_def)
  ultimately show ?thesis
    using fits len by (simp add: FilterBlockReader_new_def Let_def DecodeFixed32_ptr_Encode unat_of_nat take_bit_nat_eq_self)
qed

lemma FilterBlockReader_KeyMayMatch_nth:
  assumes i: "unat off div kFilterBase = i" "i < length fs" and bound: "length (concat fs) < 2 ^ 32"
    and r: "fr_data r = concat fs @ rest" "fr_filter_offsets r = map of_nat (offsets_from 0 fs)"
      "fr_filter_size r = of_nat (length (concat fs))"
  shows "FilterBlockReader_KeyMayMatch may_match off key r = may_match key (fs ! i)"
proof -
  let ?off = "\<lambda>i. length (concat (take i fs))"
  have off: "offsets_from 0 fs ! j = ?off j" if "j < length fs" for j
    using nth_offsets_from [of j fs 0] that by (simp add: nth_append)
  have le: "?off j \<le> length (concat fs)" for j
    by (metis append_take_drop_id concat_append length_append le_add1)
  have mono: "?off i \<le> ?off (Suc i)" using i by (simp add: take_Suc_conv_app_nth)
  have "unat (of_nat (?off (Suc i)) - of_nat (?off i) :: u32) = ?off (Suc i) - ?off i"
    using mono le [of "Suc i"] bound by (simp flip: of_nat_diff)
  moreover have "unat (of_nat (?off i) :: u32) = ?off i" using le [of i] bound by simp
  moreover have "FilterBlockReader_KeyMayMatch may_match off key r =
      may_match key (take (unat (of_nat (?off (Suc i)) - of_nat (?off i) :: u32)) (drop (unat (of_nat (?off i) :: u32)) (concat fs @ rest)))"
  proof (cases "Suc i < length fs")
    case True
    then show ?thesis using i by (simp add: FilterBlockReader_KeyMayMatch_def r off Let_def)
  next
    case False
    then have "take (Suc i) fs = fs" by simp
    then show ?thesis using i False by (simp add: FilterBlockReader_KeyMayMatch_def r off Let_def)
  qed
  ultimately show ?thesis using concat_slice [OF i(2), of rest] by simp
qed

text \<open>The calls the table builder makes: each block is started at its offset and its keys are added.\<close>

fun add_blocks :: "(bytes list \<Rightarrow> bytes \<Rightarrow> bytes) \<Rightarrow> (u64 \<times> bytes list) list \<Rightarrow> FilterBlockBuilder \<Rightarrow>
    FilterBlockBuilder option" where
  "add_blocks create [] b = Some b"
| "add_blocks create ((offset, keys) # blocks) b =
     do { b \<leftarrow> FilterBlockBuilder_StartBlock create offset b;
          add_blocks create blocks (fold FilterBlockBuilder_AddKey keys b) }"

text \<open>The keys of the blocks so far, range by range.\<close>

definition holds_ranges :: "(u64 \<times> bytes list) list \<Rightarrow> bytes list list \<Rightarrow> bytes list \<Rightarrow> bool" where
  "holds_ranges blocks finished pending \<longleftrightarrow>
     (\<forall>j\<le>length finished. (finished @ [pending]) ! j = range_keys blocks j) \<and>
     (\<forall>(off, _)\<in>set blocks. unat off div kFilterBase \<le> length finished)"

lemma holds_ranges_advance:
  assumes "holds_ranges blocks finished pending" "length finished < i"
  shows "holds_ranges blocks (finished @ pending # replicate (i - length finished - 1) []) []"
proof -
  have "((finished @ pending # replicate (i - length finished - 1) []) @ [[]]) ! j = range_keys blocks j"
    if "j \<le> i" for j
  proof (cases "j \<le> length finished")
    case True
    then show ?thesis using assms by (auto simp: holds_ranges_def nth_append nth_Cons')
  next
    case False
    then have "range_keys blocks j = []"
      using assms(1) by (intro range_keys_beyond) (fastforce simp: holds_ranges_def)
    then show ?thesis using False that by (auto simp: nth_append nth_Cons')
  qed
  then show ?thesis using assms by (fastforce simp: holds_ranges_def)
qed

lemma holds_ranges_add:
  assumes "holds_ranges blocks finished pending" "unat off div kFilterBase = length finished"
  shows "holds_ranges (blocks @ [(off, ks)]) finished (pending @ ks)"
  proof -
  have "(finished @ [pending @ ks]) ! j = range_keys (blocks @ [(off, ks)]) j" if "j \<le> length finished" for j
  proof -
    have "(finished @ [pending]) ! j = range_keys blocks j" using assms(1) that by (simp add: holds_ranges_def)
    then show ?thesis
      using assms(2) that by (cases "j = length finished") (simp_all add: range_keys_snoc nth_append)
  qed
  then show ?thesis using assms by (auto simp: holds_ranges_def)
qed

context filter_policy
begin

lemma StartBlock_rep:
  assumes "builder_rep create b finished pending" "holds_ranges blocks finished pending"
    and i: "length finished \<le> unat off div kFilterBase"
  shows "\<exists>b' finished' pending'. FilterBlockBuilder_StartBlock create off b = Some b' \<and>
    builder_rep create b' finished' pending' \<and> holds_ranges blocks finished' pending' \<and>
    length finished' = unat off div kFilterBase"
proof -
  let ?i = "unat off div kFilterBase"
  have len: "length (fb_filter_offsets b) = length finished" using assms(1) by (simp add: builder_rep_def)
  then have start: "FilterBlockBuilder_StartBlock create off b = Some (StartBlock_loop create ?i b)"
    using i by (simp add: FilterBlockBuilder_StartBlock_def)
  show ?thesis
  proof (cases "length finished = ?i")
    case True
    then have "StartBlock_loop create ?i b = b" using len by (subst StartBlock_loop.simps) simp
    then show ?thesis using start assms True by auto
  next
    case False
    then have lt: "length finished < ?i" using i by simp
    show ?thesis
      using start builder_rep_StartBlock_loop [OF assms(1) lt] holds_ranges_advance [OF assms(2) lt] lt
      by (intro exI conjI) auto
  qed
qed

lemma add_blocks_rep:
  "builder_rep create b finished pending \<Longrightarrow> holds_ranges past finished pending \<Longrightarrow> sorted (map fst blocks) \<Longrightarrow>
   \<forall>(off, _)\<in>set blocks. length finished \<le> unat off div kFilterBase \<Longrightarrow>
   \<exists>b' finished' pending'. add_blocks create blocks b = Some b' \<and> builder_rep create b' finished' pending' \<and>
     holds_ranges (past @ blocks) finished' pending'"
proof (induction blocks arbitrary: b past finished pending)
  case (Cons block blocks)
  obtain off keys where block: "block = (off, keys)" by (cases block)
  obtain b1 f1 p1 where b1: "FilterBlockBuilder_StartBlock create off b = Some b1"
      "builder_rep create b1 f1 p1" "holds_ranges past f1 p1" "length f1 = unat off div kFilterBase"
    using StartBlock_rep [OF Cons.prems(1,2), of off] Cons.prems(4) block by auto
  have "holds_ranges (past @ [(off, keys)]) f1 (p1 @ keys)"
    using b1 by (intro holds_ranges_add) simp_all
  moreover have "\<forall>(off', _)\<in>set blocks. length f1 \<le> unat off' div kFilterBase"
  proof -
    have "off \<le> fst x" if "x \<in> set blocks" for x using Cons.prems(3) block that by auto
    then show ?thesis using b1(4) by (auto simp: word_le_nat_alt intro!: div_le_mono)
  qed
  ultimately obtain b2 f2 p2 where "add_blocks create blocks (fold FilterBlockBuilder_AddKey keys b1) = Some b2"
      "builder_rep create b2 f2 p2" "holds_ranges ((past @ [(off, keys)]) @ blocks) f2 p2"
    using Cons.IH [OF builder_rep_AddKeys [OF b1(2), of keys], where past = "past @ [(off, keys)]"] Cons.prems(3) by auto
  then show ?case using b1(1) block by auto
qed auto

lemma filter_block_spec:
  assumes "sorted (map fst blocks)"
  shows "\<exists>b. add_blocks create blocks FilterBlockBuilder_new = Some b \<and>
    (length (FilterBlockBuilder_Finish create b) < 2 ^ 32 \<longrightarrow>
     (\<exists>r. FilterBlockReader_new (FilterBlockBuilder_Finish create b) = Some r \<and>
       (\<forall>off ks key. (off, ks) \<in> set blocks \<longrightarrow> key \<in> set ks \<longrightarrow> FilterBlockReader_KeyMayMatch may_match off key r) \<and>
       (\<forall>off key. range_keys blocks (unat off div kFilterBase) \<noteq> [] \<longrightarrow>
          FilterBlockReader_KeyMayMatch may_match off key r =
          may_match key (create (range_keys blocks (unat off div kFilterBase)) []))))"
proof -
  have "holds_ranges [] [] []" by (simp add: holds_ranges_def)
  then obtain b fin pend where b: "add_blocks create blocks FilterBlockBuilder_new = Some b"
      "builder_rep create b fin pend" "holds_ranges blocks fin pend"
    using add_blocks_rep [OF builder_rep_new _ assms, of "[]"] by auto
  define kss where "kss = (if pend = [] then fin else fin @ [pend])"
  let ?fs = "map (filter_of create) kss"
  let ?c = "FilterBlockBuilder_Finish create b"
  have nth: "j < length kss \<and> kss ! j = range_keys blocks j" if ne: "range_keys blocks j \<noteq> []" for j
  proof -
    have j: "j \<le> length fin"
    proof (rule ccontr)
      assume "\<not> j \<le> length fin"
      then have "range_keys blocks j = []"
        using b(3) by (intro range_keys_beyond) (fastforce simp: holds_ranges_def)
      with ne show False ..
    qed
    then have eq: "(fin @ [pend]) ! j = range_keys blocks j" using b(3) by (simp add: holds_ranges_def)
    show ?thesis using j eq ne by (auto simp: kss_def nth_append split: if_splits)
  qed
  have finish: "?c = concat ?fs @ concat (map (EncodeFixed32 \<circ> of_nat) (offsets_from 0 ?fs)) @
      EncodeFixed32 (of_nat (length ?fs)) @ EncodeFixed32 (of_nat (length (concat ?fs))) @ [of_nat kFilterBaseLg]"
    using builder_rep_Finish [OF b(2)] by (simp add: kss_def)
  {
    assume bound: "length ?c < 2 ^ 32"
    obtain r where r: "FilterBlockReader_new ?c = Some r" "fr_data r = ?c"
        "fr_filter_offsets r = map of_nat (offsets_from 0 ?fs)" "fr_filter_size r = of_nat (length (concat ?fs))"
      using FilterBlockReader_new_Finish [OF finish bound] by simp
    have answer: "FilterBlockReader_KeyMayMatch may_match off key r =
        may_match key (create (range_keys blocks (unat off div kFilterBase)) [])"
      if ne: "range_keys blocks (unat off div kFilterBase) \<noteq> []" for off key
    proof -
      let ?j = "unat off div kFilterBase"
      have j: "?j < length ?fs" "?fs ! ?j = create (range_keys blocks ?j) []"
        using nth [OF ne] ne by (simp_all add: filter_of_def)
      have "length (concat ?fs) < 2 ^ 32" using bound unfolding finish by simp
      from FilterBlockReader_KeyMayMatch_nth [OF refl j(1) this r(2) [unfolded finish] r(3,4)]
      show ?thesis using j(2) by simp
    qed
    have "FilterBlockReader_KeyMayMatch may_match off key r" if "(off, ks) \<in> set blocks" "key \<in> set ks" for off ks key
    proof -
      have mem: "key \<in> set (range_keys blocks (unat off div kFilterBase))" using that by (rule range_keys_member)
      then have "range_keys blocks (unat off div kFilterBase) \<noteq> []" by auto
      then show ?thesis using answer [of off key] no_false_negative [OF mem] by simp
    qed
    then have "\<exists>r. FilterBlockReader_new ?c = Some r \<and>
       (\<forall>off ks key. (off, ks) \<in> set blocks \<longrightarrow> key \<in> set ks \<longrightarrow> FilterBlockReader_KeyMayMatch may_match off key r) \<and>
       (\<forall>off key. range_keys blocks (unat off div kFilterBase) \<noteq> [] \<longrightarrow>
          FilterBlockReader_KeyMayMatch may_match off key r =
          may_match key (create (range_keys blocks (unat off div kFilterBase)) []))"
      using r(1) answer by blast
  }
  then show ?thesis using b(1) by blast
qed

end

text \<open>
  (C27) The Bloom filter of a table block has no false negatives, and it answers exactly by its probes: a key
  matches the filter of a set of keys just when each of its probe positions is a probe position of one of
  them. In particular every key of the set matches.
\<close>

theorem bloom_no_false_negatives:
  "(\<forall>key\<in>set keys. Bloom_KeyMayMatch key (Bloom_CreateFilter n keys [])) \<and>
   (\<forall>key bits. bits = (max 64 (length keys * n) + 7) div 8 * 8 \<longrightarrow>
      Bloom_KeyMayMatch key (Bloom_CreateFilter n keys []) =
      (\<forall>j<Bloom_k n. \<exists>key'\<in>set keys. \<exists>i<Bloom_k n.
         unat (BloomHash key + of_nat j * Bloom_delta (BloomHash key)) mod bits =
         unat (BloomHash key' + of_nat i * Bloom_delta (BloomHash key')) mod bits))"
  using bloom.no_false_negative Bloom_KeyMayMatch_iff by blast

theorem bloom_no_false_negatives_witness:
  "Bloom_KeyMayMatch [1, 2] (Bloom_CreateFilter 10 [[1, 2], [3]] [])"
  by (rule bspec [OF conjunct1 [OF bloom_no_false_negatives]]) simp

text \<open>
  (C2) The filter block a table builder writes has no false negatives. When the blocks of a table are started in
  the order of their offsets, no assertion of the builder fails; the reader accepts the finished block; every
  key of a block is reported as possibly present for the offset of that block; and the answer for an offset is
  that of one filter on exactly the keys of the blocks that start in the same range of 2 KB.
\<close>

theorem filter_block_sound:
  assumes "sorted (map fst blocks)"
  shows "\<exists>b. add_blocks (InternalFilterPolicy_CreateFilter (Bloom_CreateFilter n)) blocks FilterBlockBuilder_new = Some b \<and>
    (length (FilterBlockBuilder_Finish (InternalFilterPolicy_CreateFilter (Bloom_CreateFilter n)) b) < 2 ^ 32 \<longrightarrow>
     (\<exists>r. FilterBlockReader_new (FilterBlockBuilder_Finish (InternalFilterPolicy_CreateFilter (Bloom_CreateFilter n)) b) = Some r \<and>
       (\<forall>off ks key. (off, ks) \<in> set blocks \<longrightarrow> key \<in> set ks \<longrightarrow>
          FilterBlockReader_KeyMayMatch (InternalFilterPolicy_KeyMayMatch Bloom_KeyMayMatch) off key r) \<and>
       (\<forall>off key. range_keys blocks (unat off div kFilterBase) \<noteq> [] \<longrightarrow>
          FilterBlockReader_KeyMayMatch (InternalFilterPolicy_KeyMayMatch Bloom_KeyMayMatch) off key r =
          InternalFilterPolicy_KeyMayMatch Bloom_KeyMayMatch key
            (InternalFilterPolicy_CreateFilter (Bloom_CreateFilter n) (range_keys blocks (unat off div kFilterBase)) []))))"
  using assms by (rule internal_bloom.filter_block_spec)

theorem filter_block_sound_witness:
  "\<exists>b. add_blocks (InternalFilterPolicy_CreateFilter (Bloom_CreateFilter 10)) [(0, [replicate 9 1]), (5000, [replicate 9 2])]
     FilterBlockBuilder_new = Some b \<and> length (fb_filter_offsets b) = 2"
proof -
  let ?bl = "[(0, [replicate 9 1]), (5000, [replicate 9 2])] :: (u64 \<times> bytes list) list"
  have "sorted (map fst ?bl)" by simp
  from filter_block_sound [OF this, of 10] obtain b where
    "add_blocks (InternalFilterPolicy_CreateFilter (Bloom_CreateFilter 10)) ?bl FilterBlockBuilder_new = Some b"
    by blast
  moreover from this have "length (fb_filter_offsets b) = 2"
    by (auto simp: FilterBlockBuilder_StartBlock_def StartBlock_loop.simps kFilterBase_def kFilterBaseLg_def
        FilterBlockBuilder_new_def FilterBlockBuilder_AddKey_def split: if_splits)
  ultimately show ?thesis by blast
qed

end
