(* ===== verification/Blocks.thy ===== *)
theory Blocks
  imports DBFormat YCSBComparator Status
begin

text \<open>
  Data blocks: \<^verbatim>\<open>table/block_builder.cc\<close>, which writes sorted entries with shared key prefixes and restart
  points, and \<^verbatim>\<open>table/block.cc\<close>, whose iterator moves over them in both directions and seeks by binary
  search. Offsets in a block are natural numbers: a block is smaller than 4 GB, so the 32-bit offsets of the
  code do not wrap. \<open>None\<close> is a failed assertion or a read outside the block.
\<close>

subsection \<open>Building a block\<close>

record BlockBuilder =
  bb_buffer :: bytes
  bb_restarts :: "u32 list"
  bb_counter :: nat
  bb_finished :: bool
  bb_last_key :: bytes

definition BlockBuilder_new :: BlockBuilder where
  "BlockBuilder_new = \<lparr> bb_buffer = [], bb_restarts = [0], bb_counter = 0, bb_finished = False, bb_last_key = [] \<rparr>"

definition BlockBuilder_Reset :: "BlockBuilder \<Rightarrow> BlockBuilder" where
  "BlockBuilder_Reset b =
     b \<lparr> bb_buffer := [], bb_restarts := [0], bb_counter := 0, bb_finished := False, bb_last_key := [] \<rparr>"

definition BlockBuilder_CurrentSizeEstimate :: "BlockBuilder \<Rightarrow> nat" where
  "BlockBuilder_CurrentSizeEstimate b = length (bb_buffer b) + length (bb_restarts b) * 4 + 4"

definition BlockBuilder_Finish :: "BlockBuilder \<Rightarrow> bytes \<times> BlockBuilder" where
  "BlockBuilder_Finish b =
     (let buffer = fold (\<lambda>r buffer. PutFixed32 buffer r) (bb_restarts b) (bb_buffer b);
          buffer = PutFixed32 buffer (of_nat (length (bb_restarts b)))
      in (buffer, b \<lparr> bb_buffer := buffer, bb_finished := True \<rparr>))"

text \<open>The loop that counts shared bytes, up to the length of the shorter string.\<close>

fun shared_prefix :: "bytes \<Rightarrow> bytes \<Rightarrow> nat" where
  "shared_prefix (x # xs) (y # ys) = (if x = y then Suc (shared_prefix xs ys) else 0)"
| "shared_prefix _ _ = 0"

definition BlockBuilder_Add ::
    "(bytes \<Rightarrow> bytes \<Rightarrow> int) \<Rightarrow> nat \<Rightarrow> bytes \<Rightarrow> bytes \<Rightarrow> BlockBuilder \<Rightarrow> BlockBuilder option" where
  "BlockBuilder_Add cmp block_restart_interval key v b =
     (if bb_finished b \<or> bb_counter b > block_restart_interval \<or>
         \<not> (bb_buffer b = [] \<or> cmp key (bb_last_key b) > 0) then None
      else
        let (shared, restarts, counter) =
              (if bb_counter b < block_restart_interval then (shared_prefix (bb_last_key b) key, bb_restarts b, bb_counter b)
               else (0, bb_restarts b @ [of_nat (length (bb_buffer b))], 0));
            non_shared = length key - shared;
            buffer = PutVarint32 (bb_buffer b) (of_nat shared);
            buffer = PutVarint32 buffer (of_nat non_shared);
            buffer = PutVarint32 buffer (of_nat (length v));
            buffer = buffer @ drop shared key @ v;
            last_key = take shared (bb_last_key b) @ drop shared key
        in if last_key \<noteq> key then None
           else Some (b \<lparr> bb_buffer := buffer, bb_restarts := restarts, bb_counter := counter + 1, bb_last_key := last_key \<rparr>))"

subsection \<open>Reading a block\<close>

record Block =
  blk_data :: bytes
  blk_size :: nat
  blk_restart_offset :: nat

definition Block_NumRestarts :: "bytes \<Rightarrow> nat \<Rightarrow> u32 option" where
  "Block_NumRestarts data sz = (if sz \<ge> 4 then DecodeFixed32_ptr (drop (sz - 4) data) else None)"

definition Block_new :: "bytes \<Rightarrow> Block" where
  "Block_new contents =
     (let sz = length contents; error = \<lparr> blk_data = contents, blk_size = 0, blk_restart_offset = 0 \<rparr> in
      case Block_NumRestarts contents sz of
        None \<Rightarrow> error
      | Some n \<Rightarrow>
          let max_restarts_allowed = (sz - 4) div 4 in
          if unat n > max_restarts_allowed then error
          else \<lparr> blk_data = contents, blk_size = sz, blk_restart_offset = sz - (1 + unat n) * 4 \<rparr>)"

text \<open>
  Decodes the three lengths of the entry at the start of the bytes up to the limit. The result has the rest of the
  bytes after the lengths.
\<close>

definition DecodeEntry :: "bytes \<Rightarrow> (u32 \<times> u32 \<times> u32 \<times> bytes) option" where
  "DecodeEntry p =
     (if length p < 3 then None
      else do {
        (shared, non_shared, value_length, p) \<leftarrow>
          (if (p ! 0 OR p ! 1 OR p ! 2) < 128 then Some (ucast (p ! 0), ucast (p ! 1), ucast (p ! 2), drop 3 p)
           else do {
             (shared, p) \<leftarrow> GetVarint32Ptr p;
             (non_shared, p) \<leftarrow> GetVarint32Ptr p;
             (value_length, p) \<leftarrow> GetVarint32Ptr p;
             Some (shared, non_shared, value_length, p) });
        if length p < unat (non_shared + value_length) then None
        else Some (shared, non_shared, value_length, p) })"

text \<open>
  The iterator. The value is the offset and the length of a slice of the block; \<open>None\<close> when it does not point
  into the block.
\<close>

record BlockIter =
  it_data :: bytes
  it_restarts :: nat
  it_num_restarts :: nat
  it_current :: nat
  it_restart_index :: nat
  it_key :: bytes
  it_value :: "(nat \<times> nat) option"
  it_status :: status
  it_seeked :: bool

definition BlockIter_new :: "bytes \<Rightarrow> nat \<Rightarrow> nat \<Rightarrow> BlockIter option" where
  "BlockIter_new data restarts num_restarts =
     (if num_restarts > 0
      then Some \<lparr> it_data = data, it_restarts = restarts, it_num_restarts = num_restarts, it_current = restarts,
        it_restart_index = num_restarts, it_key = [], it_value = None, it_status = Status_OK, it_seeked = False \<rparr>
      else None)"

definition BlockIter_Valid :: "BlockIter \<Rightarrow> bool" where
  "BlockIter_Valid it \<longleftrightarrow> it_current it < it_restarts it"

definition BlockIter_key :: "BlockIter \<Rightarrow> bytes option" where
  "BlockIter_key it = (if BlockIter_Valid it then Some (it_key it) else None)"

definition BlockIter_value :: "BlockIter \<Rightarrow> bytes option" where
  "BlockIter_value it =
     (case it_value it of
        Some (off, len) \<Rightarrow>
          if BlockIter_Valid it \<and> off + len \<le> length (it_data it) then Some (take len (drop off (it_data it))) else None
      | None \<Rightarrow> None)"

definition NextEntryOffset :: "BlockIter \<Rightarrow> nat option" where
  "NextEntryOffset it = map_option (\<lambda>(off, len). off + len) (it_value it)"

definition GetRestartPoint :: "BlockIter \<Rightarrow> nat \<Rightarrow> nat option" where
  "GetRestartPoint it index =
     (if index < it_num_restarts it then map_option unat (DecodeFixed32_ptr (drop (it_restarts it + index * 4) (it_data it)))
      else None)"

definition SeekToRestartPoint :: "BlockIter \<Rightarrow> nat \<Rightarrow> BlockIter option" where
  "SeekToRestartPoint it index =
     do { offset \<leftarrow> GetRestartPoint it index;
          Some (it \<lparr> it_key := [], it_restart_index := index, it_value := Some (offset, 0) \<rparr>) }"

definition CorruptionError :: "BlockIter \<Rightarrow> BlockIter" where
  "CorruptionError it =
     it \<lparr> it_current := it_restarts it, it_restart_index := it_num_restarts it,
          it_status := Status_Corruption (cstr ''bad entry in block'') [], it_key := [], it_value := None \<rparr>"

text \<open>The loop at the end of \<^verbatim>\<open>ParseNextKey\<close>, that moves to the restart block of the entry.\<close>

function advance_restart_index :: "BlockIter \<Rightarrow> BlockIter option" where
  "advance_restart_index it =
     (if it_restart_index it + 1 < it_num_restarts it then
        (case GetRestartPoint it (it_restart_index it + 1) of
           None \<Rightarrow> None
         | Some r \<Rightarrow>
             if r < it_current it then advance_restart_index (it \<lparr> it_restart_index := it_restart_index it + 1 \<rparr>)
             else Some it)
      else Some it)"
  by pat_completeness auto
termination
  by (relation "measure (\<lambda>it. it_num_restarts it - it_restart_index it)") auto

declare advance_restart_index.simps [simp del]

definition ParseNextKey :: "BlockIter \<Rightarrow> (bool \<times> BlockIter) option" where
  "ParseNextKey it =
     do {
       current \<leftarrow> NextEntryOffset it;
       let it = it \<lparr> it_current := current \<rparr>;
       if current \<ge> it_restarts it then
         Some (False, it \<lparr> it_current := it_restarts it, it_restart_index := it_num_restarts it \<rparr>)
       else let limit = take (it_restarts it - current) (drop current (it_data it)) in
       case DecodeEntry limit of
         None \<Rightarrow> Some (False, CorruptionError it)
       | Some (shared, non_shared, value_length, p) \<Rightarrow>
           if length (it_key it) < unat shared then Some (False, CorruptionError it)
           else
             let p_offset = it_restarts it - length p in
             if p_offset + unat non_shared > length (it_data it) then None
             else do {
               it \<leftarrow> advance_restart_index (it \<lparr>
                 it_key := take (unat shared) (it_key it) @ take (unat non_shared) (drop p_offset (it_data it)),
                 it_value := Some (p_offset + unat non_shared, unat value_length) \<rparr>);
               Some (True, it) } }"


lemma advance_restart_index_fields:
  "advance_restart_index it = Some it' \<Longrightarrow>
   \<exists>i. it' = it \<lparr> it_restart_index := i \<rparr> \<and> (it_restart_index it < it_num_restarts it \<longrightarrow> i < it_num_restarts it)"
proof (induction it rule: advance_restart_index.induct)
  case (1 it)
  show ?case
  proof (cases "it_restart_index it + 1 < it_num_restarts it \<and>
      (\<exists>r. GetRestartPoint it (it_restart_index it + 1) = Some r \<and> r < it_current it)")
    case True
    then obtain r where r: "it_restart_index it + 1 < it_num_restarts it"
        "GetRestartPoint it (it_restart_index it + 1) = Some r" "r < it_current it" by auto
    then have "advance_restart_index (it \<lparr> it_restart_index := it_restart_index it + 1 \<rparr>) = Some it'"
      using 1(2) by (simp add: advance_restart_index.simps [of it])
    from 1(1) [OF r this] r(1) show ?thesis by auto
  next
    case False
    then have "it' = it" using 1(2) by (auto simp: advance_restart_index.simps [of it] split: if_splits option.splits)
    then show ?thesis by (intro exI [of _ "it_restart_index it"]) simp
  qed
qed

lemma GetVarint32Ptr_shortens: "GetVarint32Ptr p = Some (v, q) \<Longrightarrow> length q < length p"
proof -
  have "GetVarint32PtrFallback_loop shift result p = Some (v, q) \<Longrightarrow> length q < length p" for shift result
    by (induction shift result p rule: GetVarint32PtrFallback_loop.induct)
      (auto simp: Let_def split: if_splits)
  then show "GetVarint32Ptr p = Some (v, q) \<Longrightarrow> length q < length p"
    by (auto simp: GetVarint32Ptr_eq_Fallback GetVarint32PtrFallback_def)
qed

lemma DecodeEntry_length: "DecodeEntry p = Some (shared, non_shared, value_length, q) \<Longrightarrow> length q + 3 \<le> length p"
  by (auto simp: DecodeEntry_def split: if_splits Option.bind_splits dest!: GetVarint32Ptr_shortens)

lemma ParseNextKey_progress:
  assumes "ParseNextKey it = Some (True, it')"
  shows "\<exists>off off'. NextEntryOffset it = Some off \<and> NextEntryOffset it' = Some off' \<and> off < it_restarts it \<and> off < off' \<and>
    it_restarts it' = it_restarts it"
proof -
  obtain off shared ns vl p where off: "NextEntryOffset it = Some off" "off < it_restarts it"
    and dec: "DecodeEntry (take (it_restarts it - off) (drop off (it_data it))) = Some (shared, ns, vl, p)"
    and adv: "advance_restart_index (it \<lparr> it_current := off,
        it_key := take (unat shared) (it_key it) @ take (unat ns) (drop (it_restarts it - length p) (it_data it)),
        it_value := Some (it_restarts it - length p + unat ns, unat vl) \<rparr>) = Some it'"
    using assms by (auto simp: ParseNextKey_def Let_def not_le split: if_splits Option.bind_splits option.splits prod.splits)
  from advance_restart_index_fields [OF adv] obtain i where
    "NextEntryOffset it' = Some (it_restarts it - length p + unat ns + unat vl)" "it_restarts it' = it_restarts it"
    by (auto simp: NextEntryOffset_def)
  moreover have "length p + 3 \<le> it_restarts it - off" using DecodeEntry_length [OF dec] by simp
  ultimately show ?thesis using off by auto
qed

text \<open>The remaining bytes of the entries, which every parsed key makes fewer.\<close>

definition remaining :: "BlockIter \<Rightarrow> nat" where
  "remaining it = (case NextEntryOffset it of Some off \<Rightarrow> it_restarts it - off | None \<Rightarrow> 0)"

lemma remaining_ParseNextKey: "ParseNextKey it = Some (True, it') \<Longrightarrow> remaining it' < remaining it"
  using ParseNextKey_progress by (fastforce simp: remaining_def)

text \<open>The loop that parses while the end of the entry is below an offset, used by \<^verbatim>\<open>Prev\<close> and \<^verbatim>\<open>SeekToLast\<close>.\<close>

function parse_until :: "nat \<Rightarrow> BlockIter \<Rightarrow> BlockIter option" where
  "parse_until original it =
     (case ParseNextKey it of
        None \<Rightarrow> None
      | Some (found, it') \<Rightarrow>
          if found \<and> (case NextEntryOffset it' of Some off \<Rightarrow> off < original | None \<Rightarrow> False)
          then parse_until original it' else Some it')"
  by pat_completeness auto
termination
  by (relation "measure (\<lambda>(original, it). remaining it)") (auto intro: remaining_ParseNextKey)

text \<open>The loops of \<^verbatim>\<open>Prev\<close>, \<^verbatim>\<open>Seek\<close> and \<^verbatim>\<open>SkipToNextUserKey\<close>.\<close>

fun scan_restarts_back :: "BlockIter \<Rightarrow> nat \<Rightarrow> nat \<Rightarrow> nat option option" where
  "scan_restarts_back it original index =
     (case GetRestartPoint it index of
        None \<Rightarrow> None
      | Some r \<Rightarrow>
          if r \<ge> original then (case index of 0 \<Rightarrow> Some None | Suc i \<Rightarrow> scan_restarts_back it original i)
          else Some (Some index))"

function seek_restart :: "(bytes \<Rightarrow> bytes \<Rightarrow> int) \<Rightarrow> bytes \<Rightarrow> BlockIter \<Rightarrow> nat \<Rightarrow> nat \<Rightarrow> nat option option" where
  "seek_restart cmp target it left right =
     (if left < right then
        let mid = (left + right + 1) div 2 in
        case GetRestartPoint it mid of
          None \<Rightarrow> None
        | Some region_offset \<Rightarrow>
            (case DecodeEntry (take (it_restarts it - region_offset) (drop region_offset (it_data it))) of
               None \<Rightarrow> Some None
             | Some (shared, non_shared, value_length, p) \<Rightarrow>
                 if shared \<noteq> 0 then Some None
                 else let key_offset = it_restarts it - length p in
                 if key_offset + unat non_shared > length (it_data it) then None
                 else if cmp (take (unat non_shared) (drop key_offset (it_data it))) target < 0
                 then seek_restart cmp target it mid right
                 else seek_restart cmp target it left (mid - 1))
      else Some (Some left))"
  by pat_completeness auto
termination
  by (relation "measure (\<lambda>(cmp, target, it, left, right). right - left)") auto

function seek_linear :: "(bytes \<Rightarrow> bytes \<Rightarrow> int) \<Rightarrow> bytes \<Rightarrow> BlockIter \<Rightarrow> BlockIter option" where
  "seek_linear cmp target it =
     (case ParseNextKey it of
        None \<Rightarrow> None
      | Some (found, it') \<Rightarrow>
          if found \<and> \<not> cmp (it_key it') target \<ge> 0 then seek_linear cmp target it' else Some it')"
  by pat_completeness auto
termination
  by (relation "measure (\<lambda>(cmp, target, it). remaining it)") (auto intro: remaining_ParseNextKey)

declare parse_until.simps [simp del] scan_restarts_back.simps [simp del] seek_restart.simps [simp del] seek_linear.simps [simp del]

definition BlockIter_Next :: "BlockIter \<Rightarrow> BlockIter option" where
  "BlockIter_Next it = (if BlockIter_Valid it then map_option snd (ParseNextKey it) else None)"

definition BlockIter_Prev :: "BlockIter \<Rightarrow> BlockIter option" where
  "BlockIter_Prev it =
     (if BlockIter_Valid it then
        (let original = it_current it in
         case scan_restarts_back it original (it_restart_index it) of
           None \<Rightarrow> None
         | Some None \<Rightarrow> Some (it \<lparr> it_current := it_restarts it, it_restart_index := it_num_restarts it \<rparr>)
         | Some (Some index) \<Rightarrow>
             do { it \<leftarrow> SeekToRestartPoint (it \<lparr> it_restart_index := index \<rparr>) index; parse_until original it })
      else None)"

definition BlockIter_Seek :: "(bytes \<Rightarrow> bytes \<Rightarrow> int) \<Rightarrow> bytes \<Rightarrow> BlockIter \<Rightarrow> BlockIter option" where
  "BlockIter_Seek cmp target it =
     (let it = it \<lparr> it_seeked := True \<rparr> in
      case seek_restart cmp target it 0 (it_num_restarts it - 1) of
        None \<Rightarrow> None
      | Some None \<Rightarrow> Some (CorruptionError it)
      | Some (Some left) \<Rightarrow> do { it \<leftarrow> SeekToRestartPoint it left; seek_linear cmp target it })"

definition BlockIter_SeekToFirst :: "BlockIter \<Rightarrow> BlockIter option" where
  "BlockIter_SeekToFirst it =
     do { it \<leftarrow> SeekToRestartPoint (it \<lparr> it_seeked := True \<rparr>) 0; map_option snd (ParseNextKey it) }"

definition BlockIter_SeekToLast :: "BlockIter \<Rightarrow> BlockIter option" where
  "BlockIter_SeekToLast it =
     do { it \<leftarrow> SeekToRestartPoint (it \<lparr> it_seeked := True \<rparr>) (it_num_restarts it - 1); parse_until (it_restarts it) it }"

lemma ParseNextKey_False: "ParseNextKey it = Some (False, it') \<Longrightarrow> \<not> BlockIter_Valid it'"
  by (auto simp: ParseNextKey_def BlockIter_Valid_def CorruptionError_def Let_def
      split: if_splits Option.bind_splits option.splits prod.splits)

text \<open>
  The loop of \<^verbatim>\<open>SkipToNextUserKey\<close>. The variables of the two numbers are not initialised: \<open>None\<close> where
  a user key leaves one of them unwritten.
\<close>

function skip_user_key :: "u64 \<Rightarrow> BlockIter \<Rightarrow> BlockIter option" where
  "skip_user_key userkeyint it =
     (if BlockIter_Valid it then
        (case user_key_int None (it_key it) of
           None \<Rightarrow> None
         | Some pivot_uk \<Rightarrow>
             if pivot_uk > userkeyint then Some it
             else (case ParseNextKey it of None \<Rightarrow> None | Some (_, it') \<Rightarrow> skip_user_key userkeyint it'))
      else Some it)"
  by pat_completeness auto
termination
proof (relation "measure (\<lambda>(k, it). if BlockIter_Valid it then Suc (remaining it) else 0)")
  fix k it pivot x found it'
  assume "BlockIter_Valid it" "ParseNextKey it = Some x" "(found, it') = x"
  then show "((k, it'), k, it) \<in> measure (\<lambda>(k, it). if BlockIter_Valid it then Suc (remaining it) else 0)"
    by (cases found) (auto dest: ParseNextKey_False remaining_ParseNextKey)
qed simp

declare skip_user_key.simps [simp del]

definition BlockIter_SkipToNextUserKey ::
    "(bytes \<Rightarrow> bytes \<Rightarrow> int) \<Rightarrow> bytes \<Rightarrow> BlockIter \<Rightarrow> BlockIter option" where
  "BlockIter_SkipToNextUserKey cmp target it =
     do { it \<leftarrow> (if it_seeked it then Some it else BlockIter_Seek cmp target it);
          userkeyint \<leftarrow> user_key_int None target;
          skip_user_key userkeyint it }"

text \<open>An iterator of a block: an error, an empty iterator, or an iterator over entries.\<close>

datatype block_iterator = ErrorIterator status | EmptyIterator | EntryIterator BlockIter

definition Block_NewIterator :: "Block \<Rightarrow> block_iterator option" where
  "Block_NewIterator b =
     (if blk_size b < 4 then Some (ErrorIterator (Status_Corruption (cstr ''bad block contents'') []))
      else do {
        num_restarts \<leftarrow> Block_NumRestarts (blk_data b) (blk_size b);
        if num_restarts = 0 then Some EmptyIterator
        else map_option EntryIterator (BlockIter_new (blk_data b) (blk_restart_offset b) (unat num_restarts)) })"


subsection \<open>The layout of a block\<close>

text \<open>
  A block as a list of entries: the number of key bytes shared with the entry before, the key and the value.
  Restart points are indices of entries.
\<close>

type_synonym entry = "nat \<times> bytes \<times> bytes"

abbreviation e_shared :: "entry \<Rightarrow> nat" where
  "e_shared e \<equiv> fst e"

abbreviation e_key :: "entry \<Rightarrow> bytes" where
  "e_key e \<equiv> fst (snd e)"

abbreviation e_value :: "entry \<Rightarrow> bytes" where
  "e_value e \<equiv> snd (snd e)"

definition entry_header :: "entry \<Rightarrow> bytes" where
  "entry_header e = EncodeVarint32 (of_nat (e_shared e)) @ EncodeVarint32 (of_nat (length (e_key e) - e_shared e)) @
     EncodeVarint32 (of_nat (length (e_value e)))"

definition encode_entry :: "entry \<Rightarrow> bytes" where
  "encode_entry e = entry_header e @ drop (e_shared e) (e_key e) @ e_value e"

definition entries_data :: "entry list \<Rightarrow> bytes" where
  "entries_data es = concat (map encode_entry es)"

definition entry_offset :: "entry list \<Rightarrow> nat \<Rightarrow> nat" where
  "entry_offset es i = length (entries_data (take i es))"

text \<open>Every shared prefix is there, and the entries at restart points share nothing.\<close>

definition entries_ok :: "entry list \<Rightarrow> bool" where
  "entries_ok es \<longleftrightarrow>
     (\<forall>i<length es. e_shared (es ! i) \<le> length (e_key (es ! i)) \<and>
        (case i of 0 \<Rightarrow> e_shared (es ! i) = 0
         | Suc j \<Rightarrow> e_shared (es ! i) \<le> length (e_key (es ! j)) \<and>
             take (e_shared (es ! i)) (e_key (es ! j)) = take (e_shared (es ! i)) (e_key (es ! i))))"

definition restarts_ok :: "entry list \<Rightarrow> nat list \<Rightarrow> bool" where
  "restarts_ok es rs \<longleftrightarrow> rs \<noteq> [] \<and> rs ! 0 = 0 \<and> sorted_wrt (<) rs \<and>
     (\<forall>r\<in>set rs. r = 0 \<or> r < length es \<and> e_shared (es ! r) = 0)"

definition block_bytes :: "entry list \<Rightarrow> nat list \<Rightarrow> bytes" where
  "block_bytes es rs = entries_data es @ concat (map (\<lambda>r. EncodeFixed32 (of_nat (entry_offset es r))) rs) @
     EncodeFixed32 (of_nat (length rs))"

definition block_ok :: "entry list \<Rightarrow> nat list \<Rightarrow> bool" where
  "block_ok es rs \<longleftrightarrow> entries_ok es \<and> restarts_ok es rs \<and> length (block_bytes es rs) < 2 ^ 32"

lemma entries_data_append [simp]: "entries_data (xs @ ys) = entries_data xs @ entries_data ys"
  by (simp add: entries_data_def)

lemma entries_data_simps [simp]: "entries_data [] = []" "entries_data (e # es) = encode_entry e @ entries_data es"
  by (simp_all add: entries_data_def)

lemma entries_split: "i < length es \<Longrightarrow> entries_data es = entries_data (take i es) @ encode_entry (es ! i) @ entries_data (drop (Suc i) es)"
  using arg_cong [OF id_take_nth_drop, of i es entries_data] by simp

lemma entry_offset_0 [simp]: "entry_offset es 0 = 0"
  by (simp add: entry_offset_def)

lemma entry_offset_Suc: "i < length es \<Longrightarrow> entry_offset es (Suc i) = entry_offset es i + length (encode_entry (es ! i))"
  by (simp add: entry_offset_def take_Suc_conv_app_nth)

lemma entry_offset_length: "entry_offset es (length es) = length (entries_data es)"
  by (simp add: entry_offset_def)

lemma length_entry_header_ge: "3 \<le> length (entry_header e)"
proof -
  have pos: "1 \<le> length (EncodeVarint32 v)" for v by (simp add: Suc_le_eq)
  show ?thesis
    unfolding entry_header_def length_append using pos [of "of_nat (e_shared e)"]
      pos [of "of_nat (length (e_key e) - e_shared e)"] pos [of "of_nat (length (e_value e))"] by linarith
qed

lemma entry_offset_less: "i < j \<Longrightarrow> j \<le> length es \<Longrightarrow> entry_offset es i < entry_offset es j"
proof (induction j)
  case (Suc j)
  then have "entry_offset es j < entry_offset es (Suc j)"
    using length_entry_header_ge [of "es ! j"] by (auto simp: entry_offset_Suc encode_entry_def)
  then show ?case using Suc by (cases "i = j") auto
qed simp

lemma entry_offset_less_iff:
  "i \<le> length es \<Longrightarrow> j \<le> length es \<Longrightarrow> entry_offset es i < entry_offset es j \<longleftrightarrow> i < j"
  using entry_offset_less [of i j es] entry_offset_less [of j i es] by (cases i j rule: linorder_cases) auto

lemma entry_offset_le: "entry_offset es i \<le> length (entries_data es)"
  by (metis append_take_drop_id entries_data_append entry_offset_def le_add1 length_append)

lemma DecodeEntry_slow:
  assumes "length p \<ge> 3"
  shows "DecodeEntry p = do {
      (shared, p) \<leftarrow> GetVarint32Ptr p;
      (non_shared, p) \<leftarrow> GetVarint32Ptr p;
      (value_length, p) \<leftarrow> GetVarint32Ptr p;
      if length p < unat (non_shared + value_length) then None else Some (shared, non_shared, value_length, p) }"
proof -
  obtain a b c q where p: "p = a # b # c # q" using assms by (auto simp: numeral_eq_Suc Suc_le_length_iff)
  have small: "GetVarint32Ptr (x # xs) = Some (ucast x, xs)" if "x < 128" for x :: byte and xs
  proof -
    have "(ucast x :: u32) < 128"
      using that by (simp add: word_less_nat_alt unsigned_ucast_eq take_bit_nat_eq_self)
    moreover have "ucast (ucast x :: u32) = x" by (intro bit_word_eqI) (simp add: bit_ucast_iff)
    ultimately have "EncodeVarint32 (ucast x) = [x]" by (simp add: EncodeVarint32_def)
    then show ?thesis using GetVarint32Ptr_Encode [of "ucast x" xs] by simp
  qed
  show ?thesis
  proof (cases "(a OR b OR c) < 128")
    case True
    moreover have "x \<le> x OR y" for x y :: byte
      by (simp add: word_le_def unsigned_or_eq or_greater_eq)
    then have "a \<le> a OR b OR c" "b \<le> b OR a OR c" "c \<le> c OR a OR b" by simp_all
    ultimately have "a < 128" "b < 128" "c < 128" by (auto simp: or.commute or.left_commute intro: le_less_trans)
    then show ?thesis using True by (simp add: DecodeEntry_def p small)
  next
    case False
    then show ?thesis by (simp add: DecodeEntry_def p bind_assoc split_def cong: if_cong)
  qed
qed

lemma DecodeEntry_encode:
  assumes "e_shared e < 2 ^ 32" "length (e_key e) + length (e_value e) < 2 ^ 32"
  shows "DecodeEntry (encode_entry e @ rest) = Some (of_nat (e_shared e), of_nat (length (e_key e) - e_shared e),
    of_nat (length (e_value e)), drop (e_shared e) (e_key e) @ e_value e @ rest)"
proof -
  have "unat (of_nat (length (e_key e) - e_shared e) + of_nat (length (e_value e)) :: u32) =
      length (e_key e) - e_shared e + length (e_value e)"
    using assms by (simp flip: of_nat_add)
  then show ?thesis
    using length_entry_header_ge [of e]
    by (simp add: DecodeEntry_slow encode_entry_def) (simp add: entry_header_def GetVarint32Ptr_Encode)
qed


subsection \<open>Positions of an iterator\<close>

text \<open>An iterator on a block; one that is about to parse entry \<open>i\<close>; one that is at entry \<open>i\<close>; one past the end.\<close>

definition iter_on :: "entry list \<Rightarrow> nat list \<Rightarrow> BlockIter \<Rightarrow> bool" where
  "iter_on es rs it \<longleftrightarrow> it_data it = block_bytes es rs \<and> it_restarts it = length (entries_data es) \<and>
     it_num_restarts it = length rs \<and> it_status it = Status_OK"

definition iter_before :: "entry list \<Rightarrow> nat list \<Rightarrow> nat \<Rightarrow> BlockIter \<Rightarrow> bool" where
  "iter_before es rs i it \<longleftrightarrow> iter_on es rs it \<and> i \<le> length es \<and> NextEntryOffset it = Some (entry_offset es i) \<and>
     it_restart_index it < length rs \<and>
     (i < length es \<longrightarrow> e_shared (es ! i) \<le> length (it_key it) \<and>
        take (e_shared (es ! i)) (it_key it) = take (e_shared (es ! i)) (e_key (es ! i)))"

definition iter_at :: "entry list \<Rightarrow> nat list \<Rightarrow> nat \<Rightarrow> BlockIter \<Rightarrow> bool" where
  "iter_at es rs i it \<longleftrightarrow> iter_on es rs it \<and> i < length es \<and> it_current it = entry_offset es i \<and>
     it_key it = e_key (es ! i) \<and>
     it_value it = Some (entry_offset es (Suc i) - length (e_value (es ! i)), length (e_value (es ! i))) \<and>
     it_restart_index it < length rs"

definition iter_end :: "entry list \<Rightarrow> nat list \<Rightarrow> BlockIter \<Rightarrow> bool" where
  "iter_end es rs it \<longleftrightarrow> iter_on es rs it \<and> \<not> BlockIter_Valid it"

lemma iter_at_Valid: "iter_at es rs i it \<Longrightarrow> BlockIter_Valid it"
  using entry_offset_less [of i "length es" es]
  by (simp add: iter_at_def iter_on_def BlockIter_Valid_def entry_offset_length)

lemma iter_at_key: "iter_at es rs i it \<Longrightarrow> BlockIter_key it = Some (e_key (es ! i))"
  by (simp add: BlockIter_key_def iter_at_Valid) (simp add: iter_at_def)

lemma iter_at_value:
  assumes "iter_at es rs i it"
  shows "BlockIter_value it = Some (e_value (es ! i))"
proof -
  have i: "i < length es" and data: "it_data it = block_bytes es rs" using assms by (simp_all add: iter_at_def iter_on_def)
  let ?v = "e_value (es ! i)" and ?pre = "entries_data (take i es) @ entry_header (es ! i) @ drop (e_shared (es ! i)) (e_key (es ! i))"
  have "it_data it = ?pre @ ?v @ drop (entry_offset es (Suc i)) (block_bytes es rs)"
    unfolding data using i
    by (simp add: block_bytes_def entries_split [of i es] entry_offset_Suc encode_entry_def) (simp add: entry_offset_def)
  moreover have "entry_offset es (Suc i) - length ?v = length ?pre"
    using i by (simp add: entry_offset_Suc encode_entry_def) (simp add: entry_offset_def)
  ultimately show ?thesis
    using assms iter_at_Valid [OF assms] by (simp add: BlockIter_value_def iter_at_def)
qed

lemma iter_at_before:
  assumes "entries_ok es" "iter_at es rs i it"
  shows "iter_before es rs (Suc i) it"
proof -
  have i: "i < length es" using assms(2) by (simp add: iter_at_def)
  have "length (e_value (es ! i)) \<le> entry_offset es (Suc i)"
    using i by (simp add: entry_offset_Suc encode_entry_def)
  then have "NextEntryOffset it = Some (entry_offset es (Suc i))"
    using assms(2) by (simp add: NextEntryOffset_def iter_at_def)
  then show ?thesis
    using assms i by (auto simp: iter_before_def iter_at_def entries_ok_def dest!: spec [of _ "Suc i"])
qed

lemma GetRestartPoint_iter_on:
  assumes "block_ok es rs" "iter_on es rs it" "j < length rs"
  shows "GetRestartPoint it j = Some (entry_offset es (rs ! j))"
proof -
  let ?enc = "\<lambda>r. EncodeFixed32 (of_nat (entry_offset es r))"
  have "concat (map ?enc rs) = concat (map ?enc (take j rs)) @ ?enc (rs ! j) @ concat (map ?enc (drop (Suc j) rs))"
    using arg_cong [OF id_take_nth_drop [OF assms(3)], of "\<lambda>xs. concat (map ?enc xs)"] by simp
  moreover have "length (concat (map ?enc (take j rs))) = j * 4"
    using assms(3) by (simp add: length_concat o_def sum_list_triv)
  ultimately have "drop (it_restarts it + j * 4) (it_data it) =
      ?enc (rs ! j) @ concat (map ?enc (drop (Suc j) rs)) @ EncodeFixed32 (of_nat (length rs))"
    using assms(2) by (simp add: iter_on_def block_bytes_def)
  moreover have "entry_offset es (rs ! j) < 2 ^ 32"
    using assms(1) entry_offset_le [of es "rs ! j"] by (simp add: block_ok_def block_bytes_def)
  ultimately show ?thesis
    using assms by (simp add: GetRestartPoint_def iter_on_def DecodeFixed32_ptr_Encode)
qed

lemma advance_restart_index_Some:
  assumes "block_ok es rs" "iter_on es rs it"
  shows "\<exists>it'. advance_restart_index it = Some it'"
  using assms(2)
proof (induction it rule: advance_restart_index.induct)
  case (1 it)
  show ?case
  proof (cases "it_restart_index it + 1 < it_num_restarts it")
    case True
    then have r: "GetRestartPoint it (it_restart_index it + 1) = Some (entry_offset es (rs ! (it_restart_index it + 1)))"
      using 1(2) by (intro GetRestartPoint_iter_on [OF assms(1)]) (simp_all add: iter_on_def)
    then show ?thesis
      using 1 True by (simp add: advance_restart_index.simps [of it] iter_on_def)
  qed (simp add: advance_restart_index.simps [of it])
qed


lemma key_value_length_le:
  "entries_ok es \<Longrightarrow> i < length es \<Longrightarrow> length (e_key (es ! i)) + length (e_value (es ! i)) \<le> entry_offset es (Suc i)"
proof (induction i)
  case 0
  then show ?case by (auto simp: entries_ok_def entry_offset_Suc encode_entry_def)
next
  case (Suc i)
  then have "e_shared (es ! Suc i) \<le> length (e_key (es ! i))" "e_shared (es ! Suc i) \<le> length (e_key (es ! Suc i))"
    by (auto simp: entries_ok_def dest: spec [of _ "Suc i"])
  moreover have "length (e_key (es ! i)) \<le> entry_offset es (Suc i)" using Suc by simp
  ultimately show ?case using Suc.prems by (simp add: entry_offset_Suc [of "Suc i"] encode_entry_def)
qed

lemma entry_small:
  assumes "block_ok es rs" "i < length es"
  shows "e_shared (es ! i) < 2 ^ 32" "length (e_key (es ! i)) + length (e_value (es ! i)) < 2 ^ 32"
proof -
  have "length (entries_data es) < 2 ^ 32" using assms(1) by (simp add: block_ok_def block_bytes_def)
  then show "length (e_key (es ! i)) + length (e_value (es ! i)) < 2 ^ 32"
    using key_value_length_le [of es i] entry_offset_le [of es "Suc i"] assms by (simp add: block_ok_def)
  moreover have "e_shared (es ! i) \<le> length (e_key (es ! i))" using assms by (simp add: block_ok_def entries_ok_def)
  ultimately show "e_shared (es ! i) < 2 ^ 32" by linarith
qed

lemma ParseNextKey_entry:
  assumes ok: "block_ok es rs" and before: "iter_before es rs i it" and i: "i < length es"
  shows "\<exists>it'. ParseNextKey it = Some (True, it') \<and> iter_at es rs i it'"
proof -
  let ?e = "es ! i" and ?rest = "entries_data (drop (Suc i) es)"
  have on: "it_data it = block_bytes es rs" "it_restarts it = length (entries_data es)" "it_num_restarts it = length rs"
    and next_off: "NextEntryOffset it = Some (entry_offset es i)"
    and key: "e_shared ?e \<le> length (it_key it)" "take (e_shared ?e) (it_key it) = take (e_shared ?e) (e_key ?e)"
    using before i by (simp_all add: iter_before_def iter_on_def)
  have le: "e_shared ?e \<le> length (e_key ?e)" using ok i by (auto simp: block_ok_def entries_ok_def)
  note small = entry_small [OF ok i]
  have limit: "take (it_restarts it - entry_offset es i) (drop (entry_offset es i) (it_data it)) = encode_entry ?e @ ?rest"
    using i by (simp add: on block_bytes_def entries_split [OF i] entry_offset_def)
  have lt: "entry_offset es i < length (entries_data es)"
    using entry_offset_less [OF i order_refl] by (simp add: entry_offset_length)
  define ns where "ns = length (e_key ?e) - e_shared ?e"
  define p where "p = drop (e_shared ?e) (e_key ?e) @ e_value ?e @ ?rest"
  have p: "length (entries_data es) - length p = entry_offset es i + length (entry_header ?e)"
    using i by (simp add: p_def entries_split [OF i] entry_offset_def encode_entry_def ns_def)
  have dec: "DecodeEntry (take (length (entries_data es) - entry_offset es i) (drop (entry_offset es i) (block_bytes es rs))) =
      Some (of_nat (e_shared ?e), of_nat ns, of_nat (length (e_value ?e)), p)"
    using DecodeEntry_encode [OF small, of ?rest] limit by (simp add: on p_def ns_def)
  have suffix: "take ns (drop (entry_offset es i + length (entry_header ?e)) (block_bytes es rs)) =
      drop (e_shared ?e) (e_key ?e)"
    using i by (simp add: block_bytes_def entries_split [OF i] entry_offset_def encode_entry_def ns_def)
  let ?it = "it \<lparr> it_current := entry_offset es i, it_key := e_key ?e,
      it_value := Some (entry_offset es i + length (entry_header ?e) + ns, length (e_value ?e)) \<rparr>"
  have bound: "entry_offset es i + length (entry_header ?e) + ns \<le> length (block_bytes es rs)"
    using i by (simp add: block_bytes_def entries_split [OF i] entry_offset_def encode_entry_def ns_def)
  have "iter_on es rs ?it" using before by (simp add: iter_before_def iter_on_def)
  then obtain it' where adv: "advance_restart_index ?it = Some it'"
    using advance_restart_index_Some [OF ok] by blast
  have "unat (of_nat ns :: u32) = ns" using small by (simp add: ns_def)
  then have "ParseNextKey it = Some (True, it')"
    using small le lt key suffix bound adv \<open>unat (of_nat ns :: u32) = ns\<close>
    by (simp add: ParseNextKey_def next_off Let_def on dec p add.assoc)
  moreover have "iter_at es rs i it'"
    using advance_restart_index_fields [OF adv] before i le
    by (auto simp: iter_at_def iter_before_def iter_on_def entry_offset_Suc encode_entry_def ns_def)
  ultimately show ?thesis by blast
qed

lemma ParseNextKey_end:
  assumes "iter_before es rs (length es) it"
  shows "\<exists>it'. ParseNextKey it = Some (False, it') \<and> iter_end es rs it'"
  using assms
  by (simp add: iter_before_def iter_on_def ParseNextKey_def Let_def entry_offset_length iter_end_def BlockIter_Valid_def)


lemma restart_nth:
  "restarts_ok es rs \<Longrightarrow> j < length rs \<Longrightarrow> rs ! j = 0 \<or> rs ! j < length es \<and> e_shared (es ! (rs ! j)) = 0"
  unfolding restarts_ok_def using nth_mem [of j rs] by blast

lemma restart_index_le: "restarts_ok es rs \<Longrightarrow> j < length rs \<Longrightarrow> rs ! j \<le> length es"
  using restart_nth [of es rs j] by auto

lemma SeekToRestartPoint_before:
  assumes ok: "block_ok es rs" and on: "iter_on es rs it" and j: "j < length rs"
  shows "\<exists>it'. SeekToRestartPoint it j = Some it' \<and> iter_before es rs (rs ! j) it' \<and> it_seeked it' = it_seeked it"
proof -
  have "e_shared (es ! (rs ! j)) = 0" if "rs ! j < length es"
  proof (cases "rs ! j = 0")
    case True
    then show ?thesis using ok that by (auto simp: block_ok_def entries_ok_def dest: spec [of _ 0])
  next
    case False
    then show ?thesis using ok restart_nth [OF _ j, of es] by (auto simp: block_ok_def)
  qed
  then show ?thesis
    using GetRestartPoint_iter_on [OF ok on j] on j restart_index_le [of es rs j] ok
    by (auto simp: SeekToRestartPoint_def iter_before_def iter_on_def NextEntryOffset_def block_ok_def)
qed

text \<open>The position reached by moving to index \<open>i\<close>: the entry, or the end.\<close>

definition iter_pos :: "entry list \<Rightarrow> nat list \<Rightarrow> nat \<Rightarrow> BlockIter \<Rightarrow> bool" where
  "iter_pos es rs i it \<longleftrightarrow> (if i < length es then iter_at es rs i it else iter_end es rs it)"

lemma ParseNextKey_pos:
  assumes "block_ok es rs" "iter_before es rs i it"
  shows "\<exists>it'. ParseNextKey it = Some (i < length es, it') \<and> iter_pos es rs i it'"
proof (cases "i < length es")
  case True
  then show ?thesis using ParseNextKey_entry [OF assms True] by (auto simp: iter_pos_def)
next
  case False
  then have "i = length es" using assms(2) by (simp add: iter_before_def)
  then show ?thesis using ParseNextKey_end [of es rs it] assms(2) by (auto simp: iter_pos_def)
qed

lemma BlockIter_Next_at:
  assumes "block_ok es rs" "iter_at es rs i it"
  shows "\<exists>it'. BlockIter_Next it = Some it' \<and> iter_pos es rs (Suc i) it'"
proof -
  have "iter_before es rs (Suc i) it" using assms iter_at_before by (auto simp: block_ok_def)
  from ParseNextKey_pos [OF assms(1) this] show ?thesis
    using iter_at_Valid [OF assms(2)] by (auto simp: BlockIter_Next_def)
qed

lemma BlockIter_SeekToFirst_pos:
  assumes ok: "block_ok es rs" and on: "iter_on es rs it"
  shows "\<exists>it'. BlockIter_SeekToFirst it = Some it' \<and> iter_pos es rs 0 it'"
proof -
  have rs: "0 < length rs" "rs ! 0 = 0" using ok by (auto simp: block_ok_def restarts_ok_def)
  have on': "iter_on es rs (it \<lparr> it_seeked := True \<rparr>)" using on by (simp add: iter_on_def)
  then obtain it1 where it1: "SeekToRestartPoint (it \<lparr> it_seeked := True \<rparr>) 0 = Some it1" "iter_before es rs 0 it1"
    using SeekToRestartPoint_before [OF ok _ rs(1)] rs(2) by fastforce
  then show ?thesis using ParseNextKey_pos [OF ok it1(2)] by (auto simp: BlockIter_SeekToFirst_def)
qed

lemma parse_until_at:
  "iter_before es rs i it \<Longrightarrow> block_ok es rs \<Longrightarrow> i < m \<Longrightarrow> m \<le> length es \<Longrightarrow>
   \<exists>it'. parse_until (entry_offset es m) it = Some it' \<and> iter_at es rs (m - 1) it'"
proof (induction "m - i" arbitrary: i it)
  case (Suc n)
  have i: "i < length es" using Suc.prems by simp
  obtain it' where it': "ParseNextKey it = Some (True, it')" "iter_at es rs i it'"
    using ParseNextKey_entry [OF Suc.prems(2,1) i] by blast
  have before: "iter_before es rs (Suc i) it'" using iter_at_before [OF _ it'(2)] Suc.prems(2) by (simp add: block_ok_def)
  then have off: "NextEntryOffset it' = Some (entry_offset es (Suc i))" by (simp add: iter_before_def)
  show ?case
  proof (cases "Suc i = m")
    case True
    then show ?thesis using it' off by (auto simp: parse_until.simps [of _ it])
  next
    case False
    then have "entry_offset es (Suc i) < entry_offset es m" using Suc.prems by (intro entry_offset_less) auto
    then have "parse_until (entry_offset es m) it = parse_until (entry_offset es m) it'"
      using it' off by (simp add: parse_until.simps [of _ it])
    then show ?thesis using Suc.hyps(1) [of "Suc i" it'] Suc.hyps(2) Suc.prems False before by auto
  qed
qed simp

lemma BlockIter_SeekToLast_pos:
  assumes ok: "block_ok es rs" and on: "iter_on es rs it" and ne: "es \<noteq> []"
  shows "\<exists>it'. BlockIter_SeekToLast it = Some it' \<and> iter_at es rs (length es - 1) it'"
proof -
  have rs: "length rs - 1 < length rs" using ok by (auto simp: block_ok_def restarts_ok_def)
  have lt: "rs ! (length rs - 1) < length es"
    using ok ne restart_nth [OF _ rs, of es] by (auto simp: block_ok_def)
  have on': "iter_on es rs (it \<lparr> it_seeked := True \<rparr>)" using on by (simp add: iter_on_def)
  then obtain it1 where it1: "SeekToRestartPoint (it \<lparr> it_seeked := True \<rparr>) (length rs - 1) = Some it1"
      "iter_before es rs (rs ! (length rs - 1)) it1"
    using SeekToRestartPoint_before [OF ok on' rs] by blast
  have "it_restarts it1 = entry_offset es (length es)" using it1(2) by (simp add: iter_before_def iter_on_def entry_offset_length)
  then show ?thesis
    using parse_until_at [OF it1(2) ok lt] it1(1) on by (simp add: BlockIter_SeekToLast_def iter_on_def)
qed

lemma scan_restarts_back_at:
  assumes ok: "block_ok es rs" and at: "iter_at es rs i it"
  shows "j < length rs \<Longrightarrow> \<exists>r. scan_restarts_back it (entry_offset es i) j = Some r \<and>
    (case r of None \<Rightarrow> i = 0 | Some k \<Rightarrow> k < length rs \<and> rs ! k < i)"
proof (induction j)
  case 0
  have on: "iter_on es rs it" and i: "i < length es" using at by (simp_all add: iter_at_def)
  have "rs ! 0 = 0" using ok by (simp add: block_ok_def restarts_ok_def)
  then show ?case
    using GetRestartPoint_iter_on [OF ok on "0"] "0" entry_offset_less [of 0 i es] i
    by (cases "i = 0") (auto simp: scan_restarts_back.simps [of it _ 0])
next
  case (Suc j)
  have on: "iter_on es rs it" and i: "i < length es" using at by (simp_all add: iter_at_def)
  have le: "rs ! Suc j \<le> length es" using restart_index_le Suc.prems ok by (auto simp: block_ok_def)
  show ?case
  proof (cases "entry_offset es (rs ! Suc j) < entry_offset es i")
    case True
    then have "rs ! Suc j < i" using entry_offset_less_iff [OF le, of i] i by simp
    then show ?thesis using True Suc.prems GetRestartPoint_iter_on [OF ok on Suc.prems]
      by (simp add: scan_restarts_back.simps [of it _ "Suc j"])
  next
    case False
    then show ?thesis using Suc GetRestartPoint_iter_on [OF ok on Suc.prems]
      by (simp add: scan_restarts_back.simps [of it _ "Suc j"])
  qed
qed

lemma BlockIter_Prev_at:
  assumes ok: "block_ok es rs" and at: "iter_at es rs i it"
  shows "\<exists>it'. BlockIter_Prev it = Some it' \<and> (if i = 0 then iter_end es rs it' else iter_at es rs (i - 1) it')"
proof -
  have on: "iter_on es rs it" and i: "i < length es" "it_current it = entry_offset es i" "it_restart_index it < length rs"
    using at by (simp_all add: iter_at_def)
  obtain r where r: "scan_restarts_back it (entry_offset es i) (it_restart_index it) = Some r"
      "case r of None \<Rightarrow> i = 0 | Some k \<Rightarrow> k < length rs \<and> rs ! k < i"
    using scan_restarts_back_at [OF ok at i(3)] by blast
  show ?thesis
  proof (cases r)
    case None
    then show ?thesis
      using r on i iter_at_Valid [OF at]
      by (simp add: BlockIter_Prev_def Let_def iter_end_def iter_on_def BlockIter_Valid_def)
  next
    case (Some k)
    have "iter_on es rs (it \<lparr> it_restart_index := k \<rparr>)" using on by (simp add: iter_on_def)
    then obtain it1 where it1: "SeekToRestartPoint (it \<lparr> it_restart_index := k \<rparr>) k = Some it1" "iter_before es rs (rs ! k) it1"
      using SeekToRestartPoint_before [OF ok] r(2) Some by fastforce
    then show ?thesis
      using parse_until_at [OF it1(2) ok, of i] r Some i iter_at_Valid [OF at]
      by (simp add: BlockIter_Prev_def Let_def)
  qed
qed


subsection \<open>Seeking\<close>

text \<open>The index of the first entry whose key is not below the target.\<close>

definition lower_bound :: "(bytes \<Rightarrow> bytes \<Rightarrow> int) \<Rightarrow> bytes \<Rightarrow> entry list \<Rightarrow> nat" where
  "lower_bound cmp target es = length (takeWhile (\<lambda>e. cmp (e_key e) target < 0) es)"

lemma lower_bound_eqI:
  "(\<And>j. j < i \<Longrightarrow> cmp (e_key (es ! j)) target < 0) \<Longrightarrow> i \<le> length es \<Longrightarrow>
   (i < length es \<Longrightarrow> \<not> cmp (e_key (es ! i)) target < 0) \<Longrightarrow> lower_bound cmp target es = i"
proof -
  assume below: "\<And>j. j < i \<Longrightarrow> cmp (e_key (es ! j)) target < 0" and i: "i \<le> length es"
    and at: "i < length es \<Longrightarrow> \<not> cmp (e_key (es ! i)) target < 0"
  have "takeWhile (\<lambda>e. cmp (e_key e) target < 0) es = take i es"
    using below i at by (intro takeWhile_eq_take_P_nth) auto
  then show ?thesis using i by (simp add: lower_bound_def)
qed

lemma seek_linear_pos:
  "iter_before es rs i it \<Longrightarrow> block_ok es rs \<Longrightarrow> (\<And>j. j < i \<Longrightarrow> cmp (e_key (es ! j)) target < 0) \<Longrightarrow>
   \<exists>it'. seek_linear cmp target it = Some it' \<and> iter_pos es rs (lower_bound cmp target es) it'"
proof (induction "length es - i" arbitrary: i it)
  case 0
  then have i: "i = length es" by (simp add: iter_before_def)
  obtain it' where it': "ParseNextKey it = Some (False, it')" "iter_pos es rs i it'"
    using ParseNextKey_pos [OF "0.prems"(2,1)] i by auto
  have "lower_bound cmp target es = i" using "0.prems"(3) i by (intro lower_bound_eqI) auto
  then show ?case using it' by (simp add: seek_linear.simps [of _ _ it])
next
  case (Suc n)
  then have i: "i < length es" by simp
  obtain it' where it': "ParseNextKey it = Some (True, it')" "iter_at es rs i it'"
    using ParseNextKey_entry [OF Suc.prems(2,1) i] by blast
  have key: "it_key it' = e_key (es ! i)" using it'(2) by (simp add: iter_at_def)
  show ?case
  proof (cases "cmp (e_key (es ! i)) target < 0")
    case True
    have "iter_before es rs (Suc i) it'" using iter_at_before [OF _ it'(2)] Suc.prems(2) by (simp add: block_ok_def)
    moreover have "n = length es - Suc i" using Suc.hyps(2) by simp
    moreover have "\<And>j. j < Suc i \<Longrightarrow> cmp (e_key (es ! j)) target < 0" using Suc.prems(3) True less_Suc_eq by auto
    moreover have "seek_linear cmp target it = seek_linear cmp target it'"
      using it'(1) True key by (simp add: seek_linear.simps [of _ _ it])
    ultimately show ?thesis using Suc.hyps(1) [of "Suc i" it'] Suc.prems(2) by simp
  next
    case False
    then have "lower_bound cmp target es = i" using Suc.prems(3) i by (intro lower_bound_eqI) auto
    then show ?thesis using it' key False i by (simp add: seek_linear.simps [of _ _ it] iter_pos_def)
  qed
qed

lemma restart_key:
  fixes j :: nat
  assumes ok: "block_ok es rs" and on: "iter_on es rs it" and j: "j < length rs" "rs ! j < length es"
  defines "off \<equiv> entry_offset es (rs ! j)"
  shows "\<exists>ns vl p. DecodeEntry (take (it_restarts it - off) (drop off (it_data it))) = Some (0, ns, vl, p) \<and>
    it_restarts it - length p + unat ns \<le> length (it_data it) \<and>
    take (unat ns) (drop (it_restarts it - length p) (it_data it)) = e_key (es ! (rs ! j))"
proof -
  obtain it1 where it1: "SeekToRestartPoint it j = Some it1" "iter_before es rs (rs ! j) it1"
    using SeekToRestartPoint_before [OF ok on j(1)] by blast
  have off: "GetRestartPoint it j = Some off" unfolding off_def using GetRestartPoint_iter_on [OF ok on j(1)] .
  then have it1_eq: "it1 = it \<lparr> it_key := [], it_restart_index := j, it_value := Some (off, 0) \<rparr>"
    using it1(1) by (simp add: SeekToRestartPoint_def)
  obtain it2 where it2: "ParseNextKey it1 = Some (True, it2)" "iter_at es rs (rs ! j) it2"
    using ParseNextKey_entry [OF ok it1(2) j(2)] by blast
  obtain shared ns vl p where dec: "DecodeEntry (take (it_restarts it - off) (drop off (it_data it))) = Some (shared, ns, vl, p)"
    and shared: "unat shared = 0" and fits: "it_restarts it - length p + unat ns \<le> length (it_data it)"
    and adv: "advance_restart_index (it1 \<lparr> it_current := off,
        it_key := take (unat ns) (drop (it_restarts it - length p) (it_data it)),
        it_value := Some (it_restarts it - length p + unat ns, unat vl) \<rparr>) = Some it2"
    using it2(1)
    by (auto simp: ParseNextKey_def Let_def not_le not_less it1_eq NextEntryOffset_def
        split: if_splits Option.bind_splits option.splits prod.splits)
  have "it_key it2 = take (unat ns) (drop (it_restarts it - length p) (it_data it))"
    using advance_restart_index_fields [OF adv] by auto
  moreover have "shared = 0" using shared by (simp add: unat_eq_0)
  ultimately show ?thesis using dec fits it2(2) by (auto simp: iter_at_def)
qed

lemma seek_restart_below:
  fixes cmp :: "bytes \<Rightarrow> bytes \<Rightarrow> int" and target :: bytes
  assumes ok: "block_ok es rs" and on: "iter_on es rs it" and ne: "es \<noteq> []"
  defines "below j \<equiv> cmp (e_key (es ! (rs ! j))) target < 0"
  shows "left \<le> right \<Longrightarrow> right < length rs \<Longrightarrow> left = 0 \<or> below left \<Longrightarrow>
    \<exists>j. seek_restart cmp target it left right = Some (Some j) \<and> j < length rs \<and> (j = 0 \<or> below j)"
proof (induction "right - left" arbitrary: left right rule: less_induct)
  case less
  show ?case
  proof (cases "left < right")
    case False
    then have "seek_restart cmp target it left right = Some (Some left)" by (subst seek_restart.simps) simp
    then show ?thesis using less.prems False by simp
  next
    case True
    let ?mid = "(left + right + 1) div 2"
    have mid: "left < ?mid" "?mid \<le> right" using True by simp_all
    then have len: "?mid < length rs" using less.prems by simp
    have "rs ! ?mid < length es" using restart_nth [OF _ len, of es] ok ne by (auto simp: block_ok_def)
    from restart_key [OF ok on len this] obtain ns vl p where
      dec: "DecodeEntry (take (it_restarts it - entry_offset es (rs ! ?mid)) (drop (entry_offset es (rs ! ?mid)) (it_data it))) =
          Some (0, ns, vl, p)" "it_restarts it - length p + unat ns \<le> length (it_data it)"
        "take (unat ns) (drop (it_restarts it - length p) (it_data it)) = e_key (es ! (rs ! ?mid))" by blast
    have step: "seek_restart cmp target it left right =
        (if below ?mid then seek_restart cmp target it ?mid right else seek_restart cmp target it left (?mid - 1))"
      unfolding below_def
      by (subst seek_restart.simps) (use True dec GetRestartPoint_iter_on [OF ok on len] in \<open>simp add: Let_def\<close>)
    show ?thesis
    proof (cases "below ?mid")
      case True
      then show ?thesis using step less.hyps [of right ?mid] less.prems mid by simp
    next
      case False
      then show ?thesis using step less.hyps [of "?mid - 1" left] less.prems mid by simp
    qed
  qed
qed

context comparator
begin

lemma BlockIter_Seek_pos:
  assumes ok: "block_ok es rs" and on: "iter_on es rs it"
    and valid: "\<And>e. e \<in> set es \<Longrightarrow> valid (e_key e)" "valid target"
    and sorted: "sorted_wrt (\<lambda>a b. cmp a b < 0) (map e_key es)"
  shows "\<exists>it'. BlockIter_Seek cmp target it = Some it' \<and> iter_pos es rs (lower_bound cmp target es) it'"
proof -
  let ?it = "it \<lparr> it_seeked := True \<rparr>"
  have on': "iter_on es rs ?it" using on by (simp add: iter_on_def)
  have len: "0 < length rs" "rs ! 0 = 0" using ok by (auto simp: block_ok_def restarts_ok_def)
  obtain j where j: "seek_restart cmp target ?it 0 (length rs - 1) = Some (Some j)" "j < length rs"
      "j = 0 \<or> es \<noteq> [] \<and> cmp (e_key (es ! (rs ! j))) target < 0"
  proof (cases "es = []")
    case True
    then have "rs = [0]"
      using ok restart_nth [of es rs] len by (cases rs rule: remdups_adj.cases) (auto simp: block_ok_def restarts_ok_def)
    then show ?thesis using that [of 0] by (simp add: seek_restart.simps)
  next
    case False
    from seek_restart_below [OF ok on' this, of 0 "length rs - 1" cmp target] len show ?thesis
      using that False by auto
  qed
  obtain it1 where it1: "SeekToRestartPoint ?it j = Some it1" "iter_before es rs (rs ! j) it1"
    using SeekToRestartPoint_before [OF ok on' j(2)] by blast
  have "cmp (e_key (es ! k)) target < 0" if k: "k < rs ! j" for k
  proof -
    have "j \<noteq> 0" using k len by (cases "j = 0") auto
    then have below: "cmp (e_key (es ! (rs ! j))) target < 0" and r: "rs ! j < length es"
      using j k restart_nth [of es rs j] ok by (auto simp: block_ok_def)
    have "cmp (e_key (es ! k)) (e_key (es ! (rs ! j))) < 0"
      using sorted k r sorted_wrt_nth_less [of _ "map e_key es" k "rs ! j"] by simp
    then show ?thesis
      using below valid k r cmp_less_le_trans [of "e_key (es ! k)" "e_key (es ! (rs ! j))" target] by simp
  qed
  from seek_linear_pos [OF it1(2) ok, of cmp target, OF this] show ?thesis
    using j(1) it1(1) on by (simp add: BlockIter_Seek_def iter_on_def Let_def)
qed

end


subsection \<open>What the builder writes\<close>

lemma shared_prefix_take: "take (shared_prefix a b) a = take (shared_prefix a b) b"
  by (induction a b rule: shared_prefix.induct) simp_all

lemma shared_prefix_le: "shared_prefix a b \<le> length a" "shared_prefix a b \<le> length b"
  by (induction a b rule: shared_prefix.induct) auto

text \<open>The entries and restart points a builder has accepted so far.\<close>

definition builder_on :: "nat \<Rightarrow> entry list \<Rightarrow> nat list \<Rightarrow> BlockBuilder \<Rightarrow> bool" where
  "builder_on interval es rs b \<longleftrightarrow>
     entries_ok es \<and> restarts_ok es rs \<and> \<not> bb_finished b \<and> bb_buffer b = entries_data es \<and>
     bb_restarts b = map (\<lambda>r. of_nat (entry_offset es r)) rs \<and>
     bb_last_key b = (if es = [] then [] else e_key (last es)) \<and>
     length es = last rs + bb_counter b \<and> bb_counter b \<le> interval"

lemma builder_on_new: "builder_on interval [] [0] BlockBuilder_new"
  by (simp add: builder_on_def BlockBuilder_new_def entries_ok_def restarts_ok_def)

lemma entry_offset_append: "r \<le> length es \<Longrightarrow> entry_offset (es @ es') r = entry_offset es r"
  by (simp add: entry_offset_def)

lemma entries_ok_snoc:
  assumes "entries_ok es" "e_shared e \<le> length (e_key e)"
    and "es = [] \<Longrightarrow> e_shared e = 0"
    and "es \<noteq> [] \<Longrightarrow> e_shared e \<le> length (e_key (last es)) \<and> take (e_shared e) (e_key (last es)) = take (e_shared e) (e_key e)"
  shows "entries_ok (es @ [e])"
  unfolding entries_ok_def
proof (intro allI impI)
  fix i assume i: "i < length (es @ [e])"
  let ?P = "\<lambda>es i. e_shared (es ! i) \<le> length (e_key (es ! i)) \<and> (case i of 0 \<Rightarrow> e_shared (es ! i) = 0
      | Suc j \<Rightarrow> e_shared (es ! i) \<le> length (e_key (es ! j)) \<and>
          take (e_shared (es ! i)) (e_key (es ! j)) = take (e_shared (es ! i)) (e_key (es ! i)))"
  show "?P (es @ [e]) i"
  proof (cases "i = length es")
    case True
    then show ?thesis
      using assms by (cases es rule: rev_cases) (auto simp: nth_append)
  next
    case False
    then have "i < length es" using i by simp
    then have "?P es i" using assms(1) by (simp add: entries_ok_def)
    then show ?thesis using \<open>i < length es\<close> by (cases i) (auto simp: nth_append)
  qed
qed

lemma restarts_ok_mono: "restarts_ok es rs \<Longrightarrow> restarts_ok (es @ es') rs"
  by (auto simp: restarts_ok_def nth_append)

lemma restarts_ok_snoc:
  assumes "restarts_ok es rs" "last rs < length es" "e_shared e = 0"
  shows "restarts_ok (es @ [e]) (rs @ [length es])"
proof -
  have "r < length es" if "r \<in> set rs" for r
  proof -
    have "0 < length es" using assms(2) by linarith
    then show ?thesis using assms(1) that by (auto simp: restarts_ok_def)
  qed
  then show ?thesis
    using assms by (auto simp: restarts_ok_def sorted_wrt_append nth_append less_Suc_eq)
qed

lemma map_entry_offset_append:
  "restarts_ok es rs \<Longrightarrow> map (\<lambda>r. of_nat (entry_offset (es @ es') r)) rs = map (\<lambda>r. of_nat (entry_offset es r) :: u32) rs"
  by (rule map_cong) (auto simp: restarts_ok_def entry_offset_append)

lemma BlockBuilder_Add_on:
  assumes on: "builder_on interval es rs b" and interval: "interval \<ge> 1"
    and less: "es \<noteq> [] \<Longrightarrow> cmp k (e_key (last es)) > 0"
  shows "\<exists>b' shared rs'. BlockBuilder_Add cmp interval k v b = Some b' \<and> builder_on interval (es @ [(shared, k, v)]) rs' b'"
proof -
  have ok: "entries_ok es" "restarts_ok es rs" using on by (simp_all add: builder_on_def)
  have guard: "\<not> bb_finished b" "\<not> bb_counter b > interval" "bb_buffer b = [] \<or> cmp k (bb_last_key b) > 0"
    using on less by (auto simp: builder_on_def)
  show ?thesis
  proof (cases "bb_counter b < interval")
    case True
    let ?s = "shared_prefix (bb_last_key b) k"
    have key: "take ?s (bb_last_key b) @ drop ?s k = k"
      using shared_prefix_take [of "bb_last_key b" k] by simp
    have "entries_ok (es @ [(?s, k, v)])"
      using on shared_prefix_take [of "bb_last_key b" k] shared_prefix_le [of "bb_last_key b" k]
      by (intro entries_ok_snoc ok(1)) (auto simp: builder_on_def)
    moreover have "BlockBuilder_Add cmp interval k v b = Some (b \<lparr> bb_buffer := bb_buffer b @ encode_entry (?s, k, v),
        bb_restarts := bb_restarts b, bb_counter := bb_counter b + 1, bb_last_key := k \<rparr>)" (is "_ = Some ?b")
      using guard True key by (simp add: BlockBuilder_Add_def Let_def PutVarint32_def encode_entry_def entry_header_def)
    ultimately have "builder_on interval (es @ [(?s, k, v)]) rs ?b"
      using True on by (simp add: builder_on_def map_entry_offset_append restarts_ok_mono)
    then show ?thesis using \<open>BlockBuilder_Add cmp interval k v b = Some ?b\<close> by blast
  next
    case False
    have rest: "restarts_ok (es @ [(0, k, v)]) (rs @ [length es])"
      using on False interval by (intro restarts_ok_snoc ok(2)) (auto simp: builder_on_def)
    have "entries_ok (es @ [(0, k, v)])" by (intro entries_ok_snoc ok(1)) auto
    moreover have "BlockBuilder_Add cmp interval k v b = Some (b \<lparr> bb_buffer := bb_buffer b @ encode_entry (0, k, v),
        bb_restarts := bb_restarts b @ [of_nat (length (bb_buffer b))], bb_counter := 1, bb_last_key := k \<rparr>)" (is "_ = Some ?b")
      using guard False by (simp add: BlockBuilder_Add_def Let_def PutVarint32_def encode_entry_def entry_header_def)
    ultimately have "builder_on interval (es @ [(0, k, v)]) (rs @ [length es]) ?b"
      using on rest interval entry_offset_length [of es]
      by (simp add: builder_on_def map_entry_offset_append entry_offset_append)
    then show ?thesis using \<open>BlockBuilder_Add cmp interval k v b = Some ?b\<close> by blast
  qed
qed


fun add_entries :: "(bytes \<Rightarrow> bytes \<Rightarrow> int) \<Rightarrow> nat \<Rightarrow> (bytes \<times> bytes) list \<Rightarrow> BlockBuilder \<Rightarrow> BlockBuilder option" where
  "add_entries cmp interval [] b = Some b"
| "add_entries cmp interval ((k, v) # kvs) b =
     do { b \<leftarrow> BlockBuilder_Add cmp interval k v b; add_entries cmp interval kvs b }"

text \<open>Strictly increasing keys.\<close>

abbreviation increasing :: "(bytes \<Rightarrow> bytes \<Rightarrow> int) \<Rightarrow> bytes list \<Rightarrow> bool" where
  "increasing cmp ks \<equiv> sorted_wrt (\<lambda>a b. cmp a b < 0) ks"

context comparator
begin

lemma add_entries_on:
  "builder_on interval es rs b \<Longrightarrow> interval \<ge> 1 \<Longrightarrow> increasing cmp (map e_key es @ map fst kvs) \<Longrightarrow>
   \<forall>k\<in>set (map e_key es @ map fst kvs). valid k \<Longrightarrow>
   \<exists>b' es' rs'. add_entries cmp interval kvs b = Some b' \<and> builder_on interval es' rs' b' \<and> map snd es' = map snd es @ kvs"
proof (induction kvs arbitrary: es rs b)
  case (Cons kv kvs)
  obtain k v where kv: "kv = (k, v)" by (cases kv)
  have "cmp k (e_key (last es)) > 0" if "es \<noteq> []"
  proof -
    have last: "last es \<in> set es" using that by simp
    then have "cmp (e_key (last es)) k < 0" using Cons.prems(3) kv by (simp add: sorted_wrt_append)
    then show ?thesis using Cons.prems(4) kv last cmp_sym [of "e_key (last es)" k] by simp
  qed
  then obtain b' shared rs' where b': "BlockBuilder_Add cmp interval k v b = Some b'"
      "builder_on interval (es @ [(shared, k, v)]) rs' b'"
    using BlockBuilder_Add_on [OF Cons.prems(1,2), of cmp k v] by blast
  then show ?case
    using Cons.IH [OF b'(2) Cons.prems(2)] Cons.prems(3,4) kv by auto
qed auto

end

lemma BlockBuilder_Finish_on:
  "builder_on interval es rs b \<Longrightarrow> fst (BlockBuilder_Finish b) = block_bytes es rs"
proof -
  have "fold (\<lambda>r buffer. PutFixed32 buffer r) xs dst = dst @ concat (map EncodeFixed32 xs)" for xs dst
    by (induction xs arbitrary: dst) (simp_all add: PutFixed32_def)
  then show "builder_on interval es rs b \<Longrightarrow> fst (BlockBuilder_Finish b) = block_bytes es rs"
    by (simp add: BlockBuilder_Finish_def builder_on_def block_bytes_def Let_def o_def PutFixed32_def)
qed

lemma Block_NewIterator_on:
  assumes "block_ok es rs"
  shows "\<exists>it. Block_NewIterator (Block_new (block_bytes es rs)) = Some (EntryIterator it) \<and> iter_on es rs it \<and>
    it_seeked it = False \<and> \<not> BlockIter_Valid it"
proof -
  let ?data = "block_bytes es rs"
  have len: "length ?data = length (entries_data es) + 4 * length rs + 4"
    by (simp add: block_bytes_def length_concat o_def sum_list_triv)
  have rs: "0 < length rs" "length rs < 2 ^ 32" using assms len by (auto simp: block_ok_def restarts_ok_def)
  have "drop (length ?data - 4) ?data = EncodeFixed32 (of_nat (length rs))"
    unfolding len by (simp add: block_bytes_def length_concat o_def sum_list_triv)
  then have num: "Block_NumRestarts ?data (length ?data) = Some (of_nat (length rs))"
    using len DecodeFixed32_ptr_Encode [of _ "[]"] by (simp add: Block_NumRestarts_def)
  then have "Block_new ?data = \<lparr> blk_data = ?data, blk_size = length ?data, blk_restart_offset = length (entries_data es) \<rparr>"
    using rs len by (simp add: Block_new_def Let_def)
  moreover have "(of_nat (length rs) :: u32) \<noteq> 0"
    using rs unat_of_nat_u32 [of "length rs"] by (metis less_numeral_extra(3) unat_0)
  ultimately show ?thesis
    using num rs len by (simp add: Block_NewIterator_def BlockIter_new_def iter_on_def BlockIter_Valid_def)
qed


text \<open>The entries seen by stepping an iterator until it is not valid, at most \<open>n\<close> of them.\<close>

fun collect :: "(BlockIter \<Rightarrow> BlockIter option) \<Rightarrow> nat \<Rightarrow> BlockIter \<Rightarrow> (bytes \<times> bytes) list option" where
  "collect step 0 it = (if BlockIter_Valid it then None else Some [])"
| "collect step (Suc n) it =
     (if BlockIter_Valid it then
        do { k \<leftarrow> BlockIter_key it; v \<leftarrow> BlockIter_value it; it \<leftarrow> step it;
             kvs \<leftarrow> collect step n it; Some ((k, v) # kvs) }
      else Some [])"

lemma collect_Next:
  assumes ok: "block_ok es rs"
  shows "i \<le> length es \<Longrightarrow> iter_pos es rs i it \<Longrightarrow> collect BlockIter_Next (length es - i) it = Some (map snd (drop i es))"
proof (induction "length es - i" arbitrary: i it)
  case 0
  then show ?case by (simp add: iter_pos_def iter_end_def)
next
  case (Suc n)
  then have i: "i < length es" and at: "iter_at es rs i it" by (simp_all add: iter_pos_def)
  obtain it' where it': "BlockIter_Next it = Some it'" "iter_pos es rs (Suc i) it'"
    using BlockIter_Next_at [OF ok at] by blast
  have n: "length es - i = Suc (length es - Suc i)" using i by simp
  have "collect BlockIter_Next (length es - Suc i) it' = Some (map snd (drop (Suc i) es))"
    using Suc.hyps(2) i it'(2) by (intro Suc.hyps(1)) simp_all
  moreover have "map snd (drop i es) = (e_key (es ! i), e_value (es ! i)) # map snd (drop (Suc i) es)"
    using i by (simp add: Cons_nth_drop_Suc [symmetric])
  ultimately show ?case
    unfolding n using at it'(1) by (simp add: iter_at_Valid iter_at_key iter_at_value)
qed

lemma collect_Prev:
  assumes ok: "block_ok es rs"
  shows "iter_at es rs i it \<Longrightarrow> collect BlockIter_Prev (Suc i) it = Some (rev (map snd (take (Suc i) es)))"
proof (induction i arbitrary: it)
  case 0
  then obtain it' where "BlockIter_Prev it = Some it'" "iter_end es rs it'"
    using BlockIter_Prev_at [OF ok "0"] by auto
  moreover have "0 < length es" using "0" by (simp add: iter_at_def)
  ultimately show ?case
    using "0" by (simp add: iter_at_Valid iter_at_key iter_at_value iter_end_def take_Suc_conv_app_nth)
next
  case (Suc i)
  then obtain it' where it': "BlockIter_Prev it = Some it'" "iter_at es rs i it'"
    using BlockIter_Prev_at [OF ok Suc.prems] by auto
  have "Suc i < length es" using Suc.prems by (simp add: iter_at_def)
  then have "rev (map snd (take (Suc (Suc i)) es)) =
      (e_key (es ! Suc i), e_value (es ! Suc i)) # rev (map snd (take (Suc i) es))"
    by (simp add: take_Suc_conv_app_nth [of "Suc i"])
  then show ?case
    using Suc.IH [OF it'(2)] it'(1) Suc.prems by (simp add: iter_at_Valid iter_at_key iter_at_value del: collect.simps(2))
      (simp add: iter_at_Valid iter_at_key iter_at_value collect.simps(2) [of _ "Suc i"] del: collect.simps)
qed

text \<open>What an iterator shows: the first of the remaining entries, or the end without an error.\<close>

definition shows_first :: "(bytes \<times> bytes) list \<Rightarrow> BlockIter \<Rightarrow> bool" where
  "shows_first kvs it \<longleftrightarrow>
     (case kvs of
        [] \<Rightarrow> \<not> BlockIter_Valid it \<and> it_status it = Status_OK
      | (k, v) # _ \<Rightarrow> BlockIter_Valid it \<and> BlockIter_key it = Some k \<and> BlockIter_value it = Some v)"

lemma shows_first_pos: "iter_pos es rs i it \<Longrightarrow> i \<le> length es \<Longrightarrow> shows_first (map snd (drop i es)) it"
proof (cases "i < length es")
  case True
  assume "iter_pos es rs i it"
  then have at: "iter_at es rs i it" using True by (simp add: iter_pos_def)
  show ?thesis
    using at True by (simp add: shows_first_def Cons_nth_drop_Suc [symmetric] iter_at_Valid iter_at_key iter_at_value split_def)
qed (simp add: iter_pos_def iter_end_def iter_on_def shows_first_def)

lemma skip_user_key_pos:
  assumes ok: "block_ok es rs" and num: "\<And>e. e \<in> set es \<Longrightarrow> has_number (e_key e)"
  shows "i \<le> length es \<Longrightarrow> iter_pos es rs i it \<Longrightarrow>
    \<exists>it'. skip_user_key u it = Some it' \<and>
      iter_pos es rs (i + length (takeWhile (\<lambda>e. key_int (ExtractUserKey (e_key e)) \<le> u) (drop i es))) it'"
proof (induction "length es - i" arbitrary: i it)
  case 0
  then have "skip_user_key u it = Some it" by (subst skip_user_key.simps) (simp add: iter_pos_def iter_end_def)
  then show ?case using 0 by simp
next
  case (Suc n)
  then have i: "i < length es" and at: "iter_at es rs i it" by (simp_all add: iter_pos_def)
  have key: "user_key_int None (it_key it) = Some (key_int (ExtractUserKey (e_key (es ! i))))"
    using at num [of "es ! i"] i by (simp add: iter_at_def user_key_int_has_number)
  show ?case
  proof (cases "key_int (ExtractUserKey (e_key (es ! i))) > u")
    case True
    then have "skip_user_key u it = Some it"
      using key iter_at_Valid [OF at] by (subst skip_user_key.simps) simp
    then show ?thesis using Suc.prems True i by (simp add: Cons_nth_drop_Suc [symmetric] flip: not_less)
  next
    case False
    have "iter_before es rs (Suc i) it" using iter_at_before [OF _ at] ok by (simp add: block_ok_def)
    then obtain it' where it': "ParseNextKey it = Some (Suc i < length es, it')" "iter_pos es rs (Suc i) it'"
      using ParseNextKey_pos [OF ok] by blast
    have "skip_user_key u it = skip_user_key u it'"
      using False key iter_at_Valid [OF at] it'(1) by (subst skip_user_key.simps) simp
    then show ?thesis using Suc.hyps(1) [of "Suc i" it'] Suc.hyps(2) i it'(2) False
      by (simp add: Cons_nth_drop_Suc [symmetric] not_less)
  qed
qed

text \<open>Moving keeps the note that the iterator has been positioned.\<close>

lemma ParseNextKey_seeked: "ParseNextKey it = Some (found, it') \<Longrightarrow> it_seeked it' = it_seeked it"
  by (auto simp: ParseNextKey_def CorruptionError_def Let_def dest!: advance_restart_index_fields
      split: if_splits Option.bind_splits option.splits prod.splits)

lemma SeekToRestartPoint_seeked: "SeekToRestartPoint it j = Some it' \<Longrightarrow> it_seeked it' = it_seeked it"
  by (auto simp: SeekToRestartPoint_def split: Option.bind_splits)

lemma parse_until_seeked: "parse_until n it = Some it' \<Longrightarrow> it_seeked it' = it_seeked it"
proof (induction n it rule: parse_until.induct)
  case (1 n it)
  obtain found it1 where p: "ParseNextKey it = Some (found, it1)"
    using "1.prems" by (cases "ParseNextKey it") (auto simp: parse_until.simps [of n it])
  show ?case
  proof (cases "found \<and> (case NextEntryOffset it1 of Some off \<Rightarrow> off < n | None \<Rightarrow> False)")
    case True
    then have "parse_until n it = parse_until n it1" using p by (subst parse_until.simps) simp
    then show ?thesis using "1.IH" [OF p refl True] "1.prems" ParseNextKey_seeked [OF p] by simp
  next
    case False
    with p have "parse_until n it = Some it1" by (subst parse_until.simps) auto
    then show ?thesis using "1.prems" ParseNextKey_seeked [OF p] by simp
  qed
qed

lemma seek_linear_seeked: "seek_linear cmp k it = Some it' \<Longrightarrow> it_seeked it' = it_seeked it"
proof (induction cmp k it rule: seek_linear.induct)
  case (1 cmp k it)
  obtain found it1 where p: "ParseNextKey it = Some (found, it1)"
    using "1.prems" by (cases "ParseNextKey it") (auto simp: seek_linear.simps [of cmp k it])
  show ?case
  proof (cases "found \<and> \<not> cmp (it_key it1) k \<ge> 0")
    case True
    then have "seek_linear cmp k it = seek_linear cmp k it1" using p by (subst seek_linear.simps) simp
    then show ?thesis using "1.IH" [OF p refl True] "1.prems" ParseNextKey_seeked [OF p] by simp
  next
    case False
    with p have "seek_linear cmp k it = Some it1" by (subst seek_linear.simps) auto
    then show ?thesis using "1.prems" ParseNextKey_seeked [OF p] by simp
  qed
qed

lemma skip_user_key_seeked: "skip_user_key n it = Some it' \<Longrightarrow> it_seeked it' = it_seeked it"
proof (induction n it rule: skip_user_key.induct)
  case (1 n it)
  show ?case
  proof (cases "BlockIter_Valid it \<and> (\<exists>u. user_key_int None (it_key it) = Some u \<and> \<not> u > n)")
    case True
    then obtain u where u: "BlockIter_Valid it" "user_key_int None (it_key it) = Some u" "\<not> u > n" by blast
    obtain found it1 where p: "ParseNextKey it = Some (found, it1)"
      using "1.prems" u by (cases "ParseNextKey it") (auto simp: skip_user_key.simps [of n it])
    then have "skip_user_key n it = skip_user_key n it1" using u by (subst skip_user_key.simps) simp
    then show ?thesis using "1.IH" [OF u p refl] "1.prems" ParseNextKey_seeked [OF p] by simp
  next
    case False
    then have "it' = it" using "1.prems" by (auto simp: skip_user_key.simps [of n it] split: if_splits option.splits)
    then show ?thesis by simp
  qed
qed

lemma Seek_seeked: "BlockIter_Seek cmp target it = Some it' \<Longrightarrow> it_seeked it'"
proof -
  assume seek: "BlockIter_Seek cmp target it = Some it'"
  let ?it = "it \<lparr> it_seeked := True \<rparr>"
  consider "it' = CorruptionError ?it" | left it1 where "SeekToRestartPoint ?it left = Some it1" "seek_linear cmp target it1 = Some it'"
    using seek by (auto simp: BlockIter_Seek_def Let_def bind_eq_Some_conv split: option.splits)
  then show ?thesis
  proof cases
    case 2
    then show ?thesis using seek_linear_seeked [OF 2(2)] SeekToRestartPoint_seeked [OF 2(1)] by simp
  qed (simp add: CorruptionError_def)
qed

lemma SeekToFirst_seeked: "BlockIter_SeekToFirst it = Some it' \<Longrightarrow> it_seeked it'"
  by (auto simp: BlockIter_SeekToFirst_def bind_eq_Some_conv dest!: SeekToRestartPoint_seeked ParseNextKey_seeked)

lemma SeekToLast_seeked: "BlockIter_SeekToLast it = Some it' \<Longrightarrow> it_seeked it'"
  by (auto simp: BlockIter_SeekToLast_def bind_eq_Some_conv dest!: SeekToRestartPoint_seeked parse_until_seeked)

lemma Next_seeked: "BlockIter_Next it = Some it' \<Longrightarrow> it_seeked it' = it_seeked it"
  by (auto simp: BlockIter_Next_def split: if_splits dest!: ParseNextKey_seeked)

lemma Prev_seeked: "BlockIter_Prev it = Some it' \<Longrightarrow> it_seeked it' = it_seeked it"
  by (auto simp: BlockIter_Prev_def Let_def bind_eq_Some_conv split: if_splits option.splits
      dest!: SeekToRestartPoint_seeked parse_until_seeked)

subsection \<open>An iterator is a cursor over the entries\<close>

text \<open>
  The operations of an iterator as data, and what a client sees of them: a position in the list of entries, \<open>None\<close>
  before the first positioning. \<^verbatim>\<open>Next\<close> and \<^verbatim>\<open>Prev\<close> are allowed at an entry only; \<^verbatim>\<open>Prev\<close> at the first entry leaves
  the block. \<^verbatim>\<open>SkipToNextUserKey\<close> starts at the target when the iterator has no position yet, and where it is otherwise.
\<close>

datatype block_op = OpSeek bytes | OpSeekToFirst | OpSeekToLast | OpNext | OpPrev | OpSkip bytes

primrec block_step :: "(bytes \<Rightarrow> bytes \<Rightarrow> int) \<Rightarrow> block_op \<Rightarrow> BlockIter \<Rightarrow> BlockIter option" where
  "block_step cmp (OpSeek target) it = BlockIter_Seek cmp target it"
| "block_step cmp OpSeekToFirst it = BlockIter_SeekToFirst it"
| "block_step cmp OpSeekToLast it = BlockIter_SeekToLast it"
| "block_step cmp OpNext it = BlockIter_Next it"
| "block_step cmp OpPrev it = BlockIter_Prev it"
| "block_step cmp (OpSkip target) it = BlockIter_SkipToNextUserKey cmp target it"

fun cursor_step :: "(bytes \<Rightarrow> bytes \<Rightarrow> int) \<Rightarrow> (bytes \<times> bytes) list \<Rightarrow> block_op \<Rightarrow> nat option \<Rightarrow> nat option option" where
  "cursor_step cmp kvs (OpSeek target) p = Some (Some (length (takeWhile (\<lambda>(k, _). cmp k target < 0) kvs)))"
| "cursor_step cmp kvs OpSeekToFirst p = Some (Some 0)"
| "cursor_step cmp kvs OpSeekToLast p = Some (Some (length kvs - 1))"
| "cursor_step cmp kvs OpNext (Some i) = (if i < length kvs then Some (Some (i + 1)) else None)"
| "cursor_step cmp kvs OpPrev (Some i) =
     (if i < length kvs then Some (Some (if i = 0 then length kvs else i - 1)) else None)"
| "cursor_step cmp kvs (OpSkip target) p =
     (let i = (case p of None \<Rightarrow> length (takeWhile (\<lambda>(k, _). cmp k target < 0) kvs) | Some i \<Rightarrow> i)
      in Some (Some (i + length (takeWhile (\<lambda>(k, _). key_int (ExtractUserKey k) \<le> key_int (ExtractUserKey target))
                                   (drop i kvs)))))"
| "cursor_step cmp kvs _ None = None"

fun run :: "('op \<Rightarrow> 's \<Rightarrow> 's option) \<Rightarrow> 'op list \<Rightarrow> 's \<Rightarrow> 's option" where
  "run step [] s = Some s"
| "run step (op # ops) s = do { s \<leftarrow> step op s; run step ops s }"

primrec op_ok :: "(bytes \<Rightarrow> bool) \<Rightarrow> block_op \<Rightarrow> bool" where
  "op_ok valid (OpSeek target) \<longleftrightarrow> valid target"
| "op_ok valid OpSeekToFirst \<longleftrightarrow> True"
| "op_ok valid OpSeekToLast \<longleftrightarrow> True"
| "op_ok valid OpNext \<longleftrightarrow> True"
| "op_ok valid OpPrev \<longleftrightarrow> True"
| "op_ok valid (OpSkip target) \<longleftrightarrow> valid target \<and> has_number target"

text \<open>What an iterator at a position shows: nothing before the first positioning.\<close>

definition shows_cursor :: "(bytes \<times> bytes) list \<Rightarrow> nat option \<Rightarrow> BlockIter \<Rightarrow> bool" where
  "shows_cursor kvs p it \<longleftrightarrow> shows_first (case p of None \<Rightarrow> [] | Some i \<Rightarrow> drop i kvs) it"

text \<open>The simulation relation.\<close>

definition iter_cursor :: "entry list \<Rightarrow> nat list \<Rightarrow> nat option \<Rightarrow> BlockIter \<Rightarrow> bool" where
  "iter_cursor es rs p it \<longleftrightarrow>
     (case p of
        None \<Rightarrow> iter_end es rs it \<and> \<not> it_seeked it
      | Some i \<Rightarrow> i \<le> length es \<and> iter_pos es rs i it \<and> it_seeked it)"

lemma iter_pos_on: "iter_pos es rs i it \<Longrightarrow> iter_on es rs it"
  by (auto simp: iter_pos_def iter_at_def iter_end_def split: if_splits)

lemma iter_cursor_on: "iter_cursor es rs p it \<Longrightarrow> iter_on es rs it"
  by (auto simp: iter_cursor_def iter_end_def dest: iter_pos_on split: option.splits)

lemma SeekToLast_pos:
  assumes ok: "block_ok es rs" and on: "iter_on es rs it"
  shows "\<exists>it'. BlockIter_SeekToLast it = Some it' \<and> iter_pos es rs (length es - 1) it'"
proof (cases "es = []")
  case True
  have rs: "0 < length rs" "rs = [0]"
    using ok True restart_nth [of es rs] by (cases rs rule: remdups_adj.cases; auto simp: block_ok_def restarts_ok_def)+
  have on': "iter_on es rs (it \<lparr> it_seeked := True \<rparr>)" using on by (simp add: iter_on_def)
  then obtain it1 where it1: "SeekToRestartPoint (it \<lparr> it_seeked := True \<rparr>) 0 = Some it1" "iter_before es rs 0 it1"
    using SeekToRestartPoint_before [OF ok _ rs(1)] rs(2) by fastforce
  obtain it2 where it2: "ParseNextKey it1 = Some (0 < length es, it2)" "iter_pos es rs 0 it2"
    using ParseNextKey_pos [OF ok it1(2)] by blast
  then have "parse_until n it1 = Some it2" for n using True by (subst parse_until.simps) simp
  moreover have "it_num_restarts it = 1" using on rs by (simp add: iter_on_def)
  ultimately show ?thesis using it1(1) it2(2) True by (simp add: BlockIter_SeekToLast_def)
next
  case False
  then have "length es - 1 < length es" by simp
  then show ?thesis using BlockIter_SeekToLast_pos [OF ok on False] by (auto simp: iter_pos_def)
qed

lemma shows_cursor_iter: "map snd es = kvs \<Longrightarrow> iter_cursor es rs p it \<Longrightarrow> shows_cursor kvs p it"
  using shows_first_pos
  by (auto simp: shows_cursor_def iter_cursor_def shows_first_def iter_end_def iter_on_def drop_map split: option.splits)

lemma takeWhile_entries:
  "map snd es = kvs \<Longrightarrow> length (takeWhile (\<lambda>(k, _). P k) (drop i kvs)) = length (takeWhile (\<lambda>e. P (e_key e)) (drop i es))"
  by (auto simp: drop_map takeWhile_map o_def split_def)


context comparator
begin

lemma built_block:
  assumes "increasing cmp (map fst kvs)" "\<forall>k\<in>set (map fst kvs). valid k" "interval \<ge> 1"
  shows "\<exists>b es rs. add_entries cmp interval kvs BlockBuilder_new = Some b \<and> map snd es = kvs \<and>
    fst (BlockBuilder_Finish b) = block_bytes es rs \<and>
    (length (fst (BlockBuilder_Finish b)) < 2 ^ 32 \<longrightarrow> block_ok es rs)"
proof -
  obtain b es rs where b: "add_entries cmp interval kvs BlockBuilder_new = Some b" "builder_on interval es rs b" "map snd es = kvs"
    using add_entries_on [OF builder_on_new assms(3), of kvs] assms(1,2) by auto
  then show ?thesis
    using BlockBuilder_Finish_on [OF b(2)] by (intro exI [of _ b] exI [of _ es] exI [of _ rs]) (simp add: block_ok_def builder_on_def)
qed

lemma block_iteration_spec:
  assumes "increasing cmp (map fst kvs)" "\<forall>k\<in>set (map fst kvs). valid k" "interval \<ge> 1"
  shows "\<exists>b. add_entries cmp interval kvs BlockBuilder_new = Some b \<and>
    (length (fst (BlockBuilder_Finish b)) < 2 ^ 32 \<longrightarrow>
     (\<exists>it first. Block_NewIterator (Block_new (fst (BlockBuilder_Finish b))) = Some (EntryIterator it) \<and>
        BlockIter_SeekToFirst it = Some first \<and> collect BlockIter_Next (length kvs) first = Some kvs \<and>
        (kvs \<noteq> [] \<longrightarrow>
          (\<exists>last. BlockIter_SeekToLast it = Some last \<and> collect BlockIter_Prev (length kvs) last = Some (rev kvs)))))"
proof -
  obtain b es rs where b: "add_entries cmp interval kvs BlockBuilder_new = Some b" "map snd es = kvs"
      "fst (BlockBuilder_Finish b) = block_bytes es rs" "length (fst (BlockBuilder_Finish b)) < 2 ^ 32 \<longrightarrow> block_ok es rs"
    using built_block [OF assms] by blast
  have len: "length es = length kvs" using b(2) by auto
  have "\<exists>it first. Block_NewIterator (Block_new (fst (BlockBuilder_Finish b))) = Some (EntryIterator it) \<and>
        BlockIter_SeekToFirst it = Some first \<and> collect BlockIter_Next (length kvs) first = Some kvs \<and>
        (kvs \<noteq> [] \<longrightarrow>
          (\<exists>last. BlockIter_SeekToLast it = Some last \<and> collect BlockIter_Prev (length kvs) last = Some (rev kvs)))"
    if "length (fst (BlockBuilder_Finish b)) < 2 ^ 32"
  proof -
    have ok: "block_ok es rs" using b(4) that by blast
    obtain it where it: "Block_NewIterator (Block_new (block_bytes es rs)) = Some (EntryIterator it)" "iter_on es rs it"
      using Block_NewIterator_on [OF ok] by blast
    obtain first where first: "BlockIter_SeekToFirst it = Some first" "iter_pos es rs 0 first"
      using BlockIter_SeekToFirst_pos [OF ok it(2)] by blast
    have next_all: "collect BlockIter_Next (length kvs) first = Some kvs"
      using collect_Next [OF ok _ first(2)] b(2) len by simp
    have "\<exists>last. BlockIter_SeekToLast it = Some last \<and> collect BlockIter_Prev (length kvs) last = Some (rev kvs)"
      if "kvs \<noteq> []"
    proof -
      have ne: "es \<noteq> []" using that b(2) by auto
      then obtain last where last: "BlockIter_SeekToLast it = Some last" "iter_at es rs (length es - 1) last"
        using BlockIter_SeekToLast_pos [OF ok it(2)] by blast
      moreover have "Suc (length es - 1) = length kvs" using that len by (cases kvs) auto
      ultimately show ?thesis using collect_Prev [OF ok last(2)] b(2) len by (simp del: collect.simps)
    qed
    then show ?thesis using it(1) first(1) next_all b(3) by auto
  qed
  then show ?thesis using b(1) by blast
qed

lemma block_step_cursor:
  assumes ok: "block_ok es rs" and kvs: "map snd es = kvs" and sorted: "increasing cmp (map fst kvs)"
    and keys: "\<forall>k\<in>set (map fst kvs). valid k \<and> has_number k" and op: "op_ok valid op"
    and it: "iter_cursor es rs p it" and step: "cursor_step cmp kvs op p = Some p'"
  shows "\<exists>it'. block_step cmp op it = Some it' \<and> iter_cursor es rs p' it'"
proof -
  have len: "length kvs = length es" and fst: "map e_key es = map fst kvs" using kvs by auto
  have valid: "valid (e_key e)" and num: "has_number (e_key e)" if "e \<in> set es" for e
    using keys that unfolding fst [symmetric] by auto
  have on: "iter_on es rs it" by (rule iter_cursor_on [OF it])
  let ?lb = "\<lambda>target. length (takeWhile (\<lambda>(k, _). cmp k target < 0) kvs)"
  have lb: "?lb target = lower_bound cmp target es" "?lb target \<le> length es" for target
    using takeWhile_entries [OF kvs, of "\<lambda>k. cmp k target < 0" 0] length_takeWhile_le [of "\<lambda>e. cmp (e_key e) target < 0" es]
    by (simp_all add: lower_bound_def)
  have seek: "\<exists>it'. BlockIter_Seek cmp target it = Some it' \<and> iter_cursor es rs (Some (?lb target)) it'" if "valid target" for target
    using BlockIter_Seek_pos [OF ok on valid that] sorted lb Seek_seeked [of cmp target it]
    by (auto simp: iter_cursor_def fst)
  have skip: "\<exists>it'. BlockIter_SkipToNextUserKey cmp target it1 = Some it' \<and> iter_cursor es rs (Some (i +
      length (takeWhile (\<lambda>(k, _). key_int (ExtractUserKey k) \<le> key_int (ExtractUserKey target)) (drop i kvs)))) it'"
    if "iter_cursor es rs (Some i) it2" "has_number target" "it_seeked it1 \<and> it2 = it1 \<or> \<not> it_seeked it1 \<and> BlockIter_Seek cmp target it1 = Some it2"
    for target it1 it2 i
  proof -
    have pos: "i \<le> length es" "iter_pos es rs i it2" "it_seeked it2" using that(1) by (auto simp: iter_cursor_def)
    obtain it' where it': "skip_user_key (key_int (ExtractUserKey target)) it2 = Some it'"
        "iter_pos es rs (i + length (takeWhile (\<lambda>e. key_int (ExtractUserKey (e_key e)) \<le> key_int (ExtractUserKey target)) (drop i es))) it'"
      using skip_user_key_pos [OF ok num pos(1,2)] by blast
    moreover have "i + length (takeWhile P (drop i es)) \<le> length es" for P
      using length_takeWhile_le [of P "drop i es"] pos(1) by simp
    ultimately show ?thesis
      using that(2,3) skip_user_key_seeked [OF it'(1)] pos(3)
      by (auto simp: BlockIter_SkipToNextUserKey_def user_key_int_has_number iter_cursor_def takeWhile_entries [OF kvs])
  qed
  show ?thesis
  proof (cases op)
    case (OpSeek target)
    then show ?thesis using seek [of target] op step by auto
  next
    case OpSeekToFirst
    then show ?thesis using BlockIter_SeekToFirst_pos [OF ok on] SeekToFirst_seeked [of it] step
      by (auto simp: iter_cursor_def)
  next
    case OpSeekToLast
    then show ?thesis using SeekToLast_pos [OF ok on] SeekToLast_seeked [of it] step
      by (auto simp: iter_cursor_def len)
  next
    case OpNext
    then obtain i where i: "p = Some i" "i < length es" "p' = Some (Suc i)"
      using step len by (cases p) (auto split: if_splits)
    then have at: "iter_at es rs i it" "it_seeked it" using it by (auto simp: iter_cursor_def iter_pos_def)
    obtain it' where "BlockIter_Next it = Some it'" "iter_pos es rs (Suc i) it'"
      using BlockIter_Next_at [OF ok at(1)] by blast
    then show ?thesis using Next_seeked [of it it'] at(2) i OpNext by (auto simp: iter_cursor_def)
  next
    case OpPrev
    then obtain i where i: "p = Some i" "i < length es" "p' = Some (if i = 0 then length es else i - 1)"
      using step len by (cases p) (auto split: if_splits)
    then have at: "iter_at es rs i it" "it_seeked it" using it by (auto simp: iter_cursor_def iter_pos_def)
    obtain it' where "BlockIter_Prev it = Some it'" "if i = 0 then iter_end es rs it' else iter_at es rs (i - 1) it'"
      using BlockIter_Prev_at [OF ok at(1)] by blast
    then show ?thesis using Prev_seeked [of it it'] at(2) i OpPrev by (auto simp: iter_cursor_def iter_pos_def)
  next
    case (OpSkip target)
    show ?thesis
    proof (cases p)
      case None
      then obtain it2 where "BlockIter_Seek cmp target it = Some it2" "iter_cursor es rs (Some (?lb target)) it2"
        using seek [of target] op OpSkip by auto
      then show ?thesis using skip [of "?lb target" it2 target it] None it op step OpSkip
        by (auto simp: iter_cursor_def Let_def)
    next
      case (Some i)
      then show ?thesis using skip [of i it target it] it op step OpSkip by (auto simp: iter_cursor_def Let_def)
    qed
  qed
qed

lemma block_run_cursor:
  assumes "block_ok es rs" and "map snd es = kvs" and "increasing cmp (map fst kvs)"
    and "\<forall>k\<in>set (map fst kvs). valid k \<and> has_number k"
  shows "iter_cursor es rs p it \<Longrightarrow> list_all (op_ok valid) ops \<Longrightarrow> run (cursor_step cmp kvs) ops p = Some p' \<Longrightarrow>
    \<exists>it'. run (block_step cmp) ops it = Some it' \<and> iter_cursor es rs p' it'"
proof (induction ops arbitrary: p it)
  case (Cons op ops)
  then obtain p1 where p1: "cursor_step cmp kvs op p = Some p1" "run (cursor_step cmp kvs) ops p1 = Some p'"
    by (auto simp: bind_eq_Some_conv)
  moreover obtain it1 where "block_step cmp op it = Some it1" "iter_cursor es rs p1 it1"
    using block_step_cursor [OF assms _ Cons.prems(1) p1(1)] Cons.prems(2) by auto
  ultimately show ?case using Cons.IH [of p1 it1] Cons.prems(2) by auto
qed simp

lemma block_cursor_spec:
  assumes "increasing cmp (map fst kvs)" "\<forall>k\<in>set (map fst kvs). valid k \<and> has_number k" "interval \<ge> 1"
  shows "\<exists>b. add_entries cmp interval kvs BlockBuilder_new = Some b \<and>
    (length (fst (BlockBuilder_Finish b)) < 2 ^ 32 \<longrightarrow>
     (\<exists>it. Block_NewIterator (Block_new (fst (BlockBuilder_Finish b))) = Some (EntryIterator it) \<and>
        (\<forall>ops p. list_all (op_ok valid) ops \<and> run (cursor_step cmp kvs) ops None = Some p \<longrightarrow>
           (\<exists>it'. run (block_step cmp) ops it = Some it' \<and> shows_cursor kvs p it'))))"
proof -
  obtain b es rs where b: "add_entries cmp interval kvs BlockBuilder_new = Some b" "map snd es = kvs"
      "fst (BlockBuilder_Finish b) = block_bytes es rs" "length (fst (BlockBuilder_Finish b)) < 2 ^ 32 \<longrightarrow> block_ok es rs"
    using built_block [OF assms(1) _ assms(3)] assms(2) by blast
  have "\<exists>it. Block_NewIterator (Block_new (fst (BlockBuilder_Finish b))) = Some (EntryIterator it) \<and>
      (\<forall>ops p. list_all (op_ok valid) ops \<and> run (cursor_step cmp kvs) ops None = Some p \<longrightarrow>
         (\<exists>it'. run (block_step cmp) ops it = Some it' \<and> shows_cursor kvs p it'))"
    if "length (fst (BlockBuilder_Finish b)) < 2 ^ 32"
  proof -
    have ok: "block_ok es rs" using b(4) that by blast
    obtain it where it: "Block_NewIterator (Block_new (block_bytes es rs)) = Some (EntryIterator it)" "iter_cursor es rs None it"
      using Block_NewIterator_on [OF ok] by (auto simp: iter_cursor_def iter_end_def)
    then show ?thesis
      using block_run_cursor [OF ok b(2) assms(1,2) it(2)] shows_cursor_iter [OF b(2)] b(3) by (metis (no_types))
  qed
  then show ?thesis using b(1) by blast
qed

end

text \<open>
  A crafted entry whose lengths add up to more than 32 bits passes the bounds check of \<^verbatim>\<open>DecodeEntry\<close>: the sum
  wraps to zero although the key would need 4 GB.
\<close>

lemma entry_length_wraps:
  "DecodeEntry [0, 0xff, 0xff, 0xff, 0xff, 0x0f, 1] = Some (0, 0xffffffff, 1, [])"
  by (simp add: DecodeEntry_def GetVarint32Ptr_def GetVarint32PtrFallback_def)

subsection \<open>Properties\<close>

text \<open>
  (C4) A block gives back its entries. For keys in increasing order no assertion of the builder fails; the finished
  block is accepted; iterating from the first entry with \<^verbatim>\<open>Next\<close> gives exactly the entries added, and iterating
  from the last one with \<^verbatim>\<open>Prev\<close> gives them in reverse. Here for the internal keys of the YCSB comparator and
  every restart interval.
\<close>

theorem block_iteration:
  assumes "increasing (InternalKeyComparator_Compare YCSB_Compare) (map fst kvs)"
    and "\<forall>k\<in>set (map fst kvs). internal_key_ok k" and "interval \<ge> 1"
  shows "\<exists>b. add_entries (InternalKeyComparator_Compare YCSB_Compare) interval kvs BlockBuilder_new = Some b \<and>
    (length (fst (BlockBuilder_Finish b)) < 2 ^ 32 \<longrightarrow>
     (\<exists>it first. Block_NewIterator (Block_new (fst (BlockBuilder_Finish b))) = Some (EntryIterator it) \<and>
        BlockIter_SeekToFirst it = Some first \<and> collect BlockIter_Next (length kvs) first = Some kvs \<and>
        (kvs \<noteq> [] \<longrightarrow>
          (\<exists>last. BlockIter_SeekToLast it = Some last \<and> collect BlockIter_Prev (length kvs) last = Some (rev kvs)))))"
  using assms by (rule internal_ycsb.internal.block_iteration_spec)

definition example_entries :: "(bytes \<times> bytes) list" where
  "example_entries = [([0x31, 1, 0, 0, 0, 0, 0, 0, 0], [7]), ([0x32, 1, 0, 0, 0, 0, 0, 0, 0], [8, 9])]"

lemma example_keys: "key_int [0x31] = 1" "key_int [0x32] = 2"
  by (simp_all add: key_int_def str_to_int_def of_char_def)

lemma example_entries_ok:
  "increasing (InternalKeyComparator_Compare YCSB_Compare) (map fst example_entries)"
  "\<forall>k\<in>set (map fst example_entries). internal_key_ok k"
  "length (fst (BlockBuilder_Finish (the (add_entries (InternalKeyComparator_Compare YCSB_Compare) 1 example_entries
     BlockBuilder_new)))) < 2 ^ 32"
  by (simp_all add: example_entries_def BlockBuilder_Add_def BlockBuilder_new_def BlockBuilder_Finish_def PutVarint32_def
      PutFixed32_def EncodeVarint32_def InternalKeyComparator_Compare_def YCSB_Compare_def ExtractUserKey_def example_keys Let_def)

theorem block_iteration_witness:
  "\<exists>b it first. add_entries (InternalKeyComparator_Compare YCSB_Compare) 1 example_entries BlockBuilder_new = Some b \<and>
    Block_NewIterator (Block_new (fst (BlockBuilder_Finish b))) = Some (EntryIterator it) \<and>
    BlockIter_SeekToFirst it = Some first \<and> collect BlockIter_Next 2 first = Some example_entries"
proof -
  have len: "length example_entries = 2" by (simp add: example_entries_def)
  have "(1 :: nat) \<ge> 1" by simp
  from block_iteration [OF example_entries_ok(1,2) this] example_entries_ok(3) show ?thesis
    unfolding len by (metis option.sel)
qed

text \<open>
  (C1) An iterator of a block is a cursor over its entries. On a block built from increasing keys, any sequence of
  operations in which \<^verbatim>\<open>Next\<close> and \<^verbatim>\<open>Prev\<close> are only called at an entry never aborts, and the iterator then shows
  the entry at the position of the cursor, or is past the end without an error. In particular, wherever the
  iterator stands, \<^verbatim>\<open>Seek\<close> ends at the first entry whose key is not below the target; and
  \<^verbatim>\<open>SkipToNextUserKey\<close>, from the target on for a new iterator and from its position otherwise, ends at the first
  entry whose user key has a larger number than that of the target. The user keys of the entries, and of the
  targets that are skipped, are not empty and do not start with a newline.
\<close>

theorem block_seek:
  assumes "increasing (InternalKeyComparator_Compare YCSB_Compare) (map fst kvs)"
    and "\<forall>k\<in>set (map fst kvs). internal_key_ok k \<and> has_number k" and "interval \<ge> 1"
  shows "\<exists>b. add_entries (InternalKeyComparator_Compare YCSB_Compare) interval kvs BlockBuilder_new = Some b \<and>
    (length (fst (BlockBuilder_Finish b)) < 2 ^ 32 \<longrightarrow>
     (\<exists>it. Block_NewIterator (Block_new (fst (BlockBuilder_Finish b))) = Some (EntryIterator it) \<and>
        (\<forall>ops p. list_all (op_ok internal_key_ok) ops \<and>
           run (cursor_step (InternalKeyComparator_Compare YCSB_Compare) kvs) ops None = Some p \<longrightarrow>
           (\<exists>it'. run (block_step (InternalKeyComparator_Compare YCSB_Compare)) ops it = Some it' \<and>
              shows_cursor kvs p it'))))"
  using assms by (rule internal_ycsb.internal.block_cursor_spec)

theorem block_seek_witness:
  "\<exists>b it it'. add_entries (InternalKeyComparator_Compare YCSB_Compare) 1 example_entries BlockBuilder_new = Some b \<and>
    Block_NewIterator (Block_new (fst (BlockBuilder_Finish b))) = Some (EntryIterator it) \<and>
    run (block_step (InternalKeyComparator_Compare YCSB_Compare))
      [OpSeek [0x32, 1, 0, 0, 0, 0, 0, 0, 0], OpPrev, OpSkip [0x31, 1, 0, 0, 0, 0, 0, 0, 0]] it = Some it' \<and>
    BlockIter_value it' = Some [8, 9]"
proof -
  let ?t = "[0x32, 1, 0, 0, 0, 0, 0, 0, 0] :: bytes" and ?u = "[0x31, 1, 0, 0, 0, 0, 0, 0, 0] :: bytes"
  let ?ops = "[OpSeek ?t, OpPrev, OpSkip ?u]"
  have keys: "\<forall>k\<in>set (map fst example_entries). internal_key_ok k \<and> has_number k"
    by (simp add: example_entries_def has_number_def)
  have cursor: "run (cursor_step (InternalKeyComparator_Compare YCSB_Compare) example_entries) ?ops None = Some (Some 1)"
    by (simp add: example_entries_def InternalKeyComparator_Compare_def YCSB_Compare_def ExtractUserKey_def example_keys
        word_le_nat_alt split: option.splits)
  have ops: "list_all (op_ok internal_key_ok) ?ops" by (simp add: has_number_def)
  have shown: "BlockIter_value it' = Some [8, 9]" if "shows_cursor example_entries (Some 1) it'" for it'
    using that by (simp add: shows_cursor_def shows_first_def example_entries_def)
  obtain b it where b: "add_entries (InternalKeyComparator_Compare YCSB_Compare) 1 example_entries BlockBuilder_new = Some b"
      "Block_NewIterator (Block_new (fst (BlockBuilder_Finish b))) = Some (EntryIterator it)"
      "\<forall>ops p. list_all (op_ok internal_key_ok) ops \<and>
         run (cursor_step (InternalKeyComparator_Compare YCSB_Compare) example_entries) ops None = Some p \<longrightarrow>
         (\<exists>it'. run (block_step (InternalKeyComparator_Compare YCSB_Compare)) ops it = Some it' \<and>
            shows_cursor example_entries p it')"
    using block_seek [OF example_entries_ok(1) keys order_refl] example_entries_ok(3) by (metis option.sel)
  from b(3) ops cursor obtain it' where "run (block_step (InternalKeyComparator_Compare YCSB_Compare)) ?ops it = Some it'"
      "shows_cursor example_entries (Some 1) it'"
    by blast
  with b(1,2) shown show ?thesis by blast
qed

end
