(* ===== verification/CRC32C.thy ===== *)
theory CRC32C
  imports CRC32CTables
begin

text \<open>
  The checksum of blocks and log records, \<^verbatim>\<open>util/crc32c.cc\<close> and \<^verbatim>\<open>util/crc32c.h\<close> over the
  lookup tables. The portable implementation handles unaligned bytes, four interleaved strides of
  four bytes, single words and the remaining bytes with different tables; it is shown equal to the
  bit-at-a-time definition of CRC-32C. A buffer is its bytes together with the address of the first one, since
  the code aligns its reads.
\<close>

subsection \<open>The portable implementation\<close>

definition kCRC32Xor :: u32 where
  "kCRC32Xor = 0xffffffff"

text \<open>Every read is guarded by the length of the buffer, so the word is always there.\<close>

definition ReadUint32LE :: "bytes \<Rightarrow> u32" where
  "ReadUint32LE buffer = (case DecodeFixed32_ptr buffer of Some v \<Rightarrow> v | None \<Rightarrow> 0)"

definition RoundUp :: "nat \<Rightarrow> nat \<Rightarrow> nat" where
  "RoundUp n pointer = (pointer + (n - 1)) div n * n"

definition STEP1 :: "u32 \<Rightarrow> byte \<Rightarrow> u32" where
  "STEP1 l b = (let c = (l AND 0xff) XOR ucast b in kByteExtensionTable ! unat c XOR drop_bit 8 l)"

definition STEP4 :: "bytes \<Rightarrow> u32 \<Rightarrow> u32" where
  "STEP4 p crc = ReadUint32LE p XOR kStrideExtensionTable3 ! unat (crc AND 0xff) XOR
     kStrideExtensionTable2 ! unat (drop_bit 8 crc AND 0xff) XOR
     kStrideExtensionTable1 ! unat (drop_bit 16 crc AND 0xff) XOR
     kStrideExtensionTable0 ! unat (drop_bit 24 crc)"

type_synonym strides = "u32 \<times> u32 \<times> u32 \<times> u32"

definition STEP16 :: "bytes \<Rightarrow> strides \<Rightarrow> strides" where
  "STEP16 p s = (case s of (crc0, crc1, crc2, crc3) \<Rightarrow>
     (STEP4 p crc0, STEP4 (drop 4 p) crc1, STEP4 (drop 8 p) crc2, STEP4 (drop 12 p) crc3))"

definition STEP4W :: "u32 \<Rightarrow> u32 \<Rightarrow> u32" where
  "STEP4W w l = ((\<lambda>w. drop_bit 8 w XOR kByteExtensionTable ! unat (w AND 0xff)) ^^ 4) (w XOR l)"

function swath_loop :: "bytes \<Rightarrow> strides \<Rightarrow> bytes \<times> strides" where
  "swath_loop p s = (if length p \<ge> 16 then swath_loop (drop 16 p) (STEP16 p s) else (p, s))"
  by pat_completeness auto
termination
  by (relation "measure (length \<circ> fst)") auto

function word_loop :: "bytes \<Rightarrow> strides \<Rightarrow> bytes \<times> strides" where
  "word_loop p s =
     (if length p \<ge> 4 then case s of (crc0, crc1, crc2, crc3) \<Rightarrow> word_loop (drop 4 p) (crc1, crc2, crc3, STEP4 p crc0)
      else (p, s))"
  by pat_completeness auto
termination
  by (relation "measure (length \<circ> fst)") auto

declare swath_loop.simps [simp del] word_loop.simps [simp del]

definition Extend_swaths :: "u32 \<Rightarrow> bytes \<Rightarrow> u32 \<times> bytes" where
  "Extend_swaths l p =
     (if length p \<ge> 16 then
        let s = (ReadUint32LE p XOR l, ReadUint32LE (drop 4 p), ReadUint32LE (drop 8 p), ReadUint32LE (drop 12 p));
            (p, s) = swath_loop (drop 16 p) s;
            (p, crc0, crc1, crc2, crc3) = word_loop p s
        in (STEP4W crc3 (STEP4W crc2 (STEP4W crc1 (STEP4W crc0 0))), p)
      else (l, p))"

definition Extend_portable :: "nat \<Rightarrow> u32 \<Rightarrow> bytes \<Rightarrow> u32" where
  "Extend_portable address crc data =
     (let l = crc XOR kCRC32Xor;
          x = RoundUp 4 address - address;
          (l, p) = (if x \<le> length data then (foldl STEP1 l (take x data), drop x data) else (l, data));
          (l, p) = Extend_swaths l p
      in foldl STEP1 l p XOR kCRC32Xor)"

text \<open>
  A build with the external library delegates to its \<^verbatim>\<open>crc32c::Extend\<close>, which is a parameter here; without it
  the port returns zero and the portable code is used.
\<close>

definition AcceleratedCRC32C :: "(u32 \<Rightarrow> bytes \<Rightarrow> u32) option \<Rightarrow> u32 \<Rightarrow> bytes \<Rightarrow> u32" where
  "AcceleratedCRC32C lib crc buf = (case lib of Some extend \<Rightarrow> extend crc buf | None \<Rightarrow> 0)"

definition CanAccelerateCRC32C :: "(u32 \<Rightarrow> bytes \<Rightarrow> u32) option \<Rightarrow> bool" where
  "CanAccelerateCRC32C lib \<longleftrightarrow>
     AcceleratedCRC32C lib 0 [0x54, 0x65, 0x73, 0x74, 0x43, 0x52, 0x43, 0x42, 0x75, 0x66, 0x66, 0x65, 0x72] = 0xdcbc59fa"

definition Extend :: "(u32 \<Rightarrow> bytes \<Rightarrow> u32) option \<Rightarrow> nat \<Rightarrow> u32 \<Rightarrow> bytes \<Rightarrow> u32" where
  "Extend lib address crc data =
     (if CanAccelerateCRC32C lib then AcceleratedCRC32C lib crc data else Extend_portable address crc data)"

definition Value :: "(u32 \<Rightarrow> bytes \<Rightarrow> u32) option \<Rightarrow> nat \<Rightarrow> bytes \<Rightarrow> u32" where
  "Value lib address data = Extend lib address 0 data"

definition kMaskDelta :: u32 where
  "kMaskDelta = 0xa282ead8"

definition Mask :: "u32 \<Rightarrow> u32" where
  "Mask crc = (drop_bit 15 crc OR push_bit 17 crc) + kMaskDelta"

definition Unmask :: "u32 \<Rightarrow> u32" where
  "Unmask masked_crc = (let rot = masked_crc - kMaskDelta in drop_bit 17 rot OR push_bit 15 rot)"

subsection \<open>Equivalence with the definition\<close>

lemma and_255: "l AND 0xff = take_bit 8 l" for l :: u32
  by (simp add: take_bit_eq_mask mask_eq_exp_minus_1)

lemma unat_take_bit_8: "unat (take_bit 8 l :: u32) < 256"
  by (simp add: take_bit_eq_mod unat_mod)

lemma unat_drop_bit_24: "unat (drop_bit 24 l :: u32) < 256"
  using unat_u32_less [of l] by (simp add: drop_bit_eq_div unat_div less_mult_imp_div_less)

lemma crc_bits_push:
  assumes "m \<le> n" "\<And>i. bit a i \<Longrightarrow> i + m < 32"
  shows "crc_bits n (push_bit m a) = crc_bits (n - m) a"
proof -
  have "crc_bits m (push_bit m a) = drop_bit m (push_bit m a)"
    by (rule crc_bits_low_zero) (simp add: bit_push_bit_iff)
  also have "\<dots> = a"
  proof (rule bit_word_eqI)
    fix i assume "i < LENGTH(32)"
    then show "bit (drop_bit m (push_bit m a)) i \<longleftrightarrow> bit a i"
      using assms(2) [of i] by (auto simp: bit_drop_bit_eq bit_push_bit_iff add.commute)
  qed
  finally show ?thesis using crc_bits_add [of "n - m" m "push_bit m a"] assms(1) by simp
qed

lemma crc_bits_push_byte: "m \<le> n \<Longrightarrow> m \<le> 24 \<Longrightarrow> crc_bits n (push_bit m (ucast b)) = crc_bits (n - m) (ucast (b :: byte))"
  by (rule crc_bits_push) (auto simp: bit_ucast_iff dest: bit_imp_le_length)

lemma crc_bits_8: "crc_bits 8 l = kByteExtensionTable ! unat (l AND 0xff) XOR drop_bit 8 l"
proof -
  have "l = take_bit 8 l XOR push_bit 8 (drop_bit 8 l)"
    by (intro bit_word_eqI) (auto simp: bit_xor_iff bit_take_bit_iff bit_push_bit_iff bit_drop_bit_eq)
  then have "crc_bits 8 l = crc_bits 8 (take_bit 8 l) XOR crc_bits 8 (push_bit 8 (drop_bit 8 l))"
    by (metis crc_bits_xor)
  moreover have "crc_bits 8 (push_bit 8 (drop_bit 8 l)) = drop_bit 8 l"
  proof -
    have "i + 8 < 32" if "bit (drop_bit 8 l) i" for i
      using that bit_imp_le_length [of l "8 + i"] by (simp add: bit_drop_bit_eq)
    then show ?thesis using crc_bits_push [of 8 8 "drop_bit 8 l"] by simp
  qed
  moreover have "crc_bits 8 (take_bit 8 l) = kByteExtensionTable ! unat (take_bit 8 l)"
    using kByteExtensionTable_nth [OF unat_take_bit_8] by simp
  ultimately show ?thesis by (simp add: and_255)
qed

lemma STEP1_crc_byte: "STEP1 = crc_byte"
proof (intro ext)
  fix l :: u32 and b :: byte
  have "take_bit 8 (ucast b :: u32) = ucast b"
    by (intro bit_word_eqI) (auto simp: bit_take_bit_iff bit_ucast_iff dest: bit_imp_le_length)
  then have "(l XOR ucast b) AND 0xff = (l AND 0xff) XOR ucast b" by (simp add: and_255 take_bit_xor)
  moreover have "drop_bit 8 (l XOR ucast b) = drop_bit 8 l"
    by (intro bit_word_eqI) (auto simp: bit_xor_iff bit_drop_bit_eq bit_ucast_iff dest: bit_imp_le_length)
  ultimately show "STEP1 l b = crc_byte l b"
    by (simp add: STEP1_def crc_byte_def crc_bits_8 Let_def)
qed

lemma STEP4_crc_bits: "STEP4 p crc = ReadUint32LE p XOR crc_bits 128 crc"
proof -
  let ?b = "\<lambda>m. take_bit 8 (drop_bit m crc)"
  have "crc = ?b 0 XOR push_bit 8 (?b 8) XOR push_bit 16 (?b 16) XOR push_bit 24 (drop_bit 24 crc)"
  proof (rule bit_word_eqI)
    fix i assume "i < LENGTH(32)"
    then consider "i < 8" | "8 \<le> i \<and> i < 16" | "16 \<le> i \<and> i < 24" | "24 \<le> i \<and> i < 32" by fastforce
    then show "bit crc i = bit (?b 0 XOR push_bit 8 (?b 8) XOR push_bit 16 (?b 16) XOR push_bit 24 (drop_bit 24 crc)) i"
      by cases (simp_all add: bit_xor_iff bit_take_bit_iff bit_push_bit_iff bit_drop_bit_eq less_diff_conv2)
  qed
  then have "crc_bits 128 crc = crc_bits 128 (?b 0) XOR crc_bits 128 (push_bit 8 (?b 8)) XOR
      crc_bits 128 (push_bit 16 (?b 16)) XOR crc_bits 128 (push_bit 24 (drop_bit 24 crc))"
    by (metis crc_bits_xor)
  moreover have "crc_bits 128 (?b 0) = kStrideExtensionTable3 ! unat (?b 0)"
    "crc_bits 128 (push_bit 8 (?b 8)) = kStrideExtensionTable2 ! unat (?b 8)"
    "crc_bits 128 (push_bit 16 (?b 16)) = kStrideExtensionTable1 ! unat (?b 16)"
    "crc_bits 128 (push_bit 24 (drop_bit 24 crc)) = kStrideExtensionTable0 ! unat (drop_bit 24 crc)"
    using kStrideExtensionTable3_nth [OF unat_take_bit_8, of "drop_bit 0 crc"]
      kStrideExtensionTable2_nth [OF unat_take_bit_8, of "drop_bit 8 crc"]
      kStrideExtensionTable1_nth [OF unat_take_bit_8, of "drop_bit 16 crc"]
      kStrideExtensionTable0_nth [OF unat_drop_bit_24, of crc] by simp_all
  ultimately show ?thesis by (simp add: STEP4_def and_255 ac_simps)
qed

lemma STEP4W_crc_bits: "STEP4W w l = crc_bits 32 (w XOR l)"
proof -
  have "(\<lambda>w. drop_bit 8 w XOR kByteExtensionTable ! unat (w AND 0xff)) = crc_bits 8"
    by (rule ext) (simp add: crc_bits_8 xor.commute)
  then show ?thesis by (simp add: STEP4W_def funpow_mult)
qed

lemma foldl_crc_word:
  assumes "length p \<ge> 4"
  shows "foldl crc_byte l (take 4 p) = crc_bits 32 (l XOR ReadUint32LE p)"
proof -
  obtain b0 b1 b2 b3 rest where p: "p = b0 # b1 # b2 # b3 # rest"
    using assms by (auto simp: Suc_le_length_iff numeral_eq_Suc)
  have "ReadUint32LE p = ucast b0 XOR push_bit 8 (ucast b1) XOR push_bit 16 (ucast b2) XOR push_bit 24 (ucast b3)"
    by (simp add: ReadUint32LE_def p, intro bit_word_eqI)
      (auto simp: bit_xor_iff bit_or_iff bit_push_bit_iff bit_ucast_iff dest: bit_imp_le_length)
  then have "crc_bits 32 (l XOR ReadUint32LE p) = crc_bits 32 l XOR crc_bits 32 (ucast b0) XOR crc_bits 24 (ucast b1) XOR
      crc_bits 16 (ucast b2) XOR crc_bits 8 (ucast b3)"
    by (simp add: crc_bits_xor crc_bits_push_byte xor.assoc)
  moreover have "crc_bits 8 (crc_bits m a) = crc_bits (8 + m) a" for m a
    by (simp only: crc_bits_add)
  ultimately show ?thesis
    by (simp add: p crc_byte_def crc_bits_xor xor.assoc)
qed

lemma foldl_take_drop: "foldl f a xs = foldl f (foldl f a (take n xs)) (drop n xs)"
  by (metis append_take_drop_id foldl_append)

text \<open>The single checksum that the four partial results of the strides stand for.\<close>

definition strides_value :: "strides \<Rightarrow> u32" where
  "strides_value s = (case s of (crc0, crc1, crc2, crc3) \<Rightarrow>
     crc_bits 128 crc0 XOR crc_bits 96 crc1 XOR crc_bits 64 crc2 XOR crc_bits 32 crc3)"



lemma strides_value_STEP16:
  assumes "length p \<ge> 16"
  shows "foldl crc_byte (strides_value s) (take 16 p) = strides_value (STEP16 p s)"
proof -
  obtain crc0 crc1 crc2 crc3 where s: "s = (crc0, crc1, crc2, crc3)" by (cases s)
  have "take 16 p = take 4 p @ take 4 (drop 4 p) @ take 4 (drop 8 p) @ take 4 (drop 12 p)"
    using take_add [of 4 12 p] take_add [of 4 8 "drop 4 p"] take_add [of 4 4 "drop 8 p"] by simp
  moreover have "crc_bits 32 (crc_bits m a) = crc_bits (32 + m) a" "crc_bits m (crc_bits 128 a) = crc_bits (m + 128) a" for m a
    by (simp_all only: crc_bits_add)
  ultimately show ?thesis
    using assms
    by (simp add: foldl_crc_word s strides_value_def STEP16_def STEP4_crc_bits crc_bits_xor ac_simps)
qed

lemma strides_value_word:
  assumes "length p \<ge> 4"
  shows "foldl crc_byte (strides_value (crc0, crc1, crc2, crc3)) (take 4 p) =
    strides_value (crc1, crc2, crc3, STEP4 p crc0)"
proof -
  have "crc_bits 32 (crc_bits m a) = crc_bits (32 + m) a" for m a
    by (simp only: crc_bits_add)
  then show ?thesis
    using assms by (simp add: foldl_crc_word strides_value_def STEP4_crc_bits crc_bits_xor ac_simps)
qed

lemma swath_loop_value:
  "swath_loop p s = (p', s') \<Longrightarrow> foldl crc_byte (strides_value s') p' = foldl crc_byte (strides_value s) p"
proof (induction p s rule: swath_loop.induct)
  case (1 p s)
  show ?case
  proof (cases "length p \<ge> 16")
    case True
    then have "foldl crc_byte (strides_value s') p' = foldl crc_byte (strides_value (STEP16 p s)) (drop 16 p)"
      using 1 by (simp add: swath_loop.simps [of p s])
    also have "\<dots> = foldl crc_byte (strides_value s) p"
      using strides_value_STEP16 [OF True] foldl_take_drop [of crc_byte _ p 16] by simp
    finally show ?thesis .
  qed (use 1 in \<open>simp add: swath_loop.simps [of p s]\<close>)
qed

lemma word_loop_value:
  "word_loop p s = (p', s') \<Longrightarrow> foldl crc_byte (strides_value s') p' = foldl crc_byte (strides_value s) p"
proof (induction p s rule: word_loop.induct)
  case (1 p s)
  obtain crc0 crc1 crc2 crc3 where s: "s = (crc0, crc1, crc2, crc3)" by (cases s)
  show ?case
  proof (cases "length p \<ge> 4")
    case True
    then have "foldl crc_byte (strides_value s') p' =
        foldl crc_byte (strides_value (crc1, crc2, crc3, STEP4 p crc0)) (drop 4 p)"
      using "1.IH" [OF True s [symmetric] refl refl] "1.prems" True
      by (simp add: s word_loop.simps [of p "(crc0, crc1, crc2, crc3)"])
    also have "\<dots> = foldl crc_byte (strides_value s) p"
      using strides_value_word [OF True] foldl_take_drop [of crc_byte _ p 4] s by simp
    finally show ?thesis .
  qed (use 1 in \<open>simp add: word_loop.simps [of p s]\<close>)
qed

lemma Extend_swaths_value:
  assumes "Extend_swaths l p = (l', p')"
  shows "foldl crc_byte l' p' = foldl crc_byte l p"
proof (cases "length p \<ge> 16")
  case True
  let ?s = "(l XOR ReadUint32LE p, ReadUint32LE (drop 4 p), ReadUint32LE (drop 8 p), ReadUint32LE (drop 12 p))"
  obtain p1 s1 where s1: "swath_loop (drop 16 p) ?s = (p1, s1)" by (cases "swath_loop (drop 16 p) ?s")
  obtain p2 crc0 crc1 crc2 crc3 where s2: "word_loop p1 s1 = (p2, crc0, crc1, crc2, crc3)"
    by (cases "word_loop p1 s1") auto
  have fold32: "crc_bits 32 (crc_bits m a) = crc_bits (32 + m) a" for m a
    by (simp only: crc_bits_add)
  have l': "l' = strides_value (crc0, crc1, crc2, crc3)" "p' = p2"
    using assms True s1 s2
    by (auto simp: Extend_swaths_def xor.commute [of _ l] Let_def STEP4W_crc_bits strides_value_def crc_bits_xor fold32
        xor.commute xor.left_commute)
  have "take 16 p = take 4 p @ take 4 (drop 4 p) @ take 4 (drop 8 p) @ take 4 (drop 12 p)"
    using take_add [of 4 12 p] take_add [of 4 8 "drop 4 p"] take_add [of 4 4 "drop 8 p"] by simp
  then have "foldl crc_byte l (take 16 p) = strides_value ?s"
    using True by (simp add: foldl_crc_word strides_value_def crc_bits_xor fold32 ac_simps)
  then show ?thesis
    using l' word_loop_value [OF s2] swath_loop_value [OF s1] foldl_take_drop [of crc_byte l p 16] by simp
qed (use assms in \<open>simp add: Extend_swaths_def\<close>)

lemma Extend_portable_crc32c: "Extend_portable address crc data = crc32c crc data"
proof -
  let ?l = "crc XOR kCRC32Xor" and ?x = "RoundUp 4 address - address"
  obtain l p where lp: "(if ?x \<le> length data then (foldl crc_byte ?l (take ?x data), drop ?x data) else (?l, data)) = (l, p)"
    by fastforce
  obtain l' p' where sw: "Extend_swaths l p = (l', p')" by fastforce
  have "foldl crc_byte l' p' = foldl crc_byte ?l data"
    using Extend_swaths_value [OF sw] lp foldl_take_drop [of crc_byte ?l data ?x] by (simp split: if_splits)
  then show ?thesis
    unfolding Extend_portable_def Let_def STEP1_crc_byte lp crc32c_def by (simp add: sw kCRC32Xor_def)
qed

lemma crc32c_append: "crc32c crc (xs @ ys) = crc32c (crc32c crc xs) ys"
  by (simp add: crc32c_def xor.assoc)

lemma test_value_nonzero: "\<not> CanAccelerateCRC32C None"
  by (simp add: CanAccelerateCRC32C_def AcceleratedCRC32C_def)

subsection \<open>Changes that a checksum detects\<close>

lemma xor_eq_0_u32: "c XOR d = 0 \<longleftrightarrow> c = d" for c d :: u32
proof
  assume "c XOR d = 0"
  then have "bit (c XOR d) n = False" for n by simp
  then show "c = d" by (intro bit_word_eqI) (simp add: bit_xor_iff)
qed simp

lemma xor_cancel_u32: "a XOR c = a XOR d \<longleftrightarrow> c = d" "c XOR a = d XOR a \<longleftrightarrow> c = d" for a c d :: u32
proof -
  have "(a XOR c) XOR (a XOR d) = c XOR d" by (intro bit_word_eqI) (auto simp: bit_xor_iff)
  then show "a XOR c = a XOR d \<longleftrightarrow> c = d" using xor_eq_0_u32 [of "a XOR c" "a XOR d"] xor_eq_0_u32 [of c d] by simp
  then show "c XOR a = d XOR a \<longleftrightarrow> c = d" by (simp add: xor.commute [of _ a])
qed

lemma crc_bit_eq_0: "crc_bit l = 0 \<longleftrightarrow> l = 0"
proof
  assume zero: "crc_bit l = 0"
  show "l = 0"
  proof (cases "bit l 0")
    case True
    have "bit (drop_bit 1 l) 31 = False" by (auto simp: bit_drop_bit_eq dest: bit_imp_le_length)
    moreover have "bit (0x82f63b78 :: u32) 31" by simp
    ultimately have "bit (crc_bit l) 31" using True by (simp only: crc_bit_def bit_xor_iff if_True) simp
    then show ?thesis using zero by simp
  next
    case False
    then have "drop_bit 1 l = 0" using zero by (simp add: crc_bit_def)
    then have "bit (drop_bit 1 l) n = False" for n by simp
    then have "bit l (Suc n) = False" for n by (simp add: bit_drop_bit_eq)
    moreover have "bit l 0 = False" using False by simp
    ultimately have "bit l n = False" for n by (cases n) simp_all
    then show ?thesis by (intro bit_word_eqI) simp
  qed
qed simp

lemma inj_crc_bits: "crc_bits n a = crc_bits n b \<longleftrightarrow> a = b"
proof -
  have "crc_bits n c = 0 \<longleftrightarrow> c = 0" for c
    by (induction n) (simp_all add: crc_bit_eq_0)
  from this [of "a XOR b"] show ?thesis by (simp only: crc_bits_xor xor_eq_0_u32)
qed

lemma foldl_crc_byte_inj: "foldl crc_byte l xs = foldl crc_byte l' xs \<longleftrightarrow> l = l'"
  by (induction xs arbitrary: l l') (simp_all add: crc_byte_def inj_crc_bits xor_cancel_u32)

lemma foldl_crc_byte_word_inj:
  assumes "length ds = 4" "length ds' = 4" "foldl crc_byte l ds = foldl crc_byte l ds'"
  shows "ds = ds'"
proof -
  obtain v v' where v: "ds = EncodeFixed32 v" "ds' = EncodeFixed32 v'"
    using assms EncodeFixed32_surj by metis
  have "ReadUint32LE (EncodeFixed32 v) = v" for v
    using DecodeFixed32_ptr_Encode [of v "[]"] by (simp add: ReadUint32LE_def)
  then have "l XOR v = l XOR v'"
    using assms foldl_crc_word [of ds l] foldl_crc_word [of ds' l] by (simp add: v inj_crc_bits)
  then have "v = v'" by (simp only: xor_cancel_u32)
  then show ?thesis by (simp add: v)
qed

lemma crc32c_detects:
  assumes "length ds = length ds'" "length ds \<le> 4" "ds \<noteq> ds'"
  shows "crc32c crc (xs @ ds @ ys) \<noteq> crc32c crc (xs @ ds' @ ys)"
proof
  assume "crc32c crc (xs @ ds @ ys) = crc32c crc (xs @ ds' @ ys)"
  let ?l = "foldl crc_byte (crc XOR 0xffffffff) xs" and ?z = "replicate (4 - length ds) (0 :: byte)"
  have "foldl crc_byte (foldl crc_byte ?l ds) ys = foldl crc_byte (foldl crc_byte ?l ds') ys"
    using \<open>crc32c crc (xs @ ds @ ys) = crc32c crc (xs @ ds' @ ys)\<close>
    unfolding crc32c_def foldl_append by (simp only: xor_cancel_u32)
  then have "foldl crc_byte ?l (ds @ ?z) = foldl crc_byte ?l (ds' @ ?z)"
    by (simp add: foldl_crc_byte_inj)
  then have "ds @ ?z = ds' @ ?z" using assms by (intro foldl_crc_byte_word_inj) simp_all
  with assms(3) show False by simp
qed

lemma Unmask_Mask: "Unmask (Mask c) = c"
proof -
  have "drop_bit 17 (drop_bit 15 c OR push_bit 17 c) OR push_bit 15 (drop_bit 15 c OR push_bit 17 c) = c"
  proof (rule bit_word_eqI)
    fix i assume "i < LENGTH(32)"
    then consider "i < 15" | "15 \<le> i \<and> i < 32" by fastforce
    then show "bit (drop_bit 17 (drop_bit 15 c OR push_bit 17 c) OR push_bit 15 (drop_bit 15 c OR push_bit 17 c)) i = bit c i"
      using bit_imp_le_length [of c "15 + (17 + i)"]
      by cases (auto simp: bit_or_iff bit_drop_bit_eq bit_push_bit_iff)
  qed
  then show ?thesis by (simp add: Mask_def Unmask_def Let_def)
qed

text \<open>
  (C3) The checksum code computes CRC-32C. With or without the external library, for every alignment of the
  buffer, the result is that of the bit-at-a-time definition; so a checksum extended piece by piece is the
  checksum of the whole, as \<^verbatim>\<open>crc32c.h\<close> promises.
\<close>

theorem crc32c_correct:
  "Extend None address crc data = crc32c crc data \<and>
   Extend (Some crc32c) address crc data = crc32c crc data \<and>
   Extend None address' (Value None address data) data' = Value None address'' (data @ data')"
  by (simp add: Extend_def Value_def test_value_nonzero Extend_portable_crc32c AcceleratedCRC32C_def crc32c_append)

text \<open>
  (C30) A corruption confined to four consecutive bytes always changes the stored checksum: masked checksums
  of equally long data that differ in one stretch of at most four bytes are different, and unmasking gives
  back the checksum that was masked.
\<close>

theorem crc32c_burst_detection:
  assumes "length ds = length ds'" "length ds \<le> 4" "ds \<noteq> ds'"
  shows "Mask (Value None address (xs @ ds @ ys)) \<noteq> Mask (Value None address' (xs @ ds' @ ys)) \<and>
    Unmask (Mask crc) = crc"
proof -
  have "Value None address data = crc32c 0 data" for address data
    by (simp add: Value_def Extend_def test_value_nonzero Extend_portable_crc32c)
  then show ?thesis using Unmask_Mask crc32c_detects [OF assms] by metis
qed

theorem crc32c_burst_detection_witness:
  "Mask (Value None 0 ([7] @ [1, 2] @ [9])) \<noteq> Mask (Value None 3 ([7] @ [1, 3] @ [9]))"
  using crc32c_burst_detection [of "[1, 2]" "[1, 3]" 0 "[7]" "[9]" 3] by simp

end
