(* ===== verification/MemFiles.thy ===== *)
theory MemFiles
  imports Status
begin

text \<open>
  Files kept in memory, \<^verbatim>\<open>util/env_mem.cc\<close>, and the interface of a file that a log is appended to. A file
  is shared by its readers and writers through a pointer; here the operations take its state and return
  the new one, and the position of a sequential reader is kept beside it. The operations hold the mutex
  of the file for their whole body (\<^verbatim>\<open>Fsync\<close> reads one atomic field), so each is one step. The clock of \<^verbatim>\<open>Now\<close> is a parameter.
\<close>

subsection \<open>Operations\<close>

record MemFile =
  mf_refs :: int
  mf_is_lock_file :: bool
  mf_locked :: bool
  mf_data :: bytes
  mf_size :: nat
  mf_modified_time :: u64
  mf_fsynced_bytes :: nat

definition MemFile_new :: "u64 \<Rightarrow> bool \<Rightarrow> MemFile" where
  "MemFile_new now is_lock_file =
     \<lparr> mf_refs = 0, mf_is_lock_file = is_lock_file, mf_locked = False, mf_data = [], mf_size = 0,
       mf_modified_time = now, mf_fsynced_bytes = 0 \<rparr>"

definition MemFile_Ref :: "MemFile \<Rightarrow> MemFile" where
  "MemFile_Ref f = f \<lparr> mf_refs := mf_refs f + 1 \<rparr>"

text \<open>\<open>None\<close>: a failed assertion.\<close>

definition MemFile_Lock :: "MemFile \<Rightarrow> (bool \<times> MemFile) option" where
  "MemFile_Lock f =
     (if mf_is_lock_file f then
        Some (\<not> mf_locked f, if \<not> mf_locked f then f \<lparr> mf_locked := True \<rparr> else f)
      else None)"

definition MemFile_Unlock :: "MemFile \<Rightarrow> MemFile option" where
  "MemFile_Unlock f = (if mf_is_lock_file f then Some (f \<lparr> mf_locked := False \<rparr>) else None)"

text \<open>The flag tells that the file deletes itself.\<close>

definition MemFile_Unref :: "MemFile \<Rightarrow> (bool \<times> MemFile) option" where
  "MemFile_Unref f =
     (let f = f \<lparr> mf_refs := mf_refs f - 1 \<rparr> in
      if mf_refs f \<ge> 0 then Some (mf_refs f \<le> 0, f) else None)"

definition MemFile_Read :: "MemFile \<Rightarrow> nat \<Rightarrow> nat \<Rightarrow> status \<times> bytes" where
  "MemFile_Read f offset n =
     (let available = mf_size f - min (mf_size f) offset;
          n = (if n > available then available else n)
      in if n = 0 then (Status_OK, []) else (Status_OK, take n (drop offset (mf_data f))))"

text \<open>
  Offsets and sizes are natural numbers. The source adds an offset and a length as 64-bit numbers, which
  agrees as long as the end of the write is below $2^{64}$.
\<close>

definition MemFile_Write :: "u64 \<Rightarrow> nat \<Rightarrow> bytes \<Rightarrow> MemFile \<Rightarrow> status \<times> MemFile" where
  "MemFile_Write now offset data f =
     (let d = (if offset + length data > length (mf_data f)
               then mf_data f @ replicate (offset + length data - length (mf_data f)) 0
               else mf_data f);
          d = take offset d @ data @ drop (offset + length data) d
      in (Status_OK, f \<lparr> mf_data := d, mf_size := length d, mf_modified_time := now \<rparr>))"

definition MemFile_Append :: "u64 \<Rightarrow> MemFile \<Rightarrow> bytes \<Rightarrow> status \<times> MemFile" where
  "MemFile_Append now f data =
     (let d = mf_data f @ data in (Status_OK, f \<lparr> mf_data := d, mf_size := length d, mf_modified_time := now \<rparr>))"

definition MemFile_Fsync :: "MemFile \<Rightarrow> status \<times> MemFile" where
  "MemFile_Fsync f = (Status_OK, f \<lparr> mf_fsynced_bytes := mf_size f \<rparr>)"

definition MemSequentialFile_Read :: "MemFile \<Rightarrow> nat \<Rightarrow> nat \<Rightarrow> status \<times> bytes \<times> nat" where
  "MemSequentialFile_Read file pos n =
     (let (s, result) = MemFile_Read file pos n in (s, result, if Status_ok s then pos + length result else pos))"

definition MemSequentialFile_Skip :: "MemFile \<Rightarrow> nat \<Rightarrow> nat \<Rightarrow> status \<times> nat" where
  "MemSequentialFile_Skip file pos n =
     (if pos > mf_size file then (Status_IOError (cstr ''pos_ > file_->Size()'') [], pos)
      else let available = mf_size file - pos; n = (if n > available then available else n)
      in (Status_OK, pos + n))"

definition MemRandomAccessFile_Read :: "MemFile \<Rightarrow> nat \<Rightarrow> nat \<Rightarrow> status \<times> bytes" where
  "MemRandomAccessFile_Read file offset n = MemFile_Read file offset n"

definition MemRandomRWFile_Read :: "MemFile \<Rightarrow> nat \<Rightarrow> nat \<Rightarrow> status \<times> bytes" where
  "MemRandomRWFile_Read file offset n = MemFile_Read file offset n"

definition MemWritableFile_Append :: "u64 \<Rightarrow> MemFile \<Rightarrow> bytes \<Rightarrow> status \<times> MemFile" where
  "MemWritableFile_Append now file data = MemFile_Append now file data"

definition MemWritableFile_Close :: "MemFile \<Rightarrow> status \<times> MemFile" where
  "MemWritableFile_Close file = (Status_OK, file)"

definition MemWritableFile_Flush :: "MemFile \<Rightarrow> status \<times> MemFile" where
  "MemWritableFile_Flush file = (Status_OK, file)"

definition MemWritableFile_Sync :: "MemFile \<Rightarrow> status \<times> MemFile" where
  "MemWritableFile_Sync file = MemFile_Fsync file"

subsection \<open>The size field\<close>

text \<open>The size is the length of the data, and what is synced is within it. Every operation keeps this.\<close>

definition MemFile_ok :: "MemFile \<Rightarrow> bool" where
  "MemFile_ok f \<longleftrightarrow> mf_size f = length (mf_data f) \<and> mf_fsynced_bytes f \<le> mf_size f \<and>
     (mf_locked f \<longrightarrow> mf_is_lock_file f)"

lemmas MemFile_defs = MemFile_new_def MemFile_Ref_def MemFile_Lock_def MemFile_Unlock_def MemFile_Unref_def
  MemFile_Read_def MemFile_Write_def MemFile_Append_def MemFile_Fsync_def Let_def

lemma MemFile_Read_eq:
  "mf_size f = length (mf_data f) \<Longrightarrow> MemFile_Read f offset n = (Status_OK, take n (drop offset (mf_data f)))"
  by (auto simp: MemFile_Read_def Let_def min_def)

subsection \<open>The interface of a file to append to\<close>

locale writable_file =
  fixes append :: "'f \<Rightarrow> bytes \<Rightarrow> status \<times> 'f"
    and flush :: "'f \<Rightarrow> status \<times> 'f"
    and contents :: "'f \<Rightarrow> bytes"
  assumes append_ok: "fst (append f data) = Status_OK"
    and append_contents: "contents (snd (append f data)) = contents f @ data"
    and flush_ok: "fst (flush f) = Status_OK"
    and flush_contents: "contents (snd (flush f)) = contents f"

interpretation mem_writable: writable_file "MemWritableFile_Append now" MemWritableFile_Flush mf_data for now
  by unfold_locales (simp_all add: MemWritableFile_Append_def MemWritableFile_Flush_def MemFile_Append_def Let_def)

subsection \<open>Properties\<close>

text \<open>
  (C32) A file in memory is an array of bytes. A write at an offset succeeds, is read back there, leaves the
  bytes before and after it, also when it starts behind the old end, and fills such a gap with zeros; the
  size becomes the larger of the old size and the end of the write; an append is a write at the end; and
  every operation keeps the size field equal to the number of bytes.
\<close>

theorem mem_file_read_write:
  assumes "MemFile_ok f" and "MemFile_Write now offset data f = (s, f')"
  shows "MemFile_ok f' \<and> MemFile_ok (snd (MemFile_Append now f data)) \<and> MemFile_ok (snd (MemFile_Fsync f)) \<and>
    snd (MemFile_Read f' offset (length data)) = data \<and>
    s = Status_OK \<and> mf_size f' = max (mf_size f) (offset + length data) \<and>
    snd (MemFile_Read f' 0 (min offset (mf_size f))) = snd (MemFile_Read f 0 (min offset (mf_size f))) \<and>
    (\<forall>i n. offset + length data \<le> i \<longrightarrow> snd (MemFile_Read f' i n) = snd (MemFile_Read f i n)) \<and>
    (\<forall>i. mf_size f \<le> i \<and> i < offset \<longrightarrow> snd (MemFile_Read f' i 1) = [0]) \<and>
    MemFile_Append now f data = MemFile_Write now (mf_size f) data f"
proof -
  let ?d = "mf_data f" and ?e = "offset + length data"
  have f: "mf_size f = length ?d" "mf_fsynced_bytes f \<le> length ?d" using assms(1) by (auto simp: MemFile_ok_def)
  let ?g = "?d @ replicate (?e - length ?d) 0"
  have data': "mf_data f' = take offset ?g @ data @ drop ?e ?g" and size': "mf_size f' = length (mf_data f')"
    and rest': "mf_fsynced_bytes f' = mf_fsynced_bytes f" "mf_locked f' = mf_locked f" "mf_is_lock_file f' = mf_is_lock_file f"
    using assms(2) by (auto simp: MemFile_Write_def Let_def)
  have pre: "length (take offset ?g) = offset" by simp
  have ok': "MemFile_ok f'"
    using assms(1) f rest' unfolding MemFile_ok_def size' data' by auto
  have read': "snd (MemFile_Read f' i n) = take n (drop i (mf_data f'))" "snd (MemFile_Read f i n) = take n (drop i ?d)" for i n
    using MemFile_Read_eq [OF size'] MemFile_Read_eq [OF f(1)] by simp_all
  have "take (length data) (drop offset (mf_data f')) = data" unfolding data' using pre by simp
  moreover have "s = Status_OK" using assms(2) by (auto simp: MemFile_Write_def Let_def)
  moreover have "mf_size f' = max (mf_size f) ?e" unfolding size' data' f(1) by auto
  moreover have "take (min offset (mf_size f)) (mf_data f') = take (min offset (mf_size f)) ?d"
    unfolding data' f(1) using pre by (auto simp: min_def take_append)
  moreover have "drop i (mf_data f') = drop i ?d" if "?e \<le> i" for i
    unfolding data' using that pre by simp
  moreover have "take 1 (drop i (mf_data f')) = [0]" if "length ?d \<le> i" "i < offset" for i
  proof -
    have "i < length (mf_data f')" "mf_data f' ! i = 0" unfolding data' using that pre by (auto simp: nth_append)
    then show ?thesis by (simp add: take_Suc hd_drop_conv_nth)
  qed
  moreover have "MemFile_Append now f data = MemFile_Write now (mf_size f) data f"
    using f(1) by (simp add: MemFile_Append_def MemFile_Write_def Let_def)
  moreover have "MemFile_ok (snd (MemFile_Append now f data))" "MemFile_ok (snd (MemFile_Fsync f))"
    using assms(1) by (auto simp: MemFile_ok_def MemFile_Append_def MemFile_Fsync_def Let_def)
  ultimately show ?thesis using ok' read' f(1) by simp
qed

theorem mem_file_read_write_witness:
  "snd (MemFile_Read (snd (MemFile_Write 0 3 [5, 6] (MemFile_new 0 False))) 2 9) = [0, 5, 6] \<and>
   MemFile_ok (snd (MemFile_Write 0 3 [5, 6] (MemFile_new 0 False)))"
  using mem_file_read_write [of "MemFile_new 0 False" 0 3 "[5, 6]" Status_OK "snd (MemFile_Write 0 3 [5, 6] (MemFile_new 0 False))"]
  by (simp add: MemFile_ok_def MemFile_new_def MemFile_Write_def MemFile_Read_def numeral_eq_Suc)

end
