(* ===== verification/LogFormat.thy ===== *)
theory LogFormat
  imports CRC32C MemFiles NovaCommon
begin

text \<open>
  The record log of LevelDB: \<^verbatim>\<open>db/log_format.h\<close>, the writer \<^verbatim>\<open>db/log_writer.cc\<close> that splits records into
  fragments that do not cross blocks of 32 KB, and the reader \<^verbatim>\<open>db/log_reader.cc\<close> that joins them again, checks
  checksums and reports what it drops. The writer works on any file with the interface \<open>writable_file\<close>; the
  reader reads a file in memory. A checksum does not depend on the address of its buffer
  (\<open>Extend_portable_crc32c\<close>), so the buffers are taken at address 0.
\<close>

subsection \<open>Format\<close>

datatype RecordType = kZeroType | kFullType | kFirstType | kMiddleType | kLastType

fun RecordType_code :: "RecordType \<Rightarrow> nat" where
  "RecordType_code kZeroType = 0"
| "RecordType_code kFullType = 1"
| "RecordType_code kFirstType = 2"
| "RecordType_code kMiddleType = 3"
| "RecordType_code kLastType = 4"

definition kMaxRecordType :: nat where
  "kMaxRecordType = RecordType_code kLastType"

definition log_kBlockSize :: nat where
  "log_kBlockSize = 32768"

definition kHeaderSize :: nat where
  "kHeaderSize = 4 + 2 + 1"

subsection \<open>Writing\<close>

record 'f Writer =
  w_dest :: 'f
  w_block_offset :: nat
  w_type_crc :: "u32 list"

definition InitTypeCrc :: "u32 list" where
  "InitTypeCrc = map (\<lambda>i. Value None 0 [of_nat i]) [0..<kMaxRecordType + 1]"

definition Writer_new :: "'f \<Rightarrow> nat \<Rightarrow> 'f Writer" where
  "Writer_new dest dest_length =
     \<lparr> w_dest = dest, w_block_offset = dest_length mod log_kBlockSize, w_type_crc = InitTypeCrc \<rparr>"

text \<open>\<open>None\<close>: a failed assertion.\<close>

definition EmitPhysicalRecord ::
    "('f \<Rightarrow> bytes \<Rightarrow> status \<times> 'f) \<Rightarrow> ('f \<Rightarrow> status \<times> 'f) \<Rightarrow> RecordType \<Rightarrow> bytes \<Rightarrow> 'f Writer \<Rightarrow> (status \<times> 'f Writer) option" where
  "EmitPhysicalRecord file_append file_flush t ptr w =
     (let len = length ptr in
      if \<not> len \<le> 0xffff \<or> \<not> w_block_offset w + kHeaderSize + len \<le> log_kBlockSize then None
      else
        let crc = Extend None 0 (w_type_crc w ! RecordType_code t) ptr;
            buf = EncodeFixed32 (Mask crc) @ [of_nat (len mod 256), of_nat (len div 256), of_nat (RecordType_code t)];
            (s, dest) = file_append (w_dest w) buf;
            (s, dest) = (if Status_ok s then
                let (s, dest) = file_append dest ptr in if Status_ok s then file_flush dest else (s, dest)
              else (s, dest))
        in Some (s, w \<lparr> w_dest := dest, w_block_offset := w_block_offset w + kHeaderSize + len \<rparr>))"

text \<open>The start of an iteration: the trailer of a block without room for a header is filled.\<close>

definition switch_block :: "('f \<Rightarrow> bytes \<Rightarrow> status \<times> 'f) \<Rightarrow> 'f Writer \<Rightarrow> 'f Writer" where
  "switch_block file_append w =
     (let leftover = log_kBlockSize - w_block_offset w in
      if leftover < kHeaderSize then
        (if leftover > 0 then w \<lparr> w_dest := snd (file_append (w_dest w) (replicate leftover 0)), w_block_offset := 0 \<rparr>
         else w \<lparr> w_block_offset := 0 \<rparr>)
      else w)"

definition fragment_length :: "nat \<Rightarrow> 'f Writer \<Rightarrow> nat" where
  "fragment_length left w = min left (log_kBlockSize - w_block_offset w - kHeaderSize)"

definition fragment_type :: "bool \<Rightarrow> bool \<Rightarrow> RecordType" where
  "fragment_type begin' end' =
     (if begin' \<and> end' then kFullType else if begin' then kFirstType else if end' then kLastType else kMiddleType)"

lemma EmitPhysicalRecord_offset:
  "EmitPhysicalRecord file_append file_flush t ptr w = Some (s, w') \<Longrightarrow> w_block_offset w' = w_block_offset w + kHeaderSize + length ptr"
  by (auto simp: EmitPhysicalRecord_def Let_def split: if_splits prod.splits)

lemma switch_block_offset: "w_block_offset (switch_block file_append w) \<le> log_kBlockSize - kHeaderSize"
  by (auto simp: switch_block_def Let_def log_kBlockSize_def kHeaderSize_def)

text \<open>The loop of \<^verbatim>\<open>AddRecord\<close>; the assertion on the leftover is that the block offset is in the block.\<close>

function AddRecord_loop ::
    "('f \<Rightarrow> bytes \<Rightarrow> status \<times> 'f) \<Rightarrow> ('f \<Rightarrow> status \<times> 'f) \<Rightarrow> bool \<Rightarrow> bytes \<Rightarrow> 'f Writer \<Rightarrow> (status \<times> 'f Writer) option" where
  "AddRecord_loop file_append file_flush begin' ptr w =
     (if w_block_offset w > log_kBlockSize then None
      else
        let w = switch_block file_append w;
            n = fragment_length (length ptr) w;
            end' = (length ptr = n)
        in case EmitPhysicalRecord file_append file_flush (fragment_type begin' end') (take n ptr) w of
             None \<Rightarrow> None
           | Some (s, w') \<Rightarrow>
               if Status_ok s \<and> length ptr - n > 0 then AddRecord_loop file_append file_flush False (drop n ptr) w' else Some (s, w'))"
  by pat_completeness auto
termination
proof (relation "measures [\<lambda>(file_append, file_flush, b, ptr, w). length ptr,
    \<lambda>(file_append, file_flush, b, ptr, w). if log_kBlockSize - w_block_offset w = kHeaderSize then 1 else 0]")
  fix file_append :: "'f \<Rightarrow> bytes \<Rightarrow> status \<times> 'f" and file_flush b ptr and w w1 :: "'f Writer" and n end' x s w'
  assume w1: "w1 = switch_block file_append w" and n: "n = fragment_length (length ptr) w1"
    and emit: "EmitPhysicalRecord file_append file_flush (fragment_type b end') (take n ptr) w1 = Some x" "(s, w') = x"
    and left: "Status_ok s \<and> length ptr - n > 0" and off: "\<not> w_block_offset w > log_kBlockSize"
  have off': "w_block_offset w' = w_block_offset w1 + kHeaderSize + n"
    using EmitPhysicalRecord_offset [of file_append file_flush _ _ w1 s w'] emit left by (auto simp: min_def)
  show "((file_append, file_flush, False, drop n ptr, w'), file_append, file_flush, b, ptr, w)
      \<in> measures [\<lambda>(file_append, file_flush, b, ptr, w). length ptr,
        \<lambda>(file_append, file_flush, b, ptr, w). if log_kBlockSize - w_block_offset w = kHeaderSize then 1 else 0]"
  proof (cases "n = 0")
    case True
    then have "log_kBlockSize - w_block_offset w1 - kHeaderSize = 0" using left n by (simp add: fragment_length_def min_def split: if_splits)
    then have full: "w_block_offset w1 = log_kBlockSize - kHeaderSize"
      using switch_block_offset [of file_append w] w1 by (simp add: log_kBlockSize_def kHeaderSize_def)
    then have "w_block_offset w = log_kBlockSize - kHeaderSize"
      unfolding w1 by (auto simp: switch_block_def Let_def log_kBlockSize_def kHeaderSize_def split: if_splits)
    then show ?thesis using off' full True by (simp add: log_kBlockSize_def kHeaderSize_def)
  next
    case False
    then have "length ptr - n < length ptr" using left by auto
    then show ?thesis by simp
  qed
qed simp

declare AddRecord_loop.simps [simp del]

definition Writer_AddRecord ::
    "('f \<Rightarrow> bytes \<Rightarrow> status \<times> 'f) \<Rightarrow> ('f \<Rightarrow> status \<times> 'f) \<Rightarrow> bytes \<Rightarrow> 'f Writer \<Rightarrow> (status \<times> 'f Writer) option" where
  "Writer_AddRecord file_append file_flush record w = AddRecord_loop file_append file_flush True record w"


subsection \<open>Reading\<close>

definition kEof :: nat where
  "kEof = kMaxRecordType + 1"

definition kBadRecord :: nat where
  "kBadRecord = kMaxRecordType + 2"

record Reader =
  r_file :: MemFile
  r_pos :: nat
  r_reporter :: bool
  r_reports :: "(nat \<times> status) list"
  r_checksum :: bool
  r_buffer :: bytes
  r_eof :: bool
  r_last_record_offset :: u64
  r_end_of_buffer_offset :: u64
  r_initial_offset :: u64
  r_resyncing :: bool

definition Reader_new :: "MemFile \<Rightarrow> bool \<Rightarrow> bool \<Rightarrow> u64 \<Rightarrow> Reader" where
  "Reader_new file reporter checksum initial_offset =
     \<lparr> r_file = file, r_pos = 0, r_reporter = reporter, r_reports = [], r_checksum = checksum, r_buffer = [],
       r_eof = False, r_last_record_offset = 0, r_end_of_buffer_offset = 0, r_initial_offset = initial_offset,
       r_resyncing = (initial_offset > 0) \<rparr>"

definition ReportDrop :: "nat \<Rightarrow> status \<Rightarrow> Reader \<Rightarrow> Reader" where
  "ReportDrop n reason r =
     (if r_reporter r \<and> r_end_of_buffer_offset r - of_nat (length (r_buffer r)) - of_nat n \<ge> r_initial_offset r
      then r \<lparr> r_reports := r_reports r @ [(n, reason)] \<rparr> else r)"

definition ReportCorruption :: "nat \<Rightarrow> bytes \<Rightarrow> Reader \<Rightarrow> Reader" where
  "ReportCorruption n reason r = ReportDrop n (Status_Corruption reason []) r"

definition SkipToInitialBlock :: "Reader \<Rightarrow> bool \<times> Reader" where
  "SkipToInitialBlock r =
     (let offset_in_block = r_initial_offset r mod of_nat log_kBlockSize;
          block_start_location = r_initial_offset r - offset_in_block;
          block_start_location = (if offset_in_block > of_nat (log_kBlockSize - 6)
            then block_start_location + of_nat log_kBlockSize else block_start_location);
          r = r \<lparr> r_end_of_buffer_offset := block_start_location \<rparr>
      in if block_start_location > 0 then
           let (s, pos) = MemSequentialFile_Skip (r_file r) (r_pos r) (unat block_start_location); r = r \<lparr> r_pos := pos \<rparr>
           in if Status_ok s then (True, r) else (False, ReportDrop (unat block_start_location) s r)
         else (True, r))"

text \<open>The part of \<^verbatim>\<open>ReadPhysicalRecord\<close> after the buffer holds a header.\<close>

definition parse_physical_record :: "bytes \<Rightarrow> Reader \<Rightarrow> nat \<times> bytes \<times> Reader" where
  "parse_physical_record result r =
     (let header = r_buffer r;
          len = unat (header ! 4) + 256 * unat (header ! 5);
          type = unat (scast (header ! 6) :: u32)
      in if kHeaderSize + len > length (r_buffer r) then
           let drop_size = length (r_buffer r); r = r \<lparr> r_buffer := [] \<rparr>
           in if \<not> r_eof r then (kBadRecord, result, ReportCorruption drop_size (cstr ''bad record length'') r)
              else (kEof, result, r)
         else if type = RecordType_code kZeroType \<and> len = 0 then (kBadRecord, result, r \<lparr> r_buffer := [] \<rparr>)
         else if r_checksum r \<and>
           Value None 0 (take (1 + len) (drop 6 header)) \<noteq> Unmask (case DecodeFixed32_ptr header of Some v \<Rightarrow> v | None \<Rightarrow> 0)
         then let drop_size = length (r_buffer r); r = r \<lparr> r_buffer := [] \<rparr>
           in (kBadRecord, result, ReportCorruption drop_size (cstr ''checksum mismatch'') r)
         else
           let r = r \<lparr> r_buffer := drop (kHeaderSize + len) (r_buffer r) \<rparr>
           in if r_end_of_buffer_offset r - of_nat (length (r_buffer r)) - of_nat kHeaderSize - of_nat len < r_initial_offset r
              then (kBadRecord, [], r)
              else (type, take len (drop kHeaderSize header), r))"

function ReadPhysicalRecord :: "bytes \<Rightarrow> Reader \<Rightarrow> nat \<times> bytes \<times> Reader" where
  "ReadPhysicalRecord result r =
     (if length (r_buffer r) < kHeaderSize then
        if \<not> r_eof r then
          let (s, buffer, pos) = MemSequentialFile_Read (r_file r) (r_pos r) log_kBlockSize;
              r' = r \<lparr> r_buffer := buffer, r_pos := pos,
                r_end_of_buffer_offset := r_end_of_buffer_offset r + of_nat (length buffer) \<rparr>
          in if \<not> Status_ok s then
               let r' = ReportDrop log_kBlockSize s (r' \<lparr> r_buffer := [] \<rparr>) in (kEof, result, r' \<lparr> r_eof := True \<rparr>)
             else ReadPhysicalRecord result (if length buffer < log_kBlockSize then r' \<lparr> r_eof := True \<rparr> else r')
        else (kEof, result, r \<lparr> r_buffer := [] \<rparr>)
      else parse_physical_record result r)"
  by pat_completeness auto
termination
  by (relation "measure (\<lambda>(result, r). if length (r_buffer r) < kHeaderSize \<and> \<not> r_eof r then 1 else 0)")
    (auto simp: kHeaderSize_def log_kBlockSize_def)

declare ReadPhysicalRecord.simps [simp del]


text \<open>The bytes of the file that have not been returned; every physical record makes them fewer by a header at least.\<close>

definition unread :: "Reader \<Rightarrow> nat" where
  "unread r = length (r_buffer r) + (mf_size (r_file r) - r_pos r)"

lemma unread_ReportDrop [simp]: "unread (ReportDrop n s r) = unread r"
  by (simp add: ReportDrop_def unread_def)

lemma unread_ReportCorruption [simp]: "unread (ReportCorruption n s r) = unread r"
  by (simp add: ReportCorruption_def)

lemma unread_resyncing: "unread (r \<lparr> r_resyncing := b \<rparr>) = unread r"
  by (simp add: unread_def)

lemma parse_physical_record_unread:
  assumes "length (r_buffer r) \<ge> kHeaderSize" "parse_physical_record result r = (t, fragment, r')"
  shows "t = kEof \<or> unread r' + kHeaderSize \<le> unread r"
  using assms by (auto simp: parse_physical_record_def Let_def unread_def ReportCorruption_def ReportDrop_def kHeaderSize_def split: if_splits)

lemma ReadPhysicalRecord_unread:
  "ReadPhysicalRecord result r = (t, fragment, r') \<Longrightarrow> t = kEof \<or> unread r' + kHeaderSize \<le> unread r"
proof (induction result r rule: ReadPhysicalRecord.induct)
  case (1 result r)
  show ?case
  proof (cases "length (r_buffer r) < kHeaderSize \<and> \<not> r_eof r")
    case True
    obtain s buffer pos where read: "MemSequentialFile_Read (r_file r) (r_pos r) log_kBlockSize = (s, buffer, pos)"
      by (cases "MemSequentialFile_Read (r_file r) (r_pos r) log_kBlockSize")
    let ?r = "r \<lparr> r_buffer := buffer, r_pos := pos,
        r_end_of_buffer_offset := r_end_of_buffer_offset r + of_nat (length buffer) \<rparr>"
    let ?r' = "if length buffer < log_kBlockSize then ?r \<lparr> r_eof := True \<rparr> else ?r"
    have moved: "unread ?r' \<le> unread r"
      using read by (auto simp: unread_def MemSequentialFile_Read_def MemFile_Read_def Let_def split: if_splits)
    show ?thesis
    proof (cases "Status_ok s")
      case ok: True
      have "ReadPhysicalRecord result ?r' = (t, fragment, r')"
        using "1.prems" True read ok by (simp add: ReadPhysicalRecord.simps [of result r] Let_def)
      from "1.IH" [OF _ _ refl read [symmetric] refl refl _ this] True ok have "t = kEof \<or> unread r' + kHeaderSize \<le> unread ?r'" by simp
      then show ?thesis using moved by auto
    next
      case False
      then show ?thesis using "1.prems" True read by (simp add: ReadPhysicalRecord.simps [of result r] Let_def)
    qed
  next
    case False
    then show ?thesis
      using "1.prems" parse_physical_record_unread [of r result t fragment r']
      by (auto simp: ReadPhysicalRecord.simps [of result r] split: if_splits)
  qed
qed

text \<open>
  The loop of \<^verbatim>\<open>ReadRecord\<close> with its local variables. The result is the record, or \<open>None\<close> where the function returns
  false.
\<close>

function ReadRecord_loop :: "bytes \<Rightarrow> bytes \<Rightarrow> bool \<Rightarrow> u64 \<Rightarrow> Reader \<Rightarrow> bytes option \<times> Reader" where
  "ReadRecord_loop fragment scratch in_fragmented_record prospective_record_offset r =
     (case ReadPhysicalRecord fragment r of (record_type, fragment, r) \<Rightarrow>
      let physical_record_offset =
            r_end_of_buffer_offset r - of_nat (length (r_buffer r)) - of_nat kHeaderSize - of_nat (length fragment)
      in if r_resyncing r \<and> record_type = RecordType_code kMiddleType then
           ReadRecord_loop fragment scratch in_fragmented_record prospective_record_offset r
         else if r_resyncing r \<and> record_type = RecordType_code kLastType then
           ReadRecord_loop fragment scratch in_fragmented_record prospective_record_offset (r \<lparr> r_resyncing := False \<rparr>)
         else
           let r = r \<lparr> r_resyncing := False \<rparr> in
           if record_type = RecordType_code kFullType then
             let r = (if in_fragmented_record \<and> scratch \<noteq> []
                      then ReportCorruption (length scratch) (cstr ''partial record without end(1)'') r else r)
             in (Some fragment, r \<lparr> r_last_record_offset := physical_record_offset \<rparr>)
           else if record_type = RecordType_code kFirstType then
             let r = (if in_fragmented_record \<and> scratch \<noteq> []
                      then ReportCorruption (length scratch) (cstr ''partial record without end(2)'') r else r)
             in ReadRecord_loop fragment fragment True physical_record_offset r
           else if record_type = RecordType_code kMiddleType then
             if \<not> in_fragmented_record then
               ReadRecord_loop fragment scratch in_fragmented_record prospective_record_offset
                 (ReportCorruption (length fragment) (cstr ''missing start of fragmented record(1)'') r)
             else ReadRecord_loop fragment (scratch @ fragment) in_fragmented_record prospective_record_offset r
           else if record_type = RecordType_code kLastType then
             if \<not> in_fragmented_record then
               ReadRecord_loop fragment scratch in_fragmented_record prospective_record_offset
                 (ReportCorruption (length fragment) (cstr ''missing start of fragmented record(2)'') r)
             else (Some (scratch @ fragment), r \<lparr> r_last_record_offset := prospective_record_offset \<rparr>)
           else if record_type = kEof then (None, r)
           else if record_type = kBadRecord then
             if in_fragmented_record then
               ReadRecord_loop fragment [] False prospective_record_offset
                 (ReportCorruption (length scratch) (cstr ''error in middle of record'') r)
             else ReadRecord_loop fragment scratch in_fragmented_record prospective_record_offset r
           else ReadRecord_loop fragment [] False prospective_record_offset
             (ReportCorruption (length fragment + (if in_fragmented_record then length scratch else 0))
               (cstr ''unknown record type '' @ to_string (of_nat record_type)) r))"
  by pat_completeness auto
termination
proof (relation "measure (\<lambda>(fragment, scratch, in_fragmented_record, prospective_record_offset, r). unread r)")
qed (auto simp: kEof_def kMaxRecordType_def kHeaderSize_def unread_resyncing dest!: ReadPhysicalRecord_unread [OF sym])


declare ReadRecord_loop.simps [simp del]

definition Reader_ReadRecord :: "Reader \<Rightarrow> bytes option \<times> Reader" where
  "Reader_ReadRecord r =
     (if r_last_record_offset r < r_initial_offset r then
        (case SkipToInitialBlock r of (ok, r) \<Rightarrow> if ok then ReadRecord_loop [] [] False 0 r else (None, r))
      else ReadRecord_loop [] [] False 0 r)"

subsection \<open>The layout of a log\<close>

text \<open>A log as its physical records: the type and the payload of each.\<close>

type_synonym physical = "RecordType \<times> bytes"

definition phys_bytes :: "physical \<Rightarrow> bytes" where
  "phys_bytes r = (case r of (t, p) \<Rightarrow>
     EncodeFixed32 (Mask (crc32c 0 (of_nat (RecordType_code t) # p))) @
     [of_nat (length p mod 256), of_nat (length p div 256), of_nat (RecordType_code t)] @ p)"

definition pad_length :: "nat \<Rightarrow> nat" where
  "pad_length off = (if log_kBlockSize - off < kHeaderSize then log_kBlockSize - off else 0)"

definition start_offset :: "nat \<Rightarrow> nat" where
  "start_offset off = (if log_kBlockSize - off < kHeaderSize then 0 else off)"

fun log_bytes :: "nat \<Rightarrow> physical list \<Rightarrow> bytes" where
  "log_bytes off [] = []"
| "log_bytes off (r # rs) =
     replicate (pad_length off) 0 @ phys_bytes r @ log_bytes (start_offset off + kHeaderSize + length (snd r)) rs"

fun log_end :: "nat \<Rightarrow> physical list \<Rightarrow> nat" where
  "log_end off [] = off"
| "log_end off (r # rs) = log_end (start_offset off + kHeaderSize + length (snd r)) rs"

fun phys_ok :: "nat \<Rightarrow> physical list \<Rightarrow> bool" where
  "phys_ok off [] = (off \<le> log_kBlockSize)"
| "phys_ok off (r # rs) \<longleftrightarrow> off \<le> log_kBlockSize \<and> fst r \<noteq> kZeroType \<and>
     start_offset off + kHeaderSize + length (snd r) \<le> log_kBlockSize \<and>
     phys_ok (start_offset off + kHeaderSize + length (snd r)) rs"

text \<open>The fragments of a record, from the flag that tells the first one.\<close>

fun fragments_of :: "bool \<Rightarrow> bytes \<Rightarrow> physical list \<Rightarrow> bool" where
  "fragments_of b rec [] = False"
| "fragments_of b rec ((t, p) # ps) =
     (if ps = [] then p = rec \<and> t = fragment_type b True
      else t = fragment_type b False \<and> take (length p) rec = p \<and> fragments_of False (drop (length p) rec) ps)"

lemmas log_sizes = log_kBlockSize_def kHeaderSize_def

lemma log_bytes_append: "log_bytes off (ps @ qs) = log_bytes off ps @ log_bytes (log_end off ps) qs"
  by (induction off ps rule: log_bytes.induct) simp_all

lemma phys_ok_append: "phys_ok off (ps @ qs) \<longleftrightarrow> phys_ok off ps \<and> phys_ok (log_end off ps) qs"
proof (induction off ps rule: log_bytes.induct)
  case (1 off)
  then show ?case by (cases qs) auto
qed auto

lemma length_phys_bytes: "length (phys_bytes r) = kHeaderSize + length (snd r)"
  by (simp add: phys_bytes_def split_def kHeaderSize_def)

lemma RecordType_code_less: "RecordType_code t < 5"
  by (cases t) simp_all

lemma fragment_type_not_zero: "fragment_type b e \<noteq> kZeroType"
  by (simp add: fragment_type_def)

lemma Value_crc32c: "Value None 0 data = crc32c 0 data"
  by (simp add: Value_def Extend_def test_value_nonzero Extend_portable_crc32c)

lemma InitTypeCrc_nth: "InitTypeCrc ! RecordType_code t = crc32c 0 [of_nat (RecordType_code t)]"
  using RecordType_code_less [of t] by (simp add: InitTypeCrc_def Value_crc32c kMaxRecordType_def del: upt_Suc)

context writable_file
begin

lemma EmitPhysicalRecord_ok:
  assumes "w_block_offset w + kHeaderSize + length p \<le> log_kBlockSize" "w_type_crc w = InitTypeCrc"
  shows "\<exists>w'. EmitPhysicalRecord append flush t p w = Some (Status_OK, w') \<and>
    contents (w_dest w') = contents (w_dest w) @ phys_bytes (t, p) \<and>
    w_block_offset w' = w_block_offset w + kHeaderSize + length p \<and> w_type_crc w' = InitTypeCrc"
proof -
  have "length p \<le> 0xffff" using assms(1) by (simp add: log_sizes)
  moreover have "Extend None 0 (crc32c 0 [c]) p = crc32c 0 (c # p)" for c
    using crc32c_append [of 0 "[c]" p] by (simp add: Extend_def test_value_nonzero Extend_portable_crc32c)
  moreover have "Status_ok Status_OK" by (simp add: status_simps)
  ultimately show ?thesis
    using assms append_ok append_contents flush_ok flush_contents
    by (auto simp: EmitPhysicalRecord_def Let_def split_def InitTypeCrc_nth phys_bytes_def)
qed

lemma switch_block_ok:
  assumes "w_block_offset w \<le> log_kBlockSize"
  shows "contents (w_dest (switch_block append w)) = contents (w_dest w) @ replicate (pad_length (w_block_offset w)) 0 \<and>
    w_block_offset (switch_block append w) = start_offset (w_block_offset w) \<and>
    w_type_crc (switch_block append w) = w_type_crc w"
  using assms append_contents by (auto simp: switch_block_def Let_def pad_length_def start_offset_def)

lemma AddRecord_loop_ok:
  "w_block_offset w \<le> log_kBlockSize \<Longrightarrow> w_type_crc w = InitTypeCrc \<Longrightarrow>
   \<exists>ps w'. AddRecord_loop append flush b ptr w = Some (Status_OK, w') \<and> fragments_of b ptr ps \<and>
     phys_ok (w_block_offset w) ps \<and> contents (w_dest w') = contents (w_dest w) @ log_bytes (w_block_offset w) ps \<and>
     w_block_offset w' = log_end (w_block_offset w) ps \<and> w_type_crc w' = InitTypeCrc"
proof (induction "2 * length ptr + (if log_kBlockSize - w_block_offset w = kHeaderSize then 1 else 0)"
    arbitrary: b ptr w rule: less_induct)
  case less
  define w1 where "w1 = switch_block append w"
  define n where "n = fragment_length (length ptr) w1"
  let ?off = "w_block_offset w"
  have w1: "contents (w_dest w1) = contents (w_dest w) @ replicate (pad_length ?off) 0"
      "w_block_offset w1 = start_offset ?off" "w_type_crc w1 = InitTypeCrc"
    using switch_block_ok [OF less.prems(1)] less.prems(2) by (simp_all add: w1_def)
  have start: "start_offset ?off + kHeaderSize \<le> log_kBlockSize"
    using less.prems(1) by (auto simp: start_offset_def log_sizes)
  have n: "n \<le> length ptr" "start_offset ?off + kHeaderSize + n \<le> log_kBlockSize"
    using start by (auto simp: n_def fragment_length_def w1(2))
  let ?t = "fragment_type b (length ptr = n)"
  obtain w' where w': "EmitPhysicalRecord append flush ?t (take n ptr) w1 = Some (Status_OK, w')"
      "contents (w_dest w') = contents (w_dest w1) @ phys_bytes (?t, take n ptr)"
      "w_block_offset w' = start_offset ?off + kHeaderSize + n" "w_type_crc w' = InitTypeCrc"
    using EmitPhysicalRecord_ok [of w1 "take n ptr" ?t] w1 n by (auto simp: min_absorb2)
  have step: "AddRecord_loop append flush b ptr w =
      (if length ptr - n > 0 then AddRecord_loop append flush False (drop n ptr) w' else Some (Status_OK, w'))"
    using less.prems(1) w'(1)
    by (subst AddRecord_loop.simps) (simp add: w1_def [symmetric] n_def [symmetric] Let_def status_simps)
  show ?case
  proof (cases "length ptr = n")
    case True
    then show ?thesis
      using step w' w1 n less.prems fragment_type_not_zero
      by (intro exI [of _ "[(?t, take n ptr)]"] exI [of _ w']) simp
  next
    case False
    have "2 * length (drop n ptr) + (if log_kBlockSize - w_block_offset w' = kHeaderSize then 1 else 0) <
        2 * length ptr + (if log_kBlockSize - ?off = kHeaderSize then 1 else 0)"
    proof (cases "n = 0")
      case True
      then have "start_offset ?off + kHeaderSize = log_kBlockSize"
        using False start n_def w1(2) by (auto simp: fragment_length_def min_def split: if_splits)
      then show ?thesis using True w'(3) by (auto simp: start_offset_def log_sizes split: if_splits)
    next
      case n0: False
      then show ?thesis using n(1) by (auto split: if_splits)
    qed
    moreover have "w_block_offset w' \<le> log_kBlockSize" using w'(3) n(2) by simp
    ultimately obtain ps w2 where IH: "AddRecord_loop append flush False (drop n ptr) w' = Some (Status_OK, w2)"
        "fragments_of False (drop n ptr) ps" "phys_ok (w_block_offset w') ps"
        "contents (w_dest w2) = contents (w_dest w') @ log_bytes (w_block_offset w') ps"
        "w_block_offset w2 = log_end (w_block_offset w') ps" "w_type_crc w2 = InitTypeCrc"
      using less.hyps [of "drop n ptr" w' False] w'(4) by blast
    have "ps \<noteq> []" using IH(2) by auto
    then show ?thesis
      using step w' w1 n less.prems IH False fragment_type_not_zero
      by (intro exI [of _ "(?t, take n ptr) # ps"] exI [of _ w2]) (simp add: min_absorb2)
  qed
qed

end


subsection \<open>Positions of a reader\<close>

text \<open>
  A reader of the file \<open>F\<close> at position \<open>p\<close>: the buffer holds the bytes from there to the end of the block, or to the
  end of the file.
\<close>

definition block_end :: "nat \<Rightarrow> nat" where
  "block_end p = p div log_kBlockSize * log_kBlockSize + log_kBlockSize"

definition reader_at :: "bytes \<Rightarrow> nat \<Rightarrow> Reader \<Rightarrow> bool" where
  "reader_at F p r \<longleftrightarrow> mf_data (r_file r) = F \<and> mf_size (r_file r) = length F \<and> p \<le> r_pos r \<and> r_pos r \<le> length F \<and>
     r_buffer r = drop p (take (r_pos r) F) \<and> (p < r_pos r \<longrightarrow> r_pos r \<le> block_end p) \<and>
     (if r_eof r then r_pos r = length F else r_pos r mod log_kBlockSize = 0) \<and>
     r_end_of_buffer_offset r = of_nat (r_pos r) \<and> r_initial_offset r = 0 \<and> \<not> r_resyncing r \<and> r_reports r = []"

text \<open>Where the next header is: here, or in the next block.\<close>

definition next_header :: "nat \<Rightarrow> nat" where
  "next_header p = (if block_end p - p < kHeaderSize then block_end p else p)"

lemma reader_pos_cases:
  assumes "reader_at F p r" "\<not> r_eof r"
  shows "r_pos r = p \<and> p mod log_kBlockSize = 0 \<or> p < r_pos r \<and> r_pos r = block_end p"
proof (cases "r_pos r = p")
  case True
  then show ?thesis using assms by (simp add: reader_at_def)
next
  case False
  then have "p < r_pos r" "r_pos r \<le> block_end p" "r_pos r mod 32768 = 0"
    using assms by (auto simp: reader_at_def log_kBlockSize_def)
  moreover from this obtain e where e: "r_pos r = 32768 * e" by (auto simp: mod_eq_0_iff_dvd)
  ultimately have "p div 32768 < e" by (auto intro: less_mult_imp_div_less)
  then have "r_pos r = block_end p"
    using \<open>r_pos r \<le> block_end p\<close> e by (simp add: block_end_def log_kBlockSize_def)
  then show ?thesis using \<open>p < r_pos r\<close> by simp
qed

lemma block_end_gt: "p < block_end p"
  using div_mult_mod_eq [of p log_kBlockSize] mod_less_divisor [of log_kBlockSize p]
  by (simp add: block_end_def log_kBlockSize_def)

lemma block_end_aligned: "p mod log_kBlockSize = 0 \<Longrightarrow> block_end p = p + log_kBlockSize"
  using div_mult_mod_eq [of p log_kBlockSize] by (simp add: block_end_def)

lemma refill:
  assumes at: "reader_at F p r" and short: "length (r_buffer r) < kHeaderSize" and eof: "\<not> r_eof r"
  shows "\<exists>r1. ReadPhysicalRecord f r = ReadPhysicalRecord f r1 \<and> reader_at F (r_pos r) r1 \<and>
    r_buffer r1 = drop (r_pos r) (take (r_pos r + log_kBlockSize) F) \<and>
    (length F < r_pos r + log_kBlockSize \<longrightarrow> r_eof r1)"
proof -
  let ?e = "r_pos r"
  let ?buf = "take log_kBlockSize (drop ?e F)"
  define r0 where "r0 = r \<lparr> r_buffer := ?buf, r_pos := ?e + length ?buf,
      r_end_of_buffer_offset := r_end_of_buffer_offset r + of_nat (length ?buf) \<rparr>"
  define r1 where "r1 = (if length ?buf < log_kBlockSize then r0 \<lparr> r_eof := True \<rparr> else r0)"
  have "MemSequentialFile_Read (r_file r) ?e log_kBlockSize = (Status_OK, ?buf, ?e + length ?buf)"
    using at MemFile_Read_eq [of "r_file r" ?e log_kBlockSize]
    by (auto simp: MemSequentialFile_Read_def reader_at_def status_simps)
  then have "ReadPhysicalRecord f r = ReadPhysicalRecord f r1"
    using short eof by (simp add: ReadPhysicalRecord.simps [of f r] Let_def status_simps r1_def r0_def)
  moreover have aligned: "?e mod log_kBlockSize = 0" using at eof by (simp add: reader_at_def)
  have "reader_at F ?e r1"
  proof (cases "length F < ?e + log_kBlockSize")
    case True
    then show ?thesis
      using at eof block_end_aligned [OF aligned]
      by (auto simp: reader_at_def r1_def r0_def min_def split: if_splits)
  next
    case False
    then have "length ?buf = log_kBlockSize" by simp
    then show ?thesis
      using at eof aligned block_end_aligned [OF aligned] False
      by (auto simp: reader_at_def r1_def r0_def take_drop add.commute)
  qed
  moreover have "r_buffer r1 = drop ?e (take (?e + log_kBlockSize) F)" by (simp add: r1_def r0_def take_drop add.commute)
  moreover have "length F < ?e + log_kBlockSize \<longrightarrow> r_eof r1"
    using at by (auto simp: r1_def reader_at_def min_def)
  ultimately show ?thesis by blast
qed

lemma reader_advance:
  assumes at: "reader_at F p r" and len: "next_header p + kHeaderSize \<le> length F"
  shows "\<exists>r1. ReadPhysicalRecord f r = parse_physical_record f r1 \<and> reader_at F (next_header p) r1 \<and>
    r_buffer r1 = drop (next_header p) (take (block_end (next_header p)) F) \<and>
    (length F < block_end (next_header p) \<longrightarrow> r_eof r1)"
proof -
  let ?q = "next_header p"
  have buf: "length (r_buffer r) = r_pos r - p" "p \<le> r_pos r" "p < r_pos r \<longrightarrow> r_pos r \<le> block_end p"
    using at by (auto simp: reader_at_def min_def)
  show ?thesis
  proof (cases "?q = p \<and> p < r_pos r")
    case True
    then have room: "block_end p - p \<ge> kHeaderSize" using block_end_gt [of p] by (auto simp: next_header_def split: if_splits)
    have pos: "r_pos r = length F \<and> r_eof r \<or> r_pos r = block_end p"
      using at reader_pos_cases [OF at] True by (cases "r_eof r") (auto simp: reader_at_def)
    then have "\<not> length (r_buffer r) < kHeaderSize" using buf True room len block_end_gt [of p] by auto
    then have "ReadPhysicalRecord f r = parse_physical_record f r" by (simp add: ReadPhysicalRecord.simps [of f r])
    moreover have "r_buffer r = drop p (take (block_end p) F)" "length F < block_end p \<longrightarrow> r_eof r"
      using pos at buf True by (auto simp: reader_at_def)
    ultimately show ?thesis using True at by auto
  next
    case False
    have eof: "\<not> r_eof r" using at len buf block_end_gt [of p] False
      by (cases "?q = p") (auto simp: reader_at_def next_header_def kHeaderSize_def split: if_splits)
    have pos: "r_pos r = ?q" and aligned: "?q mod log_kBlockSize = 0"
    proof -
      have "r_pos r mod log_kBlockSize = 0" using at eof by (simp add: reader_at_def)
      moreover show "r_pos r = ?q"
        using reader_pos_cases [OF at eof] False block_end_aligned [of p]
        by (auto simp: next_header_def log_sizes split: if_splits)
      ultimately show "?q mod log_kBlockSize = 0" by simp
    qed
    have "length (r_buffer r) < kHeaderSize"
      using buf pos False block_end_gt [of p] by (auto simp: next_header_def kHeaderSize_def split: if_splits)
    from refill [OF at this eof, of f] obtain r1 where r1: "ReadPhysicalRecord f r = ReadPhysicalRecord f r1"
        "reader_at F ?q r1" "r_buffer r1 = drop ?q (take (block_end ?q) F)" "length F < block_end ?q \<longrightarrow> r_eof r1"
      by (auto simp: pos block_end_aligned [OF aligned])
    have "\<not> length (r_buffer r1) < kHeaderSize"
      using len by (simp add: r1(3) block_end_aligned [OF aligned] log_sizes)
    then have "ReadPhysicalRecord f r1 = parse_physical_record f r1" by (simp add: ReadPhysicalRecord.simps [of f r1])
    then show ?thesis using r1 by auto
  qed
qed

lemma reader_at_end:
  assumes at: "reader_at F p r" and len: "\<not> next_header p + kHeaderSize \<le> length F"
  shows "\<exists>r1. ReadPhysicalRecord f r = (kEof, f, r1) \<and> r_reports r1 = [] \<and> \<not> r_resyncing r1"
proof -
  have buf: "length (r_buffer r) = r_pos r - p" "p \<le> r_pos r" "p < r_pos r \<longrightarrow> r_pos r \<le> block_end p" "r_pos r \<le> length F"
    using at by (auto simp: reader_at_def min_def)
  have short: "length (r_buffer r) < kHeaderSize"
    using buf len block_end_gt [of p] by (auto simp: next_header_def split: if_splits)
  have end_state: "\<exists>r1. ReadPhysicalRecord f r = (kEof, f, r1) \<and> r_reports r1 = [] \<and> \<not> r_resyncing r1"
    if "reader_at F q r" "r_eof r" "length (r_buffer r) < kHeaderSize" for q r
    using that by (auto simp: ReadPhysicalRecord.simps [of f r] reader_at_def)
  show ?thesis
  proof (cases "r_eof r")
    case True
    then show ?thesis using end_state [OF at _ short] by blast
  next
    case False
    from refill [OF at short False, of f] obtain r1 where r1: "ReadPhysicalRecord f r = ReadPhysicalRecord f r1"
        "reader_at F (r_pos r) r1" "r_buffer r1 = drop (r_pos r) (take (r_pos r + log_kBlockSize) F)"
        "length F < r_pos r + log_kBlockSize \<longrightarrow> r_eof r1" by blast
    have "length F < r_pos r + kHeaderSize"
      using reader_pos_cases [OF at False] len by (auto simp: next_header_def block_end_aligned log_sizes split: if_splits)
    moreover from this have "length (r_buffer r1) < kHeaderSize" unfolding r1(3) by (simp add: log_sizes min_def)
    ultimately show ?thesis using end_state [OF r1(2)] r1 by (auto simp: log_sizes)
  qed
qed

subsection \<open>Reading back a log\<close>

lemma phys_bytes_nth:
  assumes "length x < 65536"
  shows "unat (phys_bytes (t, x) ! 4) + 256 * unat (phys_bytes (t, x) ! 5) = length x"
    "phys_bytes (t, x) ! 6 = of_nat (RecordType_code t)"
    "unat (scast (phys_bytes (t, x) ! 6) :: u32) = RecordType_code t"
proof -
  let ?e = "EncodeFixed32 (Mask (crc32c 0 (of_nat (RecordType_code t) # x)))"
  have e: "length ?e = 4" by simp
  have "phys_bytes (t, x) ! (4 + i) = ([of_nat (length x mod 256), of_nat (length x div 256), of_nat (RecordType_code t)] @ x) ! i" for i
    unfolding phys_bytes_def using e by (simp add: nth_append)
  from this [of 0] this [of 1] this [of 2]
  have nth: "phys_bytes (t, x) ! 4 = of_nat (length x mod 256)" "phys_bytes (t, x) ! 5 = of_nat (length x div 256)"
    "phys_bytes (t, x) ! 6 = of_nat (RecordType_code t)" by simp_all
  have "length x div 256 < 256" using assms by simp
  then show "unat (phys_bytes (t, x) ! 4) + 256 * unat (phys_bytes (t, x) ! 5) = length x"
    unfolding nth by (simp add: unat_of_nat)
  show "phys_bytes (t, x) ! 6 = of_nat (RecordType_code t)" by (rule nth(3))
  show "unat (scast (phys_bytes (t, x) ! 6) :: u32) = RecordType_code t"
    unfolding nth by (cases t) simp_all
qed

lemma parse_phys_bytes:
  assumes buf: "r_buffer r = phys_bytes (t, x) @ rest" and t: "t \<noteq> kZeroType" and len: "length x < 65536"
    and init: "r_initial_offset r = 0"
  shows "parse_physical_record f r = (RecordType_code t, x, r \<lparr> r_buffer := rest \<rparr>)"
proof -
  let ?h = "phys_bytes (t, x)"
  have lh: "length ?h = kHeaderSize + length x" by (simp add: length_phys_bytes)
  have nth: "(?h @ rest) ! i = ?h ! i" if "i < 7" for i using that lh by (simp add: nth_append kHeaderSize_def)
  have "drop 6 ?h = of_nat (RecordType_code t) # x" "drop kHeaderSize ?h = x"
    by (simp_all add: phys_bytes_def kHeaderSize_def)
  then have d6: "take (1 + length x) (drop 6 (?h @ rest)) = of_nat (RecordType_code t) # x"
      "take (length x) (drop kHeaderSize (?h @ rest)) = x" "drop (kHeaderSize + length x) (?h @ rest) = rest"
    using lh by (simp_all add: kHeaderSize_def)
  have crc: "DecodeFixed32_ptr (?h @ rest) = Some (Mask (crc32c 0 (of_nat (RecordType_code t) # x)))"
    by (simp add: phys_bytes_def DecodeFixed32_ptr_Encode)
  have code: "RecordType_code t \<noteq> 0" using t by (cases t) simp_all
  have nths: "unat ((?h @ rest) ! 4) + 256 * unat ((?h @ rest) ! 5) = length x"
      "unat (scast ((?h @ rest) ! 6) :: u32) = RecordType_code t"
    using phys_bytes_nth [OF len, of t] by (simp_all add: nth)
  show ?thesis
    unfolding parse_physical_record_def Let_def buf nths crc d6
    using lh code init by (simp add: Value_crc32c Unmask_Mask d6)
qed

lemma parse_truncated:
  assumes buf: "r_buffer r = take m (phys_bytes (t, x))" and m: "kHeaderSize \<le> m" "m < kHeaderSize + length x"
    and len: "length x < 65536" and eof: "r_eof r"
  shows "parse_physical_record f r = (kEof, f, r \<lparr> r_buffer := [] \<rparr>)"
proof -
  have nth: "take m (phys_bytes (t, x)) ! i = phys_bytes (t, x) ! i" if "i < 7" for i
    using that m by (simp add: kHeaderSize_def)
  have nths: "unat (take m (phys_bytes (t, x)) ! 4) + 256 * unat (take m (phys_bytes (t, x)) ! 5) = length x"
    using phys_bytes_nth [OF len, of t] by (simp add: nth)
  show ?thesis
    unfolding parse_physical_record_def Let_def buf nths
    using m eof by (simp add: length_phys_bytes)
qed

lemma log_offset_norm:
  assumes "off \<le> log_kBlockSize"
  shows "log_bytes off ps = log_bytes (off mod log_kBlockSize) ps" "phys_ok off ps = phys_ok (off mod log_kBlockSize) ps"
proof -
  have "off = log_kBlockSize \<or> off mod log_kBlockSize = off" using assms by (auto simp: le_less)
  moreover have "log_bytes log_kBlockSize ps = log_bytes 0 ps" "phys_ok log_kBlockSize ps = phys_ok 0 ps"
    by (cases ps; simp add: pad_length_def start_offset_def log_sizes)+
  ultimately show "log_bytes off ps = log_bytes (off mod log_kBlockSize) ps"
      "phys_ok off ps = phys_ok (off mod log_kBlockSize) ps" by auto
qed

lemma block_end_offset: "block_end p = p + (log_kBlockSize - p mod log_kBlockSize)"
proof -
  have "p mod log_kBlockSize < log_kBlockSize" by (simp add: log_kBlockSize_def)
  then show ?thesis unfolding block_end_def using div_mult_mod_eq [of p log_kBlockSize] by linarith
qed

lemma next_header_offset: "next_header p = p + pad_length (p mod log_kBlockSize)"
  "next_header p mod log_kBlockSize = start_offset (p mod log_kBlockSize)"
proof -
  have "block_end p - p = log_kBlockSize - p mod log_kBlockSize" by (simp add: block_end_offset)
  moreover note block_end_offset [of p]
  moreover have "block_end p mod log_kBlockSize = 0" by (simp add: block_end_def)
  ultimately show "next_header p = p + pad_length (p mod log_kBlockSize)"
      "next_header p mod log_kBlockSize = start_offset (p mod log_kBlockSize)"
    by (auto simp: next_header_def pad_length_def start_offset_def)
qed

lemma block_end_same: "p \<le> q \<Longrightarrow> q < block_end p \<Longrightarrow> block_end q = block_end p"
proof -
  assume a: "p \<le> q" "q < block_end p"
  have "p div log_kBlockSize \<le> q div log_kBlockSize" using a(1) by (rule div_le_mono)
  moreover have "q div log_kBlockSize < p div log_kBlockSize + 1"
    using a(2) by (intro less_mult_imp_div_less) (simp add: block_end_def)
  ultimately show ?thesis by (simp add: block_end_def)
qed

text \<open>Where a physical record starts and ends in the file, and the bytes from there.\<close>

lemma phys_position:
  assumes ok: "phys_ok (p mod log_kBlockSize) ((t, x) # ps)"
    and F: "drop p F = take m (log_bytes (p mod log_kBlockSize) ((t, x) # ps))"
  defines "q \<equiv> next_header p" and "p' \<equiv> next_header p + kHeaderSize + length x"
  shows "drop q F = take (m - (q - p)) (phys_bytes (t, x) @ log_bytes (p' mod log_kBlockSize) ps)"
    and "phys_ok (p' mod log_kBlockSize) ps" and "p' \<le> block_end q" and "length x < 65536" and "t \<noteq> kZeroType"
proof -
  let ?off = "start_offset (p mod log_kBlockSize) + kHeaderSize + length x"
  have off: "?off \<le> log_kBlockSize" "phys_ok ?off ps" using ok by simp_all
  have p': "p' mod log_kBlockSize = ?off mod log_kBlockSize"
    unfolding p'_def add.assoc next_header_offset(2) [symmetric] by (simp add: mod_add_left_eq)
  show "phys_ok (p' mod log_kBlockSize) ps" unfolding p' using off log_offset_norm(2) by metis
  have "drop q F = drop (q - p) (drop p F)" by (simp add: q_def next_header_offset(1) add.commute)
  also have "\<dots> = take (m - (q - p)) (phys_bytes (t, x) @ log_bytes ?off ps)"
    unfolding F drop_take by (simp add: q_def next_header_offset(1))
  also have "log_bytes ?off ps = log_bytes (p' mod log_kBlockSize) ps" unfolding p' by (rule log_offset_norm(1) [OF off(1)])
  finally show "drop q F = take (m - (q - p)) (phys_bytes (t, x) @ log_bytes (p' mod log_kBlockSize) ps)" .
  show "p' \<le> block_end q" unfolding block_end_offset q_def p'_def next_header_offset(2) using off(1) by simp
  show "length x < 65536" using off(1) by (simp add: log_kBlockSize_def)
  show "t \<noteq> kZeroType" using ok by simp
qed

lemma read_phys_full:
  assumes at: "reader_at F p r" and ok: "phys_ok (p mod log_kBlockSize) ((t, x) # ps)"
    and F: "drop p F = take m (log_bytes (p mod log_kBlockSize) ((t, x) # ps))"
  defines "p' \<equiv> next_header p + kHeaderSize + length x"
  assumes m: "p' \<le> p + m"
  shows "\<exists>r'. ReadPhysicalRecord f r = (RecordType_code t, x, r') \<and> reader_at F p' r' \<and>
    drop p' F = take (m - (p' - p)) (log_bytes (p' mod log_kBlockSize) ps) \<and> phys_ok (p' mod log_kBlockSize) ps"
proof -
  let ?q = "next_header p"
  note pos = phys_position [OF ok F, folded p'_def]
  define rest where "rest = take (m - (p' - p)) (log_bytes (p' mod log_kBlockSize) ps)"
  have "p \<le> ?q" by (simp add: next_header_offset(1))
  then have "m - (?q - p) = length (phys_bytes (t, x)) + (m - (p' - p))"
    using m by (simp add: length_phys_bytes p'_def)
  then have dq: "drop ?q F = phys_bytes (t, x) @ rest" unfolding pos(1) rest_def by simp
  have "length (drop ?q F) = kHeaderSize + length x + length rest" unfolding dq by (simp add: length_phys_bytes)
  then have len: "p' \<le> length F" "length F - ?q = kHeaderSize + length x + length rest"
    by (auto simp: p'_def kHeaderSize_def)
  then obtain r1 where r1: "ReadPhysicalRecord f r = parse_physical_record f r1" "reader_at F ?q r1"
      "r_buffer r1 = drop ?q (take (block_end ?q) F)"
    using reader_advance [OF at, of f] by (auto simp: p'_def)
  have "r_buffer r1 = take (block_end ?q - ?q) (phys_bytes (t, x) @ rest)" unfolding r1(3) dq [symmetric] by (rule drop_take)
  moreover have "kHeaderSize + length x \<le> block_end ?q - ?q" using pos(3) by (auto simp: p'_def)
  ultimately have buf: "r_buffer r1 = phys_bytes (t, x) @ take (block_end ?q - p') rest"
    by (simp add: length_phys_bytes p'_def add.assoc)
  define r' where "r' = r1 \<lparr> r_buffer := take (block_end ?q - p') rest \<rparr>"
  have "ReadPhysicalRecord f r = (RecordType_code t, x, r')"
    using parse_phys_bytes [OF buf pos(5) pos(4)] r1(1,2) by (simp add: reader_at_def r'_def)
  moreover have "drop p' F = rest"
  proof -
    have "drop p' F = drop (kHeaderSize + length x) (drop ?q F)" by (simp add: p'_def add.commute add.left_commute)
    then show ?thesis unfolding dq by (simp add: length_phys_bytes)
  qed
  moreover have "reader_at F p' r'"
  proof -
    have "length (r_buffer r1) \<ge> kHeaderSize + length x" unfolding buf by (simp add: length_phys_bytes)
    then have le: "p' \<le> r_pos r1" using r1(2) by (auto simp: reader_at_def p'_def)
    have "r_buffer r' = drop (kHeaderSize + length x) (r_buffer r1)"
      unfolding buf r'_def by (simp add: length_phys_bytes)
    also have "\<dots> = drop p' (take (r_pos r1) F)" using r1(2) by (simp add: reader_at_def p'_def add.commute add.left_commute)
    finally have buf': "r_buffer r' = drop p' (take (r_pos r1) F)" .
    have "p' < r_pos r1 \<longrightarrow> r_pos r1 \<le> block_end p'"
      using r1(2) block_end_same [of ?q p'] by (auto simp: reader_at_def p'_def kHeaderSize_def)
    then show ?thesis using r1(2) le buf' by (simp add: reader_at_def r'_def)
  qed
  ultimately show ?thesis using pos(2) by (auto simp: rest_def)
qed

lemma read_phys_truncated:
  assumes at: "reader_at F p r" and ok: "phys_ok (p mod log_kBlockSize) ((t, x) # ps)"
    and F: "drop p F = take m (log_bytes (p mod log_kBlockSize) ((t, x) # ps))"
    and m: "\<not> next_header p + kHeaderSize + length x \<le> p + m"
  shows "\<exists>r'. ReadPhysicalRecord f r = (kEof, f, r') \<and> r_reports r' = [] \<and> \<not> r_resyncing r'"
proof (cases "next_header p + kHeaderSize \<le> length F")
  case False
  then show ?thesis by (rule reader_at_end [OF at])
next
  case True
  let ?q = "next_header p"
  note pos = phys_position [OF ok F]
  have "p \<le> ?q" by (simp add: next_header_offset(1))
  then have m': "m - (?q - p) < kHeaderSize + length x" using m by (simp add: kHeaderSize_def)
  have dq: "drop ?q F = take (m - (?q - p)) (phys_bytes (t, x))"
    unfolding pos(1) using m' by (simp add: length_phys_bytes)
  have lq: "length F - ?q = m - (?q - p)"
  proof -
    have "length (drop ?q F) = m - (?q - p)" unfolding dq using m' by (simp add: length_phys_bytes)
    then show ?thesis by simp
  qed
  have end_F: "length F < block_end ?q" using lq m' pos(3) True by linarith
  obtain r1 where r1: "ReadPhysicalRecord f r = parse_physical_record f r1" "reader_at F ?q r1"
      "r_buffer r1 = drop ?q (take (block_end ?q) F)" "r_eof r1"
    using reader_advance [OF at True, of f] end_F by auto
  have "r_buffer r1 = take (m - (?q - p)) (phys_bytes (t, x))" unfolding r1(3) using end_F dq by simp
  from parse_truncated [OF this _ m' pos(4) r1(4)] lq True r1(1,2) show ?thesis
    by (auto simp: reader_at_def)
qed

lemma resyncing_unchanged: "\<not> r_resyncing r \<Longrightarrow> r \<lparr> r_resyncing := False \<rparr> = r"
  by simp

lemma ReadRecord_loop_fragment:
  assumes "ReadPhysicalRecord f r = (RecordType_code (fragment_type b e), x, r')" "\<not> r_resyncing r'"
  shows "\<exists>offset. ReadRecord_loop f scratch (\<not> b) prospective r =
    (if e then (Some ((if b then [] else scratch) @ x), r' \<lparr> r_last_record_offset := offset \<rparr>)
     else ReadRecord_loop x ((if b then [] else scratch) @ x) True offset r')"
  using assms
  by (intro exI [of _ "if b then r_end_of_buffer_offset r' - of_nat (length (r_buffer r')) - of_nat kHeaderSize -
      of_nat (length x) else prospective"], subst ReadRecord_loop.simps)
    (cases b; cases e; simp add: fragment_type_def Let_def resyncing_unchanged)

lemma ReadRecord_loop_eof:
  assumes "ReadPhysicalRecord f r = (kEof, f, r')" "\<not> r_resyncing r'"
  shows "ReadRecord_loop f scratch i prospective r = (None, r')"
  using assms by (subst ReadRecord_loop.simps) (simp add: Let_def kEof_def kMaxRecordType_def resyncing_unchanged)

text \<open>Reading a record whose fragments are next in the file, when the file may end in the middle of them.\<close>

lemma read_fragments:
  assumes "fragments_of b rec ps" "reader_at F p r" "phys_ok (p mod log_kBlockSize) (ps @ qs)"
    "drop p F = take m (log_bytes (p mod log_kBlockSize) (ps @ qs))"
  defines "sz \<equiv> length (log_bytes (p mod log_kBlockSize) ps)"
  shows "\<exists>r'. if sz \<le> m
    then ReadRecord_loop f scratch (\<not> b) prospective r = (Some ((if b then [] else scratch) @ rec), r') \<and>
      reader_at F (p + sz) r' \<and> phys_ok ((p + sz) mod log_kBlockSize) qs \<and>
      drop (p + sz) F = take (m - sz) (log_bytes ((p + sz) mod log_kBlockSize) qs)
    else ReadRecord_loop f scratch (\<not> b) prospective r = (None, r') \<and> r_reports r' = []"
  using assms(1-4) unfolding sz_def
proof (induction ps arbitrary: b rec p r m f scratch prospective)
  case (Cons a ps)
  obtain t x where a: "a = (t, x)" by (cases a)
  define p' where "p' = next_header p + kHeaderSize + length x"
  let ?off = "start_offset (p mod log_kBlockSize) + kHeaderSize + length x"
  let ?size = "length (log_bytes (p mod log_kBlockSize) (a # ps))"
  have ok: "phys_ok (p mod log_kBlockSize) ((t, x) # (ps @ qs))" using Cons.prems(3) by (simp add: a)
  have F: "drop p F = take m (log_bytes (p mod log_kBlockSize) ((t, x) # (ps @ qs)))" using Cons.prems(4) by (simp add: a)
  have "p' mod log_kBlockSize = ?off mod log_kBlockSize"
    unfolding p'_def add.assoc next_header_offset(2) [symmetric] by (simp add: mod_add_left_eq)
  moreover have "?off \<le> log_kBlockSize" using ok by simp
  ultimately have off: "log_bytes ?off ps = log_bytes (p' mod log_kBlockSize) ps" using log_offset_norm(1) by metis
  have p': "p' - p = pad_length (p mod log_kBlockSize) + kHeaderSize + length x" "p \<le> p'"
    by (simp_all add: p'_def next_header_offset(1))
  have size: "?size = (p' - p) + length (log_bytes (p' mod log_kBlockSize) ps)"
    unfolding p' off [symmetric] by (simp add: a length_phys_bytes)
  have frag: "t = fragment_type b (ps = [])"
    "if ps = [] then x = rec else take (length x) rec = x \<and> fragments_of False (drop (length x) rec) ps"
    using Cons.prems(1) by (cases "ps = []"; simp add: a)+
  show ?case
  proof (cases "p' \<le> p + m")
    case False
    from read_phys_truncated [OF Cons.prems(2) ok F False [unfolded p'_def], of f]
    obtain r' where "ReadPhysicalRecord f r = (kEof, f, r')" "r_reports r' = []" "\<not> r_resyncing r'" by blast
    moreover have "\<not> ?size \<le> m" unfolding size using False p'(2) by linarith
    ultimately show ?thesis using ReadRecord_loop_eof by auto
  next
    case True
    from read_phys_full [OF Cons.prems(2) ok F True [unfolded p'_def], of f, folded p'_def]
    obtain r' where r': "ReadPhysicalRecord f r = (RecordType_code t, x, r')" "reader_at F p' r'"
        "drop p' F = take (m - (p' - p)) (log_bytes (p' mod log_kBlockSize) (ps @ qs))"
        "phys_ok (p' mod log_kBlockSize) (ps @ qs)" by blast
    have "\<not> r_resyncing r'" using r'(2) by (simp add: reader_at_def)
    from ReadRecord_loop_fragment [OF r'(1) [unfolded frag(1)] this, of scratch prospective]
    obtain offset where step: "ReadRecord_loop f scratch (\<not> b) prospective r =
        (if ps = [] then (Some ((if b then [] else scratch) @ x), r' \<lparr> r_last_record_offset := offset \<rparr>)
         else ReadRecord_loop x ((if b then [] else scratch) @ x) True offset r')" by blast
    show ?thesis
    proof (cases "ps = []")
      case last: True
      have "?size = p' - p" using size last by simp
      then show ?thesis
        using step r' frag(2) last True p'(2)
        by (intro exI [of _ "r' \<lparr> r_last_record_offset := offset \<rparr>"]) (simp add: reader_at_def)
    next
      case more: False
      then have rec: "x @ drop (length x) rec = rec" using frag(2) by (metis append_take_drop_id)
      have "(?size \<le> m) = (length (log_bytes (p' mod log_kBlockSize) ps) \<le> m - (p' - p))"
        "m - ?size = m - (p' - p) - length (log_bytes (p' mod log_kBlockSize) ps)"
        "p + ?size = p' + length (log_bytes (p' mod log_kBlockSize) ps)"
        unfolding size using True p'(2) by linarith+
      then show ?thesis
        using Cons.IH [OF _ r'(2) r'(4) r'(3), of False "drop (length x) rec" x "(if b then [] else scratch) @ x" offset]
          frag(2) more step rec
        by (auto simp del: log_bytes.simps)
    qed
  qed
qed simp

subsection \<open>Sequences of records\<close>

text \<open>Appending records one after the other, until one fails; and calling the reader a number of times.\<close>

primrec add_records ::
    "('f \<Rightarrow> bytes \<Rightarrow> status \<times> 'f) \<Rightarrow> ('f \<Rightarrow> status \<times> 'f) \<Rightarrow> bytes list \<Rightarrow> 'f Writer \<Rightarrow> 'f Writer option" where
  "add_records file_append file_flush [] w = Some w"
| "add_records file_append file_flush (x # xs) w = (case Writer_AddRecord file_append file_flush x w of
     Some (s, w') \<Rightarrow> if Status_ok s then add_records file_append file_flush xs w' else None
   | None \<Rightarrow> None)"

primrec read_records :: "nat \<Rightarrow> Reader \<Rightarrow> bytes option list \<times> Reader" where
  "read_records 0 r = ([], r)"
| "read_records (Suc n) r = (case Reader_ReadRecord r of (x, r') \<Rightarrow>
     case read_records n r' of (xs, r'') \<Rightarrow> (x # xs, r''))"

text \<open>The file as it is found when only its first bytes were stored.\<close>

definition cut_file :: "nat \<Rightarrow> MemFile \<Rightarrow> MemFile" where
  "cut_file n f = f \<lparr> mf_data := take n (mf_data f), mf_size := length (take n (mf_data f)) \<rparr>"

lemma log_end_bound: "phys_ok off ps \<Longrightarrow> log_end off ps \<le> log_kBlockSize"
  by (induction off ps rule: log_end.induct) simp_all

lemma log_end_mod:
  "phys_ok off ps \<Longrightarrow> log_end off ps mod log_kBlockSize = (off + length (log_bytes off ps)) mod log_kBlockSize"
proof (induction off ps rule: log_end.induct)
  case (2 off r rs)
  let ?off = "start_offset off + kHeaderSize + length (snd r)"
  have "(off + pad_length off) mod log_kBlockSize = start_offset off mod log_kBlockSize"
    using 2(2) by (auto simp: pad_length_def start_offset_def)
  then have "(off + pad_length off + n) mod log_kBlockSize = (start_offset off + n) mod log_kBlockSize" for n
    by (rule mod_add_cong) simp
  from this [of "kHeaderSize + length (snd r) + length (log_bytes ?off rs)"] 2 show ?case
    by (simp add: length_phys_bytes add.assoc)
qed simp

lemma log_bytes_append_at:
  assumes "phys_ok (p mod log_kBlockSize) ps"
  shows "log_bytes (p mod log_kBlockSize) (ps @ qs) = log_bytes (p mod log_kBlockSize) ps @
    log_bytes ((p + length (log_bytes (p mod log_kBlockSize) ps)) mod log_kBlockSize) qs"
  using log_end_mod [OF assms] log_offset_norm(1) [OF log_end_bound [OF assms]]
  by (simp add: log_bytes_append mod_add_left_eq)

lemma fragments_of_nonempty: "fragments_of b rec ps \<Longrightarrow> length (log_bytes off ps) > 0"
  by (cases ps) (auto simp: length_phys_bytes kHeaderSize_def)

context writable_file
begin

lemma Writer_AddRecord_ok:
  assumes "w_block_offset w \<le> log_kBlockSize" "w_type_crc w = InitTypeCrc"
  obtains ps w' where "Writer_AddRecord append flush x w = Some (Status_OK, w')" "fragments_of True x ps"
    "phys_ok (w_block_offset w) ps" "contents (w_dest w') = contents (w_dest w) @ log_bytes (w_block_offset w) ps"
    "w_block_offset w' = log_end (w_block_offset w) ps" "w_type_crc w' = InitTypeCrc"
  using AddRecord_loop_ok [OF assms, of True x] unfolding Writer_AddRecord_def by blast

lemma add_records_ok:
  "w_block_offset w \<le> log_kBlockSize \<Longrightarrow> w_type_crc w = InitTypeCrc \<Longrightarrow>
   \<exists>pss w'. add_records append flush rs w = Some w' \<and> list_all2 (fragments_of True) rs pss \<and>
     phys_ok (w_block_offset w) (concat pss) \<and>
     contents (w_dest w') = contents (w_dest w) @ log_bytes (w_block_offset w) (concat pss) \<and>
     w_block_offset w' = log_end (w_block_offset w) (concat pss) \<and> w_type_crc w' = InitTypeCrc"
proof (induction rs arbitrary: w)
  case (Cons x xs)
  obtain ps w1 where w1: "Writer_AddRecord append flush x w = Some (Status_OK, w1)" "fragments_of True x ps"
    "phys_ok (w_block_offset w) ps" "contents (w_dest w1) = contents (w_dest w) @ log_bytes (w_block_offset w) ps"
    "w_block_offset w1 = log_end (w_block_offset w) ps" "w_type_crc w1 = InitTypeCrc"
    by (rule Writer_AddRecord_ok [OF Cons.prems])
  from Cons.IH [of w1] w1 log_end_bound [OF w1(3)] obtain pss w2 where
    "add_records append flush xs w1 = Some w2" "list_all2 (fragments_of True) xs pss"
    "phys_ok (w_block_offset w1) (concat pss)"
    "contents (w_dest w2) = contents (w_dest w1) @ log_bytes (w_block_offset w1) (concat pss)"
    "w_block_offset w2 = log_end (w_block_offset w1) (concat pss)" "w_type_crc w2 = InitTypeCrc" by metis
  moreover have "log_end off (ps @ qs) = log_end (log_end off ps) qs" for off qs
    by (induction off ps rule: log_end.induct) simp_all
  ultimately show ?case
    using w1 by (intro exI [of _ "ps # pss"] exI [of _ w2]) (simp add: log_bytes_append phys_ok_append status_simps)
qed simp

end

lemma read_records_cut:
  assumes "list_all2 (fragments_of True) rs pss" "fragments_of True x ps" "reader_at F p r"
    "phys_ok (p mod log_kBlockSize) (concat pss @ ps)"
    "drop p F = take m (log_bytes (p mod log_kBlockSize) (concat pss @ ps))"
    "length (log_bytes (p mod log_kBlockSize) (concat pss)) \<le> m"
    "m < length (log_bytes (p mod log_kBlockSize) (concat pss @ ps))"
  shows "\<exists>r'. read_records (length rs + 1) r = (map Some rs @ [None], r') \<and> r_reports r' = []"
  using assms
proof (induction rs arbitrary: pss p r m)
  case Nil
  have "Reader_ReadRecord r = ReadRecord_loop [] [] False 0 r"
    using Nil.prems(3) by (simp add: Reader_ReadRecord_def reader_at_def)
  then show ?case
    using read_fragments [of True x ps F p r "[]" m "[]" "[]" 0] Nil.prems by auto
next
  case (Cons y ys)
  obtain qs qss where pss: "pss = qs # qss" "fragments_of True y qs" "list_all2 (fragments_of True) ys qss"
    using Cons.prems(1) by (auto simp: list_all2_Cons1)
  let ?o = "p mod log_kBlockSize"
  let ?s = "length (log_bytes ?o qs)"
  have len: "?s \<le> m" using Cons.prems(6) by (simp add: pss log_bytes_append)
  have "Reader_ReadRecord r = ReadRecord_loop [] [] False 0 r"
    using Cons.prems(3) by (simp add: Reader_ReadRecord_def reader_at_def)
  then obtain r1 where r1: "Reader_ReadRecord r = (Some y, r1)" "reader_at F (p + ?s) r1"
      "phys_ok ((p + ?s) mod log_kBlockSize) (concat qss @ ps)"
      "drop (p + ?s) F = take (m - ?s) (log_bytes ((p + ?s) mod log_kBlockSize) (concat qss @ ps))"
    using read_fragments [of True y qs F p r "concat qss @ ps" m "[]" "[]" 0] Cons.prems pss len by auto
  have "log_bytes ?o (qs @ zs) = log_bytes ?o qs @ log_bytes ((p + ?s) mod log_kBlockSize) zs" for zs
    using log_bytes_append_at [of p qs zs] Cons.prems(4) by (simp add: pss phys_ok_append)
  then have "length (log_bytes ((p + ?s) mod log_kBlockSize) (concat qss)) \<le> m - ?s"
    "m - ?s < length (log_bytes ((p + ?s) mod log_kBlockSize) (concat qss @ ps))"
    using Cons.prems(6,7) len by (simp_all add: pss)
  from Cons.IH [OF pss(3) Cons.prems(2) r1(2,3,4) this] r1(1) show ?case by auto
qed

subsection \<open>Progress of a reader\<close>

lemma ReadRecord_loop_unread:
  "ReadRecord_loop fragment scratch i prospective r = (Some x, r') \<Longrightarrow> unread r' + kHeaderSize \<le> unread r"
proof (induction "unread r" arbitrary: fragment scratch i prospective r rule: less_induct)
  case less
  obtain t frag r1 where phys: "ReadPhysicalRecord fragment r = (t, frag, r1)" by (cases "ReadPhysicalRecord fragment r")
  show ?case
  proof (cases "t = kEof")
    case True
    then show ?thesis
      using less.prems phys by (subst (asm) ReadRecord_loop.simps) (simp add: Let_def kEof_def kMaxRecordType_def)
  next
    case False
    then have r1: "unread r1 + kHeaderSize \<le> unread r" using ReadPhysicalRecord_unread [OF phys] by simp
    have rec: "unread r' + kHeaderSize \<le> unread r"
      if "ReadRecord_loop f s j p r2 = (Some x, r')" "unread r2 = unread r1" for f s j p r2
      using less.hyps [OF _ that(1)] that(2) r1 by (simp add: kHeaderSize_def)
    have unread_last: "unread (r \<lparr> r_last_record_offset := c \<rparr>) = unread r" for r c by (simp add: unread_def)
    show ?thesis
      using less.prems phys False r1
      by (subst (asm) ReadRecord_loop.simps)
        (auto simp: Let_def unread_resyncing unread_last split: if_splits dest: rec)
  qed
qed

lemma Reader_ReadRecord_unread:
  assumes "Reader_ReadRecord r = (Some x, r')"
  shows "unread r' + kHeaderSize \<le> unread r"
proof (cases "r_last_record_offset r < r_initial_offset r")
  case True
  obtain ok r1 where skip: "SkipToInitialBlock r = (ok, r1)" by (cases "SkipToInitialBlock r")
  then have "unread r1 \<le> unread r"
    by (auto simp: SkipToInitialBlock_def MemSequentialFile_Skip_def Let_def unread_def ReportDrop_def split: if_splits prod.splits)
  then show ?thesis
    using assms True skip ReadRecord_loop_unread [of "[]" "[]" False 0 r1 x r']
    by (auto simp: Reader_ReadRecord_def split: if_splits)
next
  case False
  then show ?thesis using assms ReadRecord_loop_unread by (auto simp: Reader_ReadRecord_def)
qed

lemma read_records_end: "unread r < n * kHeaderSize \<Longrightarrow> None \<in> set (fst (read_records n r))"
proof (induction n arbitrary: r)
  case (Suc n)
  obtain x r' where step: "Reader_ReadRecord r = (x, r')" by (cases "Reader_ReadRecord r")
  show ?case
  proof (cases x)
    case (Some y)
    then have "unread r' < n * kHeaderSize" using Reader_ReadRecord_unread [of r y r'] step Suc.prems by simp
    then show ?thesis using Suc.IH [of r'] step by (auto split: prod.splits)
  qed (simp add: step split: prod.splits)
qed simp

subsection \<open>Properties\<close>

text \<open>
  (C31) A log is read back as it was written, also after a crash. Records of any length are appended to an empty
  file, every append succeeds, and then the file is cut anywhere in the bytes of the last append, as when these were
  not all stored. A reader then returns every earlier record in order, then the end of the log, and it reports no
  corruption: a record that was appended in part is dropped silently. With the cut at the start of the last append
  this is the round trip for the complete log. The checks of the checksums may be on or off.
\<close>

theorem log_cut_recovery:
  assumes "mf_data f = []" and "add_records (MemWritableFile_Append now) MemWritableFile_Flush rs (Writer_new f 0) = Some w"
    and "Writer_AddRecord (MemWritableFile_Append now) MemWritableFile_Flush x w = Some (s, w')"
    and "length (mf_data (w_dest w)) \<le> n" "n < length (mf_data (w_dest w'))"
  shows "Status_ok s \<and>
    (\<exists>r. read_records (length rs + 1) (Reader_new (cut_file n (w_dest w')) reporter checksum 0) =
       (map Some rs @ [None], r) \<and> r_reports r = [])"
proof -
  have start: "w_block_offset (Writer_new f 0) = 0" "w_type_crc (Writer_new f 0) = InitTypeCrc" "w_dest (Writer_new f 0) = f"
    by (simp_all add: Writer_new_def)
  obtain pss where pss: "list_all2 (fragments_of True) rs pss" "phys_ok 0 (concat pss)"
      "mf_data (w_dest w) = log_bytes 0 (concat pss)" "w_block_offset w = log_end 0 (concat pss)" "w_type_crc w = InitTypeCrc"
    using mem_writable.add_records_ok [of "Writer_new f 0" now rs] assms(1,2) start by auto
  obtain ps where ps: "s = Status_OK" "fragments_of True x ps" "phys_ok (w_block_offset w) ps"
      "mf_data (w_dest w') = mf_data (w_dest w) @ log_bytes (w_block_offset w) ps"
    using mem_writable.Writer_AddRecord_ok [of w now x] pss(2,4,5) log_end_bound assms(3)
    by (metis option.inject prod.inject)
  have w': "mf_data (w_dest w') = log_bytes 0 (concat pss @ ps)" "phys_ok 0 (concat pss @ ps)"
    using pss ps by (simp_all add: log_bytes_append phys_ok_append)
  let ?f = "cut_file n (w_dest w')"
  let ?r = "Reader_new ?f reporter checksum 0"
  have "reader_at (mf_data ?f) 0 ?r" by (simp add: reader_at_def Reader_new_def cut_file_def)
  from read_records_cut [OF pss(1) ps(2) this, of n] w' pss(3) assms(4,5)
  have "\<exists>r. read_records (length rs + 1) ?r = (map Some rs @ [None], r) \<and> r_reports r = []"
    by (simp add: cut_file_def)
  then show ?thesis using ps(1) by (simp add: status_simps)
qed

theorem log_cut_recovery_witness:
  "\<exists>w w' n r. add_records (MemWritableFile_Append 0) MemWritableFile_Flush [[1], replicate 40000 2] (Writer_new (MemFile_new 0 False) 0) = Some w \<and>
     Writer_AddRecord (MemWritableFile_Append 0) MemWritableFile_Flush [3] w = Some (Status_OK, w') \<and>
     length (mf_data (w_dest w)) < n \<and> n < length (mf_data (w_dest w')) \<and>
     read_records 3 (Reader_new (cut_file n (w_dest w')) True True 0) = ([Some [1], Some (replicate 40000 2), None], r) \<and>
     r_reports r = []"
proof -
  let ?f = "MemFile_new 0 False" and ?rs = "[[1], replicate 40000 2]"
  obtain pss w where w: "add_records (MemWritableFile_Append 0) MemWritableFile_Flush ?rs (Writer_new ?f 0) = Some w"
      "phys_ok 0 (concat pss)" "w_block_offset w = log_end 0 (concat pss)" "w_type_crc w = InitTypeCrc"
    using mem_writable.add_records_ok [of "Writer_new ?f 0" 0 ?rs] by (auto simp: Writer_new_def)
  obtain ps w' where w': "Writer_AddRecord (MemWritableFile_Append 0) MemWritableFile_Flush [3] w = Some (Status_OK, w')"
      "fragments_of True [3] ps" "mf_data (w_dest w') = mf_data (w_dest w) @ log_bytes (w_block_offset w) ps"
    using mem_writable.Writer_AddRecord_ok [of w 0 "[3]"] w log_end_bound by metis
  let ?n = "length (mf_data (w_dest w)) + 1"
  have "?n < length (mf_data (w_dest w'))" using w'(2,3) by (cases ps) (auto simp: length_phys_bytes kHeaderSize_def)
  moreover from log_cut_recovery [OF _ w(1) w'(1) _ this, of True True] obtain r where
    "read_records 3 (Reader_new (cut_file ?n (w_dest w')) True True 0) = ([Some [1], Some (replicate 40000 2), None], r)"
    "r_reports r = []" by (auto simp: MemFile_new_def numeral_3_eq_3 simp del: read_records.simps)
  ultimately show ?thesis using w(1) w'(1)
    by (intro exI [of _ w] exI [of _ w'] exI [of _ ?n] exI [of _ r]) (simp del: add_records.simps read_records.simps)
qed

text \<open>
  (C33) Reading ends whatever the file holds: a caller that reads records until there is none stops after at most one
  call per seven bytes of the file and one more. The contents may be corrupt in any way, and the initial offset may be
  any, also beyond the end of the file.
\<close>

theorem log_reading_terminates:
  "None \<in> set (fst (read_records (mf_size f div kHeaderSize + 1) (Reader_new f reporter checksum initial_offset)))"
proof (rule read_records_end)
  have "unread (Reader_new f reporter checksum initial_offset) = mf_size f" by (simp add: unread_def Reader_new_def)
  then show "unread (Reader_new f reporter checksum initial_offset) < (mf_size f div kHeaderSize + 1) * kHeaderSize"
    using div_mult_mod_eq [of "mf_size f" 7] mod_less_divisor [of 7 "mf_size f"] by (simp add: kHeaderSize_def)
qed

end
