(* ===== verification/SkipLists.thy ===== *)
theory SkipLists
  imports Util Comparator "HOL-Library.Sublist"
begin

text \<open>
  The skip list of \<^verbatim>\<open>db/skiplist.h\<close>, the ordered index of a memtable. Nodes live in an explicit store: a pointer is the
  position of a node in \<open>sl_nodes\<close>, the head is position 0, and \<open>None\<close> is the null pointer. Memory comes from an
  arena and is never freed (\<open>arena_regions\<close>), so a new node is a new position. An operation is \<open>None\<close> when an
  assertion fails, when it follows a link that the node does not have, or when its loop does not end.

  An insertion is made of its stores, in the order of the code, because readers run at the same time without a
  lock. \<open>sl_step\<close> interleaves the stores of a writer with the loads of a reader; release stores and acquire loads
  make a node's fields visible before the pointers to it, so the interleaving is over one memory.
\<close>

subsection \<open>The list\<close>

definition kMaxHeight :: nat where
  "kMaxHeight = 12"

record 'k Node =
  node_key :: 'k
  node_next :: "nat option list"

record 'k SkipList =
  sl_nodes :: "'k Node list"
  sl_max_height :: nat
  sl_nputs :: "int list"
  sl_rnd :: u32

definition Node_Next :: "nat \<Rightarrow> nat \<Rightarrow> 'k SkipList \<Rightarrow> nat option option" where
  "Node_Next x n sl =
     (if x < length (sl_nodes sl) \<and> n < length (node_next (sl_nodes sl ! x))
      then Some (node_next (sl_nodes sl ! x) ! n) else None)"

definition Node_SetNext :: "nat \<Rightarrow> nat \<Rightarrow> nat option \<Rightarrow> 'k SkipList \<Rightarrow> 'k SkipList option" where
  "Node_SetNext x n y sl =
     (if x < length (sl_nodes sl) \<and> n < length (node_next (sl_nodes sl ! x))
      then let nd = sl_nodes sl ! x
        in Some (sl \<lparr> sl_nodes := (sl_nodes sl)[x := nd \<lparr> node_next := (node_next nd)[n := y] \<rparr>] \<rparr>)
      else None)"

definition sl_key :: "'k SkipList \<Rightarrow> nat \<Rightarrow> 'k" where
  "sl_key sl x = node_key (sl_nodes sl ! x)"

text \<open>The links of new memory are not initialised; a list that reads them before they are set reads null here.\<close>

definition NewNode :: "'k \<Rightarrow> nat \<Rightarrow> 'k SkipList \<Rightarrow> nat \<times> 'k SkipList" where
  "NewNode key height sl =
     (length (sl_nodes sl), sl \<lparr> sl_nodes := sl_nodes sl @ [\<lparr> node_key = key, node_next = replicate height None \<rparr>] \<rparr>)"

definition SkipList_new :: "'k \<Rightarrow> 'k SkipList" where
  "SkipList_new any_key =
     \<lparr> sl_nodes = [\<lparr> node_key = any_key, node_next = replicate kMaxHeight None \<rparr>], sl_max_height = 1,
       sl_nputs = replicate kMaxHeight 0, sl_rnd = Random_new 0xdeadbeef \<rparr>"

function RandomHeight_loop :: "nat \<Rightarrow> u32 \<Rightarrow> nat \<times> u32" where
  "RandomHeight_loop height seed =
     (if height < kMaxHeight then
        let seed = Random_Next seed in if seed mod 4 = 0 then RandomHeight_loop (height + 1) seed else (height, seed)
      else (height, seed))"
  by pat_completeness auto
termination by (relation "measure (\<lambda>(height, seed). kMaxHeight - height)") auto

declare RandomHeight_loop.simps [simp del]

definition RandomHeight :: "'k SkipList \<Rightarrow> nat \<times> 'k SkipList" where
  "RandomHeight sl = (let (height, seed) = RandomHeight_loop 1 (sl_rnd sl) in (height, sl \<lparr> sl_rnd := seed \<rparr>))"

subsection \<open>Searching\<close>

definition KeyIsAfterNode :: "('k \<Rightarrow> 'k \<Rightarrow> int) \<Rightarrow> 'k \<Rightarrow> nat option \<Rightarrow> 'k SkipList \<Rightarrow> bool" where
  "KeyIsAfterNode compare key n sl = (case n of None \<Rightarrow> False | Some y \<Rightarrow> compare (sl_key sl y) key < 0)"

text \<open>The array \<open>prev\<close> is \<open>None\<close> where the code passes a null pointer; its entries are \<open>None\<close> until they are set.\<close>

partial_function (option) FindGreaterOrEqual_loop ::
    "('k \<Rightarrow> 'k \<Rightarrow> int) \<Rightarrow> 'k \<Rightarrow> 'k SkipList \<Rightarrow> nat option list option \<Rightarrow> nat \<Rightarrow> nat \<Rightarrow>
     (nat option \<times> nat option list option) option" where
  "FindGreaterOrEqual_loop compare key sl prev level x =
     (case Node_Next x level sl of
        None \<Rightarrow> None
      | Some next \<Rightarrow>
          if KeyIsAfterNode compare key next sl then FindGreaterOrEqual_loop compare key sl prev level (the next)
          else if level = 0 then Some (next, map_option (\<lambda>p. p[level := Some x]) prev)
          else FindGreaterOrEqual_loop compare key sl (map_option (\<lambda>p. p[level := Some x]) prev) (level - 1) x)"

definition FindGreaterOrEqual ::
    "('k \<Rightarrow> 'k \<Rightarrow> int) \<Rightarrow> 'k \<Rightarrow> nat option list option \<Rightarrow> 'k SkipList \<Rightarrow> (nat option \<times> nat option list option) option" where
  "FindGreaterOrEqual compare key prev sl = FindGreaterOrEqual_loop compare key sl prev (sl_max_height sl - 1) 0"

partial_function (option) FindLessThan_loop ::
    "('k \<Rightarrow> 'k \<Rightarrow> int) \<Rightarrow> 'k \<Rightarrow> 'k SkipList \<Rightarrow> nat \<Rightarrow> nat \<Rightarrow> nat option" where
  "FindLessThan_loop compare key sl level x =
     (if x \<noteq> 0 \<and> \<not> compare (sl_key sl x) key < 0 then None
      else case Node_Next x level sl of
        None \<Rightarrow> None
      | Some next \<Rightarrow>
          if next = None \<or> compare (sl_key sl (the next)) key \<ge> 0 then
            if level = 0 then Some x else FindLessThan_loop compare key sl (level - 1) x
          else FindLessThan_loop compare key sl level (the next))"

definition FindLessThan :: "('k \<Rightarrow> 'k \<Rightarrow> int) \<Rightarrow> 'k \<Rightarrow> 'k SkipList \<Rightarrow> nat option" where
  "FindLessThan compare key sl = FindLessThan_loop compare key sl (sl_max_height sl - 1) 0"

partial_function (option) FindLast_loop :: "'k SkipList \<Rightarrow> nat \<Rightarrow> nat \<Rightarrow> nat option" where
  "FindLast_loop sl level x =
     (case Node_Next x level sl of
        None \<Rightarrow> None
      | Some next \<Rightarrow>
          if next = None then if level = 0 then Some x else FindLast_loop sl (level - 1) x
          else FindLast_loop sl level (the next))"

definition FindLast :: "'k SkipList \<Rightarrow> nat option" where
  "FindLast sl = FindLast_loop sl (sl_max_height sl - 1) 0"

definition Contains :: "('k \<Rightarrow> 'k \<Rightarrow> int) \<Rightarrow> 'k \<Rightarrow> 'k SkipList \<Rightarrow> bool option" where
  "Contains compare key sl = (case FindGreaterOrEqual compare key None sl of
     None \<Rightarrow> None
   | Some (x, _) \<Rightarrow> Some (x \<noteq> None \<and> compare key (sl_key sl (the x)) = 0))"

subsection \<open>Insertion\<close>

text \<open>The part before the first store: the predecessors, and the assertion that the key is not in the list.\<close>

definition Insert_locate :: "('k \<Rightarrow> 'k \<Rightarrow> int) \<Rightarrow> 'k \<Rightarrow> 'k SkipList \<Rightarrow> nat option list option" where
  "Insert_locate compare key sl = (case FindGreaterOrEqual compare key (Some (replicate kMaxHeight None)) sl of
     None \<Rightarrow> None
   | Some (x, prev) \<Rightarrow> if x = None \<or> compare key (sl_key sl (the x)) \<noteq> 0 then prev else None)"

definition Insert_raise :: "nat \<Rightarrow> nat option list \<Rightarrow> 'k SkipList \<Rightarrow> nat option list \<times> 'k SkipList" where
  "Insert_raise height prev sl =
     (if height > sl_max_height sl
      then (foldl (\<lambda>p i. p[i := Some 0]) prev [sl_max_height sl..<height], sl \<lparr> sl_max_height := height \<rparr>)
      else (prev, sl))"

text \<open>The three stores for one level.\<close>

definition Insert_link :: "nat \<Rightarrow> nat option list \<Rightarrow> nat \<Rightarrow> 'k SkipList \<Rightarrow> 'k SkipList option" where
  "Insert_link x prev i sl = (case prev ! i of
     None \<Rightarrow> None
   | Some p \<Rightarrow> (case Node_Next p i sl of None \<Rightarrow> None | Some next \<Rightarrow> Node_SetNext x i next sl))"

definition Insert_publish :: "nat \<Rightarrow> nat option list \<Rightarrow> nat \<Rightarrow> 'k SkipList \<Rightarrow> 'k SkipList option" where
  "Insert_publish x prev i sl = (case prev ! i of None \<Rightarrow> None | Some p \<Rightarrow> Node_SetNext p i (Some x) sl)"

definition Insert_count :: "nat \<Rightarrow> 'k SkipList \<Rightarrow> 'k SkipList" where
  "Insert_count i sl = sl \<lparr> sl_nputs := (sl_nputs sl)[i := sl_nputs sl ! i + 1] \<rparr>"

primrec Insert_levels :: "nat \<Rightarrow> nat option list \<Rightarrow> nat list \<Rightarrow> 'k SkipList \<Rightarrow> 'k SkipList option" where
  "Insert_levels x prev [] sl = Some sl"
| "Insert_levels x prev (i # is) sl = (case Insert_link x prev i sl of
     None \<Rightarrow> None
   | Some sl1 \<Rightarrow> (case Insert_publish x prev i sl1 of
       None \<Rightarrow> None
     | Some sl2 \<Rightarrow> Insert_levels x prev is (Insert_count i sl2)))"

definition SkipList_Insert :: "('k \<Rightarrow> 'k \<Rightarrow> int) \<Rightarrow> 'k \<Rightarrow> 'k SkipList \<Rightarrow> 'k SkipList option" where
  "SkipList_Insert compare key sl = (case Insert_locate compare key sl of
     None \<Rightarrow> None
   | Some prev \<Rightarrow>
       let (height, sl) = RandomHeight sl;
           (prev, sl) = Insert_raise height prev sl;
           (x, sl) = NewNode key height sl
       in Insert_levels x prev [0..<height] sl)"

text \<open>
  A writer as the sequence of its stores. \<open>sl_write\<close> does one of them; an insertion starts with its search, which only
  reads what writers change, and with the store to the height of the list. No reader can see the node it allocates.
\<close>

datatype insert_pc =
    Idle
  | Linking nat "nat option list" nat nat
  | Publishing nat "nat option list" nat nat
  | Counting nat "nat option list" nat nat

inductive sl_write ::
    "('k \<Rightarrow> 'k \<Rightarrow> int) \<Rightarrow> ('k \<Rightarrow> bool) \<Rightarrow> 'k SkipList \<times> insert_pc \<Rightarrow> 'k SkipList \<times> insert_pc \<Rightarrow> bool"
  for compare valid where
  begin_insert: "valid key \<Longrightarrow> Insert_locate compare key sl = Some prev \<Longrightarrow> RandomHeight sl = (height, sl1) \<Longrightarrow>
    Insert_raise height prev sl1 = (prev', sl2) \<Longrightarrow> NewNode key height sl2 = (x, sl3) \<Longrightarrow>
    sl_write compare valid (sl, Idle) (sl3, Linking x prev' height 0)"
| link: "Insert_link x prev i sl = Some sl' \<Longrightarrow>
    sl_write compare valid (sl, Linking x prev height i) (sl', Publishing x prev height i)"
| publish: "Insert_publish x prev i sl = Some sl' \<Longrightarrow>
    sl_write compare valid (sl, Publishing x prev height i) (sl', Counting x prev height i)"
| count: "sl_write compare valid (sl, Counting x prev height i)
    (Insert_count i sl, if Suc i < height then Linking x prev height (Suc i) else Idle)"

text \<open>
  A reader as the sequence of its loads: each load decides the next position, or the result. \<open>sl_search\<close> is a search
  that started in one state and runs between the stores of a writer.
\<close>

datatype search_pc = Searching nat nat | Found "nat option"

definition search_step :: "('k \<Rightarrow> 'k \<Rightarrow> int) \<Rightarrow> 'k \<Rightarrow> 'k SkipList \<Rightarrow> nat \<Rightarrow> nat \<Rightarrow> search_pc option" where
  "search_step compare key sl level x = (case Node_Next x level sl of
     None \<Rightarrow> None
   | Some next \<Rightarrow> Some (if KeyIsAfterNode compare key next sl then Searching level (the next)
       else if level = 0 then Found next else Searching (level - 1) x))"

inductive sl_search ::
    "('k \<Rightarrow> 'k \<Rightarrow> int) \<Rightarrow> ('k \<Rightarrow> bool) \<Rightarrow> 'k \<Rightarrow> 'k SkipList \<times> insert_pc \<Rightarrow> 'k SkipList \<times> insert_pc \<Rightarrow> search_pc \<Rightarrow> bool"
  for compare valid key st where
  start: "sl_search compare valid key st st (Searching (sl_max_height (fst st) - 1) 0)"
| store: "sl_search compare valid key st st' pc \<Longrightarrow> sl_write compare valid st' st'' \<Longrightarrow> sl_search compare valid key st st'' pc"
| load: "sl_search compare valid key st st' (Searching level x) \<Longrightarrow> search_step compare key (fst st') level x = Some pc \<Longrightarrow>
    sl_search compare valid key st st' pc"

subsection \<open>Iterators\<close>

record SkipListIterator =
  sit_node :: "nat option"
  sit_level :: nat
  sit_sampled_puts :: u32

text \<open>The highest level with more insertions than asked for, or level 0.\<close>

primrec iter_level :: "u32 \<Rightarrow> 'k SkipList \<Rightarrow> nat \<Rightarrow> nat" where
  "iter_level sampled_puts sl 0 = 0"
| "iter_level sampled_puts sl (Suc level) =
     (if (of_int (sl_nputs sl ! level) :: u32) > sampled_puts then level else iter_level sampled_puts sl level)"

definition SkipListIterator_new :: "u32 \<Rightarrow> 'k SkipList \<Rightarrow> SkipListIterator" where
  "SkipListIterator_new sampled_puts sl =
     \<lparr> sit_node = None, sit_level = (if sampled_puts > 0 then iter_level sampled_puts sl kMaxHeight else 0),
       sit_sampled_puts = sampled_puts \<rparr>"

definition SkipListIterator_Valid :: "SkipListIterator \<Rightarrow> bool" where
  "SkipListIterator_Valid it = (sit_node it \<noteq> None)"

definition SkipListIterator_key :: "'k SkipList \<Rightarrow> SkipListIterator \<Rightarrow> 'k option" where
  "SkipListIterator_key sl it = map_option (sl_key sl) (sit_node it)"

definition SkipListIterator_Next :: "'k SkipList \<Rightarrow> SkipListIterator \<Rightarrow> SkipListIterator option" where
  "SkipListIterator_Next sl it = (case sit_node it of
     None \<Rightarrow> None
   | Some x \<Rightarrow> map_option (\<lambda>next. it \<lparr> sit_node := next \<rparr>) (Node_Next x (sit_level it) sl))"

definition SkipListIterator_Prev ::
    "('k \<Rightarrow> 'k \<Rightarrow> int) \<Rightarrow> 'k SkipList \<Rightarrow> SkipListIterator \<Rightarrow> SkipListIterator option" where
  "SkipListIterator_Prev compare sl it = (case sit_node it of
     None \<Rightarrow> None
   | Some x \<Rightarrow> if sit_sampled_puts it \<noteq> 0 then None
       else map_option (\<lambda>y. it \<lparr> sit_node := if y = 0 then None else Some y \<rparr>) (FindLessThan compare (sl_key sl x) sl))"

definition SkipListIterator_Seek ::
    "('k \<Rightarrow> 'k \<Rightarrow> int) \<Rightarrow> 'k SkipList \<Rightarrow> 'k \<Rightarrow> SkipListIterator \<Rightarrow> SkipListIterator option" where
  "SkipListIterator_Seek compare sl target it =
     (if sit_sampled_puts it \<noteq> 0 then None
      else map_option (\<lambda>(x, _). it \<lparr> sit_node := x \<rparr>) (FindGreaterOrEqual compare target None sl))"

definition SkipListIterator_SeekToFirst :: "'k SkipList \<Rightarrow> SkipListIterator \<Rightarrow> SkipListIterator option" where
  "SkipListIterator_SeekToFirst sl it = map_option (\<lambda>next. it \<lparr> sit_node := next \<rparr>) (Node_Next 0 (sit_level it) sl)"

definition SkipListIterator_SeekToLast :: "'k SkipList \<Rightarrow> SkipListIterator \<Rightarrow> SkipListIterator option" where
  "SkipListIterator_SeekToLast sl it =
     (if sit_sampled_puts it \<noteq> 0 then None
      else map_option (\<lambda>y. it \<lparr> sit_node := if y = 0 then None else Some y \<rparr>) (FindLast sl))"

subsection \<open>Links of a level\<close>

text \<open>The nodes a level links, from a node on; \<open>path\<close> also asks that the last link is null.\<close>

fun walk :: "nat \<Rightarrow> nat \<Rightarrow> nat list \<Rightarrow> 'k SkipList \<Rightarrow> bool" where
  "walk i x [] sl = True"
| "walk i x (y # ys) sl \<longleftrightarrow> Node_Next x i sl = Some (Some y) \<and> walk i y ys sl"

definition path :: "nat \<Rightarrow> nat \<Rightarrow> nat list \<Rightarrow> 'k SkipList \<Rightarrow> bool" where
  "path i x ys sl \<longleftrightarrow> walk i x ys sl \<and> Node_Next (last (x # ys)) i sl = Some None"

lemma path_Nil: "path i x [] sl \<longleftrightarrow> Node_Next x i sl = Some None"
  by (simp add: path_def)

lemma path_Cons: "path i x (y # ys) sl \<longleftrightarrow> Node_Next x i sl = Some (Some y) \<and> path i y ys sl"
  by (auto simp: path_def)

lemma walk_append: "walk i x (ys @ zs) sl \<longleftrightarrow> walk i x ys sl \<and> walk i (last (x # ys)) zs sl"
  by (induction ys arbitrary: x) auto

lemma path_append: "path i x (ys @ zs) sl \<longleftrightarrow> walk i x ys sl \<and> path i (last (x # ys)) zs sl"
  by (induction ys arbitrary: x) (auto simp: path_Cons)

lemma walk_cong: "(\<And>y. y \<in> set (butlast (x # ys)) \<Longrightarrow> Node_Next y i sl = Node_Next y i sl') \<Longrightarrow> walk i x ys sl = walk i x ys sl'"
  by (induction ys arbitrary: x) auto

lemma path_cong: "(\<And>y. y \<in> set (x # ys) \<Longrightarrow> Node_Next y i sl = Node_Next y i sl') \<Longrightarrow> path i x ys sl = path i x ys sl'"
  unfolding path_def using walk_cong [of x ys i sl sl'] in_set_butlastD [of _ "x # ys"] last_in_set [of "x # ys"] by auto

lemma path_insert:
  assumes old: "path i x (A @ B) sl" and distinct: "distinct (x # A @ B)" and fresh: "n \<notin> set (x # A @ B)"
    and p: "p = last (x # A)" and new: "Node_Next p i sl' = Some (Some n)" "Node_Next n i sl' = Node_Next p i sl"
    and same: "\<And>y. y \<noteq> p \<Longrightarrow> y \<noteq> n \<Longrightarrow> Node_Next y i sl' = Node_Next y i sl"
  shows "path i x (A @ n # B) sl'"
proof -
  have "p \<notin> set (butlast (x # A))"
    using distinct p by (metis append.assoc append_butlast_last_id append_Cons distinct.simps(2) distinct_append
        disjoint_iff list.distinct(1) list.set_intros(1) not_distinct_conv_prefix)
  moreover have "n \<notin> set (butlast (x # A))" using fresh in_set_butlastD [of n "x # A"] by auto
  ultimately have "walk i x A sl'"
    using walk_cong [of x A i sl' sl] same old by (metis path_append)
  moreover have "path i n B sl'"
  proof (cases B)
    case Nil
    then show ?thesis using old new(2) p by (simp add: path_def split: if_splits)
  next
    case (Cons b B')
    have "p \<in> set (x # A)" unfolding p by (rule last_in_set) simp
    then have "p \<notin> set B" using distinct by auto
    then have "path i b B' sl' = path i b B' sl" by (intro path_cong same) (use fresh Cons in auto)
    then show ?thesis using old new(2) p Cons by (simp add: path_append path_Cons)
  qed
  ultimately show ?thesis using new(1) p by (simp add: path_append path_Cons)
qed

lemma Node_SetNext_Some:
  assumes "Node_Next x n sl \<noteq> None"
  obtains sl' where "Node_SetNext x n y sl = Some sl'" "\<And>z m. Node_Next z m sl' = (if z = x \<and> m = n then Some y else Node_Next z m sl)"
    "\<And>z. sl_key sl' z = sl_key sl z" "length (sl_nodes sl') = length (sl_nodes sl)" "sl_max_height sl' = sl_max_height sl"
    "sl_nputs sl' = sl_nputs sl" "sl_rnd sl' = sl_rnd sl"
proof
  let ?nd = "sl_nodes sl ! x"
  let ?sl = "sl \<lparr> sl_nodes := (sl_nodes sl)[x := ?nd \<lparr> node_next := (node_next ?nd)[n := y] \<rparr>] \<rparr>"
  have ok: "x < length (sl_nodes sl)" "n < length (node_next ?nd)" using assms by (auto simp: Node_Next_def split: if_splits)
  then show "Node_SetNext x n y sl = Some ?sl" by (simp add: Node_SetNext_def Let_def)
  show "Node_Next z m ?sl = (if z = x \<and> m = n then Some y else Node_Next z m sl)" for z m
    using ok by (auto simp: Node_Next_def nth_list_update)
  show "sl_key ?sl z = sl_key sl z" for z using ok by (cases "z = x") (simp_all add: sl_key_def)
qed simp_all

subsection \<open>The invariant\<close>

text \<open>
  A list with the nodes of each level: every level is a path from the head to null in strictly increasing order, a
  level links only nodes of the level below, and the levels from the height of the list on are empty. The invariant
  holds between any two stores of an insertion, so it says nothing about links that no reader can follow yet.
\<close>

definition level_ok :: "(bytes \<Rightarrow> bytes \<Rightarrow> int) \<Rightarrow> (bytes \<Rightarrow> bool) \<Rightarrow> bytes SkipList \<Rightarrow> nat \<Rightarrow> nat list \<Rightarrow> bool" where
  "level_ok cmp valid sl i ys \<longleftrightarrow> path i 0 ys sl \<and> sorted_wrt (\<lambda>x y. cmp (sl_key sl x) (sl_key sl y) < 0) ys \<and>
     (\<forall>y\<in>set ys. 0 < y \<and> y < length (sl_nodes sl) \<and> valid (sl_key sl y))"

definition sl_inv :: "(bytes \<Rightarrow> bytes \<Rightarrow> int) \<Rightarrow> (bytes \<Rightarrow> bool) \<Rightarrow> bytes SkipList \<Rightarrow> (nat \<Rightarrow> nat list) \<Rightarrow> bool" where
  "sl_inv cmp valid sl Ls \<longleftrightarrow> (\<forall>i < kMaxHeight. level_ok cmp valid sl i (Ls i)) \<and>
     (\<forall>i. set (Ls (Suc i)) \<subseteq> set (Ls i)) \<and> (\<forall>i \<ge> sl_max_height sl. Ls i = []) \<and>
     0 < sl_max_height sl \<and> sl_max_height sl \<le> kMaxHeight \<and> sl_nodes sl \<noteq> []"

text \<open>The nodes of a level below a key, the last of them or the head, and the first node that is not below.\<close>

definition below :: "(bytes \<Rightarrow> bytes \<Rightarrow> int) \<Rightarrow> bytes \<Rightarrow> bytes SkipList \<Rightarrow> nat \<Rightarrow> bool" where
  "below cmp key sl y \<longleftrightarrow> cmp (sl_key sl y) key < 0"

definition pred_of :: "(bytes \<Rightarrow> bytes \<Rightarrow> int) \<Rightarrow> bytes \<Rightarrow> bytes SkipList \<Rightarrow> nat list \<Rightarrow> nat" where
  "pred_of cmp key sl ys = last (0 # takeWhile (below cmp key sl) ys)"

definition first_from :: "(bytes \<Rightarrow> bytes \<Rightarrow> int) \<Rightarrow> bytes \<Rightarrow> bytes SkipList \<Rightarrow> nat list \<Rightarrow> nat option" where
  "first_from cmp key sl ys = find (\<lambda>y. \<not> below cmp key sl y) ys"

lemma set_takeWhile_dropWhile: "set ys = set (takeWhile P ys) \<union> set (dropWhile P ys)"
  by (metis set_append takeWhile_dropWhile_id)

lemma sorted_wrt_distinct: "sorted_wrt R xs \<Longrightarrow> \<forall>x\<in>set xs. \<not> R x x \<Longrightarrow> distinct xs"
  by (induction xs) auto

lemma subseq_of_subset:
  assumes "sorted_wrt R ys" "sorted_wrt R xs" "set xs \<subseteq> set ys" "\<And>a b. a \<in> set ys \<Longrightarrow> b \<in> set ys \<Longrightarrow> R a b \<Longrightarrow> \<not> R b a"
  shows "subseq xs ys"
  using assms
proof (induction ys arbitrary: xs)
  case (Cons y ys)
  have IH: "subseq zs ys" if "sorted_wrt R zs" "set zs \<subseteq> set ys" for zs
    using Cons.prems(1) that by (intro Cons.IH Cons.prems(4)) simp_all
  show ?case
  proof (cases xs)
    case xs: (Cons x xs')
    show ?thesis
    proof (cases "x = y")
      case True
      then have "y \<notin> set xs'" using Cons.prems(2) Cons.prems(4) [of y y] xs by auto
      then have "set xs' \<subseteq> set ys" using Cons.prems(3) xs by auto
      then have "subseq xs' ys" using IH Cons.prems(2) xs by simp
      then show ?thesis using xs True by simp
    next
      case False
      then have "R y x" "x \<in> set ys" using Cons.prems(1,3) xs by auto
      then have "y \<notin> set xs'" using Cons.prems(2) Cons.prems(4) [of y x] xs by auto
      then have "set xs \<subseteq> set ys" using Cons.prems(3) xs False by auto
      then have "subseq xs ys" using IH Cons.prems(2) by simp
      then show ?thesis by blast
    qed
  qed simp
qed simp

lemma find_dropWhile: "find (\<lambda>y. \<not> P y) ys = (case dropWhile P ys of [] \<Rightarrow> None | y # _ \<Rightarrow> Some y)"
  by (induction ys) auto

lemma KeyIsAfterNode_simps [simp]:
  "KeyIsAfterNode cmp key None sl = False" "KeyIsAfterNode cmp key (Some y) sl = below cmp key sl y"
  by (simp_all add: KeyIsAfterNode_def below_def)

lemma split_level:
  assumes "\<forall>y\<in>set A. below cmp key sl y" "B = [] \<or> \<not> below cmp key sl (hd B)"
  shows "pred_of cmp key sl (A @ B) = last (0 # A)" "first_from cmp key sl (A @ B) = (case B of [] \<Rightarrow> None | y # _ \<Rightarrow> Some y)"
proof -
  have "takeWhile (below cmp key sl) (A @ B) = A" "dropWhile (below cmp key sl) (A @ B) = B"
    using assms by (cases B; simp add: takeWhile_append2 dropWhile_append2)+
  then show "pred_of cmp key sl (A @ B) = last (0 # A)"
    "first_from cmp key sl (A @ B) = (case B of [] \<Rightarrow> None | y # _ \<Rightarrow> Some y)"
    by (simp_all only: pred_of_def first_from_def find_dropWhile)
qed

context comparator
begin

lemma sl_inv_level: "sl_inv cmp valid sl Ls \<Longrightarrow> i < kMaxHeight \<Longrightarrow> level_ok cmp valid sl i (Ls i)"
  by (simp add: sl_inv_def)

lemma sl_inv_subset: "sl_inv cmp valid sl Ls \<Longrightarrow> i \<le> j \<Longrightarrow> set (Ls j) \<subseteq> set (Ls i)"
proof (induction j)
  case (Suc j)
  then show ?case by (cases "i = Suc j") (auto simp: sl_inv_def)
qed simp

lemma level_below_prefix:
  assumes "level_ok cmp valid sl i (A @ B)" "valid key" "A \<noteq> []" "below cmp key sl (last A)"
  shows "\<forall>y\<in>set A. below cmp key sl y"
proof
  fix y assume y: "y \<in> set A"
  have A: "A = butlast A @ [last A]" using assms(3) by simp
  show "below cmp key sl y"
  proof (cases "y = last A")
    case False
    then have "y \<in> set (butlast A)" using y A by (metis Un_iff empty_iff insert_iff list.set(1,2) set_append)
    moreover have "sorted_wrt (\<lambda>x y. cmp (sl_key sl x) (sl_key sl y) < 0) (butlast A @ [last A])"
      using assms(1) A by (simp add: level_ok_def sorted_wrt_append)
    ultimately have "cmp (sl_key sl y) (sl_key sl (last A)) < 0" by (simp add: sorted_wrt_append)
    moreover have "valid (sl_key sl y)" "valid (sl_key sl (last A))"
      using assms(1) y assms(3) by (auto simp: level_ok_def)
    ultimately show ?thesis
      using assms(2,4) cmp_less_trans [of "sl_key sl y" "sl_key sl (last A)" key] by (simp add: below_def)
  qed (use assms(4) in simp)
qed

text \<open>A position of a search: a node of the level, or the head, that is below the key. It splits the level.\<close>

definition search_pos :: "bytes SkipList \<Rightarrow> bytes \<Rightarrow> nat list \<Rightarrow> nat \<Rightarrow> bool" where
  "search_pos sl key ys x \<longleftrightarrow> x = 0 \<or> x \<in> set ys \<and> below cmp key sl x"

lemma search_pos_split:
  assumes "level_ok cmp valid sl i ys" "valid key" "search_pos sl key ys x"
  obtains A B where "ys = A @ B" "x = last (0 # A)" "\<forall>y\<in>set A. below cmp key sl y"
proof (cases "x = 0")
  case True
  then show ?thesis using that [of "[]" ys] by simp
next
  case False
  then obtain A B where "ys = (A @ [x]) @ B" "below cmp key sl x"
    using assms(3) by (auto simp: search_pos_def dest: split_list)
  then show ?thesis using that [of "A @ [x]" B] level_below_prefix [of sl i "A @ [x]" B key] assms(1,2) by auto
qed

text \<open>One load of a search: the next node of the level stays in the level, or the position is the predecessor.\<close>

lemma search_load:
  assumes ok: "level_ok cmp valid sl i ys" and key: "valid key" and pos: "search_pos sl key ys x"
  obtains nx where "Node_Next x i sl = Some nx"
    "KeyIsAfterNode cmp key nx sl \<Longrightarrow> nx \<noteq> None \<and> search_pos sl key ys (the nx)"
    "\<not> KeyIsAfterNode cmp key nx sl \<Longrightarrow> x = pred_of cmp key sl ys \<and> nx = first_from cmp key sl ys"
proof -
  obtain A B where AB: "ys = A @ B" "x = last (0 # A)" "\<forall>y\<in>set A. below cmp key sl y"
    using search_pos_split [OF assms] .
  have path: "path i x B sl" using ok AB(1,2) by (simp add: level_ok_def path_append)
  show ?thesis
  proof (cases B)
    case Nil
    have "Node_Next x i sl = Some None" using path Nil by (simp add: path_Nil)
    moreover have "x = pred_of cmp key sl ys \<and> None = first_from cmp key sl ys"
      using split_level [of A cmp key sl "[]"] AB Nil by simp
    ultimately show ?thesis by (intro that [of None]) simp_all
  next
    case (Cons b B')
    have "Node_Next x i sl = Some (Some b)" using path Cons by (simp add: path_Cons)
    moreover have "\<not> below cmp key sl b \<Longrightarrow> x = pred_of cmp key sl ys \<and> Some b = first_from cmp key sl ys"
      using split_level [of A cmp key sl "b # B'"] AB Cons by simp
    moreover have "below cmp key sl b \<Longrightarrow> search_pos sl key ys b" using AB(1) Cons by (simp add: search_pos_def)
    ultimately show ?thesis by (intro that [of "Some b"]) simp_all
  qed
qed

text \<open>Going down a level keeps the position.\<close>

lemma search_down:
  assumes "sl_inv cmp valid sl Ls" "search_pos sl key (Ls (Suc i)) x"
  shows "search_pos sl key (Ls i) x"
  using assms sl_inv_subset [of sl Ls i "Suc i"] by (auto simp: search_pos_def)

text \<open>On one level the search ends at the predecessor.\<close>

lemma FindGreaterOrEqual_level:
  assumes ok: "level_ok cmp valid sl level ys" and key: "valid key" and pos: "search_pos sl key ys x"
  shows "FindGreaterOrEqual_loop cmp key sl prev level x =
    (let prev = map_option (\<lambda>p. p[level := Some (pred_of cmp key sl ys)]) prev
     in if level = 0 then Some (first_from cmp key sl ys, prev)
        else FindGreaterOrEqual_loop cmp key sl prev (level - 1) (pred_of cmp key sl ys))"
proof -
  have "FindGreaterOrEqual_loop cmp key sl prev level (last (0 # A)) =
    (let prev = map_option (\<lambda>p. p[level := Some (pred_of cmp key sl ys)]) prev
     in if level = 0 then Some (first_from cmp key sl ys, prev)
        else FindGreaterOrEqual_loop cmp key sl prev (level - 1) (pred_of cmp key sl ys))"
    if "ys = A @ B" "\<forall>y\<in>set A. below cmp key sl y" for A B
    using that
  proof (induction B arbitrary: A)
    case Nil
    then have "Node_Next (last (0 # A)) level sl = Some None" using ok by (simp add: level_ok_def path_def)
    moreover have "pred_of cmp key sl ys = last (0 # A)" "first_from cmp key sl ys = None"
      using split_level [of A cmp key sl "[]"] Nil by simp_all
    ultimately show ?case by (subst FindGreaterOrEqual_loop.simps) (simp add: Let_def)
  next
    case (Cons b B)
    have nx: "Node_Next (last (0 # A)) level sl = Some (Some b)"
      using ok Cons.prems(1) by (simp add: level_ok_def path_append path_Cons)
    show ?case
    proof (cases "below cmp key sl b")
      case True
      then show ?thesis
        using Cons.IH [of "A @ [b]"] Cons.prems nx by (subst FindGreaterOrEqual_loop.simps) (simp add: last_append)
    next
      case False
      then have "pred_of cmp key sl ys = last (0 # A)" "first_from cmp key sl ys = Some b"
        using split_level [of A cmp key sl "b # B"] Cons.prems by simp_all
      then show ?thesis using nx False by (subst FindGreaterOrEqual_loop.simps) (simp add: Let_def)
    qed
  qed
  moreover obtain A B where "ys = A @ B" "x = last (0 # A)" "\<forall>y\<in>set A. below cmp key sl y"
    by (rule search_pos_split [OF assms])
  ultimately show ?thesis by simp
qed

lemma pred_of_search_pos:
  assumes "level_ok cmp valid sl i ys"
  shows "search_pos sl key ys (pred_of cmp key sl ys)"
proof (cases "takeWhile (below cmp key sl) ys = []")
  case False
  then have "last (takeWhile (below cmp key sl) ys) \<in> set (takeWhile (below cmp key sl) ys)" by (rule last_in_set)
  from set_takeWhileD [OF this] show ?thesis using False by (simp add: search_pos_def pred_of_def)
qed (simp add: search_pos_def pred_of_def)

text \<open>The search ends at the first node that is not below the key and leaves the predecessors in its array.\<close>

definition fill_prev :: "bytes \<Rightarrow> bytes SkipList \<Rightarrow> (nat \<Rightarrow> nat list) \<Rightarrow> nat \<Rightarrow> nat option list \<Rightarrow> nat option list" where
  "fill_prev key sl Ls n p = map (\<lambda>j. if j < n then Some (pred_of cmp key sl (Ls j)) else p ! j) [0..<length p]"

lemma fill_prev_step: "fill_prev key sl Ls n (p[n := Some (pred_of cmp key sl (Ls n))]) = fill_prev key sl Ls (Suc n) p"
  by (rule nth_equalityI) (auto simp: fill_prev_def nth_list_update less_Suc_eq)

lemma FindGreaterOrEqual_loop_ok:
  assumes inv: "sl_inv cmp valid sl Ls" and key: "valid key"
  shows "level < kMaxHeight \<Longrightarrow> search_pos sl key (Ls level) x \<Longrightarrow>
    FindGreaterOrEqual_loop cmp key sl prev level x =
      Some (first_from cmp key sl (Ls 0), map_option (fill_prev key sl Ls (Suc level)) prev)"
proof (induction level arbitrary: x prev)
  case 0
  have "fill_prev key sl Ls (Suc 0) p = p[0 := Some (pred_of cmp key sl (Ls 0))]" for p
    by (rule nth_equalityI) (auto simp: fill_prev_def nth_list_update)
  then show ?case using FindGreaterOrEqual_level [OF sl_inv_level [OF inv] key, of 0 x prev] 0 by (cases prev) simp_all
next
  case (Suc level)
  let ?pred = "pred_of cmp key sl (Ls (Suc level))"
  have "FindGreaterOrEqual_loop cmp key sl prev (Suc level) x =
      FindGreaterOrEqual_loop cmp key sl (map_option (\<lambda>p. p[Suc level := Some ?pred]) prev) level ?pred"
    using FindGreaterOrEqual_level [OF sl_inv_level [OF inv] key, of "Suc level" x prev] Suc.prems by (simp add: Let_def)
  moreover have "search_pos sl key (Ls level) ?pred"
    by (rule search_down [OF inv pred_of_search_pos [OF sl_inv_level [OF inv Suc.prems(1)]]])
  ultimately show ?case
    using Suc.IH [of ?pred] Suc.prems(1) by (cases prev) (simp_all add: fill_prev_step)
qed

lemma FindGreaterOrEqual_ok:
  assumes "sl_inv cmp valid sl Ls" "valid key"
  shows "FindGreaterOrEqual cmp key prev sl =
    Some (first_from cmp key sl (Ls 0), map_option (fill_prev key sl Ls (sl_max_height sl)) prev)"
proof -
  have level: "sl_max_height sl - 1 < kMaxHeight" "Suc (sl_max_height sl - 1) = sl_max_height sl"
    using assms(1) by (auto simp: sl_inv_def)
  have "search_pos sl key ys 0" for ys by (simp add: search_pos_def)
  from FindGreaterOrEqual_loop_ok [OF assms level(1) this, of prev] show ?thesis
    unfolding FindGreaterOrEqual_def level(2) .
qed

lemma FindLessThan_level:
  assumes ok: "level_ok cmp valid sl level ys" and key: "valid key" and pos: "search_pos sl key ys x"
  shows "FindLessThan_loop cmp key sl level x =
    (if level = 0 then Some (pred_of cmp key sl ys) else FindLessThan_loop cmp key sl (level - 1) (pred_of cmp key sl ys))"
proof -
  have "FindLessThan_loop cmp key sl level (last (0 # A)) =
    (if level = 0 then Some (pred_of cmp key sl ys) else FindLessThan_loop cmp key sl (level - 1) (pred_of cmp key sl ys))"
    if "ys = A @ B" "\<forall>y\<in>set A. below cmp key sl y" for A B
    using that
  proof (induction B arbitrary: A)
    case Nil
    define x where "x = last (0 # A)"
    have "Node_Next x level sl = Some None" using Nil ok by (simp add: level_ok_def path_def x_def)
    moreover have "pred_of cmp key sl ys = x"
      using split_level [of A cmp key sl "[]"] Nil by (simp add: x_def)
    moreover have "\<not> (x \<noteq> 0 \<and> \<not> cmp (sl_key sl x) key < 0)" using Nil(2) by (simp add: below_def x_def)
    ultimately show ?case unfolding x_def [symmetric]
      by (subst FindLessThan_loop.simps) (simp only: if_False option.case simp_thms if_True)
  next
    case (Cons b B)
    define x where "x = last (0 # A)"
    have nx: "Node_Next x level sl = Some (Some b)"
      using ok Cons.prems(1) by (simp add: level_ok_def path_append path_Cons x_def)
    have here: "\<not> (x \<noteq> 0 \<and> \<not> cmp (sl_key sl x) key < 0)" using Cons.prems(2) by (simp add: below_def x_def)
    show ?case
    proof (cases "below cmp key sl b")
      case True
      then have "FindLessThan_loop cmp key sl level x = FindLessThan_loop cmp key sl level b"
        using nx here by (subst FindLessThan_loop.simps) (auto simp: below_def)
      then show ?thesis using Cons.IH [of "A @ [b]"] Cons.prems True by (simp add: x_def)
    next
      case False
      then have "pred_of cmp key sl ys = x"
        using split_level [of A cmp key sl "b # B"] Cons.prems by (simp add: x_def)
      then show ?thesis using nx False here unfolding x_def [symmetric] by (subst FindLessThan_loop.simps) (auto simp: below_def)
    qed
  qed
  moreover obtain A B where "ys = A @ B" "x = last (0 # A)" "\<forall>y\<in>set A. below cmp key sl y"
    by (rule search_pos_split [OF assms])
  ultimately show ?thesis by simp
qed

lemma FindLessThan_ok:
  assumes inv: "sl_inv cmp valid sl Ls" and key: "valid key"
  shows "FindLessThan cmp key sl = Some (pred_of cmp key sl (Ls 0))"
proof -
  have "level < kMaxHeight \<Longrightarrow> search_pos sl key (Ls level) x \<Longrightarrow>
      FindLessThan_loop cmp key sl level x = Some (pred_of cmp key sl (Ls 0))" for level x
  proof (induction level arbitrary: x)
    case 0
    then show ?case using FindLessThan_level [OF sl_inv_level [OF inv] key, of 0 x] by simp
  next
    case (Suc level)
    have "search_pos sl key (Ls level) (pred_of cmp key sl (Ls (Suc level)))"
      by (rule search_down [OF inv pred_of_search_pos [OF sl_inv_level [OF inv Suc.prems(1)]]])
    then show ?case
      using FindLessThan_level [OF sl_inv_level [OF inv] key, of "Suc level" x] Suc.prems Suc.IH by simp
  qed
  moreover have "sl_max_height sl - 1 < kMaxHeight" using inv by (auto simp: sl_inv_def)
  ultimately show ?thesis by (simp add: FindLessThan_def search_pos_def)
qed

lemma FindLast_level:
  assumes "path level 0 ys sl" "x \<in> set (0 # ys)"
  shows "FindLast_loop sl level x = (if level = 0 then Some (last (0 # ys)) else FindLast_loop sl (level - 1) (last (0 # ys)))"
proof -
  have "FindLast_loop sl level (last (0 # A)) =
      (if level = 0 then Some (last (0 # ys)) else FindLast_loop sl (level - 1) (last (0 # ys)))" if "ys = A @ B" for A B
    using that
  proof (induction B arbitrary: A)
    case Nil
    then show ?case using assms(1) by (subst FindLast_loop.simps) (simp add: path_def)
  next
    case (Cons b B)
    then have "Node_Next (last (0 # A)) level sl = Some (Some b)" using assms(1) by (simp add: path_append path_Cons)
    then show ?case using Cons.IH [of "A @ [b]"] Cons.prems by (subst FindLast_loop.simps) (simp add: last_append)
  qed
  moreover obtain A B where "ys = A @ B" "x = last (0 # A)"
  proof (cases "x = 0")
    case False
    then obtain A B where "ys = (A @ [x]) @ B" using assms(2) by (auto dest: split_list)
    then show ?thesis using that [of "A @ [x]" B] by simp
  qed (use that [of "[]" ys] in simp)
  ultimately show ?thesis by simp
qed

lemma FindLast_ok:
  assumes inv: "sl_inv cmp valid sl Ls"
  shows "FindLast sl = Some (last (0 # Ls 0))"
proof -
  have path: "level < kMaxHeight \<Longrightarrow> path level 0 (Ls level) sl" for level
    using sl_inv_level [OF inv] by (simp add: level_ok_def)
  have "level < kMaxHeight \<Longrightarrow> x \<in> set (0 # Ls level) \<Longrightarrow> FindLast_loop sl level x = Some (last (0 # Ls 0))" for level x
  proof (induction level arbitrary: x)
    case 0
    then show ?case using FindLast_level [OF path, of 0 x] by simp
  next
    case (Suc level)
    have "last (0 # Ls (Suc level)) \<in> set (0 # Ls (Suc level))" by (rule last_in_set) simp
    then have "last (0 # Ls (Suc level)) \<in> set (0 # Ls level)" using sl_inv_subset [OF inv, of level "Suc level"] by auto
    then show ?case using FindLast_level [OF path, of "Suc level" x] Suc.prems Suc.IH by simp
  qed
  moreover have "sl_max_height sl - 1 < kMaxHeight" using inv by (auto simp: sl_inv_def)
  ultimately show ?thesis by (simp add: FindLast_def)
qed

subsubsection \<open>The stores of an insertion\<close>

text \<open>A store that no level can see keeps the levels.\<close>

lemma sl_inv_frame:
  assumes inv: "sl_inv cmp valid sl Ls"
    and links: "\<And>j y. j < kMaxHeight \<Longrightarrow> y \<in> set (0 # Ls j) \<Longrightarrow> Node_Next y j sl' = Node_Next y j sl"
    and keys: "\<And>y. y < length (sl_nodes sl) \<Longrightarrow> sl_key sl' y = sl_key sl y"
    and sizes: "length (sl_nodes sl) \<le> length (sl_nodes sl')" "sl_max_height sl \<le> sl_max_height sl'" "sl_max_height sl' \<le> kMaxHeight"
  shows "sl_inv cmp valid sl' Ls"
proof -
  have "level_ok cmp valid sl' j (Ls j)" if j: "j < kMaxHeight" for j
  proof -
    have ok: "level_ok cmp valid sl j (Ls j)" by (rule sl_inv_level [OF inv j])
    have "path j 0 (Ls j) sl'" using ok path_cong [of 0 "Ls j" j sl' sl] links [OF j] by (simp add: level_ok_def)
    moreover have "sl_key sl' y = sl_key sl y" if "y \<in> set (Ls j)" for y using ok keys that by (simp add: level_ok_def)
    ultimately show ?thesis
      using ok sizes(1) sorted_wrt_mono_rel [of "Ls j" "\<lambda>x y. cmp (sl_key sl x) (sl_key sl y) < 0" "\<lambda>x y. cmp (sl_key sl' x) (sl_key sl' y) < 0"]
      by (auto simp: level_ok_def)
  qed
  then show ?thesis using inv sizes by (auto simp: sl_inv_def)
qed

lemma pred_of_frame:
  assumes "\<And>y. y \<in> set ys \<Longrightarrow> sl_key sl' y = sl_key sl y"
  shows "pred_of cmp key sl' ys = pred_of cmp key sl ys"
proof -
  have "takeWhile (below cmp key sl') ys = takeWhile (below cmp key sl) ys"
    using assms by (intro takeWhile_cong refl) (simp add: below_def)
  then show ?thesis by (simp add: pred_of_def)
qed

text \<open>An insertion in progress: the levels below \<open>i\<close> have the node, the others up to its height have its predecessors.\<close>

definition pending :: "bytes SkipList \<Rightarrow> (nat \<Rightarrow> nat list) \<Rightarrow> nat \<Rightarrow> nat option list \<Rightarrow> nat \<Rightarrow> nat \<Rightarrow> bool" where
  "pending sl Ls x prev h i \<longleftrightarrow> 0 < x \<and> x < length (sl_nodes sl) \<and> valid (sl_key sl x) \<and> h \<le> sl_max_height sl \<and>
     (\<forall>j < h. Node_Next x j sl \<noteq> None) \<and> (\<forall>j < i. x \<in> set (Ls j)) \<and> (\<forall>j \<ge> i. x \<notin> set (Ls j)) \<and>
     (\<forall>j. i \<le> j \<and> j < h \<longrightarrow> prev ! j = Some (pred_of cmp (sl_key sl x) sl (Ls j)) \<and>
        (\<forall>y\<in>set (Ls j). cmp (sl_key sl y) (sl_key sl x) \<noteq> 0))"

lemma pending_frame:
  assumes "sl_inv cmp valid sl Ls" "pending sl Ls x prev h i"
    and "\<And>y. y < length (sl_nodes sl) \<Longrightarrow> sl_key sl' y = sl_key sl y" "length (sl_nodes sl) \<le> length (sl_nodes sl')"
    and "sl_max_height sl' = sl_max_height sl" "\<And>j. j < h \<Longrightarrow> Node_Next x j sl' \<noteq> None"
  shows "pending sl' Ls x prev h i"
proof -
  have bound: "h \<le> kMaxHeight" using assms(1,2) by (simp add: pending_def sl_inv_def)
  have x: "x < length (sl_nodes sl)" "sl_key sl' x = sl_key sl x" using assms(2,3) by (simp_all add: pending_def)
  have keys: "sl_key sl' y = sl_key sl y" if "y \<in> set (Ls j)" "j < h" for y j
    using sl_inv_level [OF assms(1), of j] that bound assms(3) by (simp add: level_ok_def)
  then have "pred_of cmp key sl' (Ls j) = pred_of cmp key sl (Ls j)" if "j < h" for j key
    using that by (intro pred_of_frame) auto
  then show ?thesis using assms(2,4,5,6) x keys by (auto simp: pending_def)
qed

definition with_node :: "bytes SkipList \<Rightarrow> nat \<Rightarrow> nat list \<Rightarrow> nat list" where
  "with_node sl x ys = takeWhile (below cmp (sl_key sl x) sl) ys @ x # dropWhile (below cmp (sl_key sl x) sl) ys"

lemma set_with_node: "set (with_node sl x ys) = insert x (set ys)"
  using set_takeWhile_dropWhile [of ys "below cmp (sl_key sl x) sl"] by (auto simp: with_node_def)

lemma not_below_rest:
  assumes ok: "level_ok cmp valid sl i ys" and key: "valid key" and y: "y \<in> set (dropWhile (below cmp key sl) ys)"
  shows "\<not> below cmp key sl y"
proof -
  let ?rest = "dropWhile (below cmp key sl) ys"
  obtain b B where rest: "?rest = b # B" using y by (cases ?rest) auto
  have b: "\<not> below cmp key sl b" using hd_dropWhile [of "below cmp key sl" ys] rest by simp
  have sub: "set ?rest \<subseteq> set ys" by (meson set_dropWhileD subsetI)
  then have valid: "valid (sl_key sl y)" "valid (sl_key sl b)" using ok y rest by (auto simp: level_ok_def)
  have "sorted_wrt (\<lambda>x y. cmp (sl_key sl x) (sl_key sl y) < 0) (takeWhile (below cmp key sl) ys @ ?rest)"
    using ok by (simp add: level_ok_def)
  then have "y = b \<or> cmp (sl_key sl b) (sl_key sl y) < 0" using y rest by (auto simp: sorted_wrt_append)
  then show ?thesis
    using b valid key cmp_less_trans [of "sl_key sl b" "sl_key sl y" key] by (auto simp: below_def)
qed

lemma absent_iff:
  assumes ok: "level_ok cmp valid sl i ys" and key: "valid key"
  shows "(\<forall>y\<in>set ys. cmp (sl_key sl y) key \<noteq> 0) \<longleftrightarrow>
    (case first_from cmp key sl ys of None \<Rightarrow> True | Some y \<Rightarrow> cmp key (sl_key sl y) \<noteq> 0)"
proof -
  let ?rest = "dropWhile (below cmp key sl) ys"
  have valid: "y \<in> set ys \<Longrightarrow> valid (sl_key sl y)" for y using ok by (simp add: level_ok_def)
  have ys: "set ys = set (takeWhile (below cmp key sl) ys) \<union> set ?rest"
    by (rule set_takeWhile_dropWhile)
  have before: "\<forall>y\<in>set (takeWhile (below cmp key sl) ys). cmp (sl_key sl y) key \<noteq> 0"
    by (auto simp: below_def dest!: set_takeWhileD)
  show ?thesis
  proof (cases ?rest)
    case Nil
    then show ?thesis using ys [unfolded Nil] before unfolding first_from_def find_dropWhile Nil by simp
  next
    case (Cons b B)
    have b: "b \<in> set ys" "\<not> below cmp key sl b" using ys Cons not_below_rest [OF ok key, of b] by auto
    have later: "cmp (sl_key sl b) (sl_key sl y) < 0" if "y \<in> set B" for y
    proof -
      have "sorted_wrt (\<lambda>x y. cmp (sl_key sl x) (sl_key sl y) < 0) (takeWhile (below cmp key sl) ys @ ?rest)"
        using ok by (simp add: level_ok_def)
      then show ?thesis using that Cons by (simp add: sorted_wrt_append)
    qed
    have "cmp (sl_key sl y) key \<noteq> 0" if y: "y \<in> set B" for y
    proof -
      have "cmp key (sl_key sl b) \<le> 0" using b valid key cmp_sym [of "sl_key sl b" key] cmp_sym [of key "sl_key sl b"] by (simp add: below_def)
      then have "cmp key (sl_key sl y) < 0"
        using cmp_le_less_trans [of key "sl_key sl b" "sl_key sl y"] later [OF y] valid b(1) key y Cons ys by auto
      then show ?thesis using cmp_sym [of key "sl_key sl y"] valid key y Cons ys by auto
    qed
    then show ?thesis
      using ys before Cons cmp_eq_sym [of "sl_key sl b" key] valid b(1) key by (auto simp: first_from_def find_dropWhile)
  qed
qed

text \<open>The level with the node.\<close>

lemma with_node_level:
  assumes ok: "level_ok cmp valid sl i ys" and x: "0 < x" "x < length (sl_nodes sl)" "valid (sl_key sl x)" "x \<notin> set ys"
    and absent: "\<forall>y\<in>set ys. cmp (sl_key sl y) (sl_key sl x) \<noteq> 0"
    and p: "p = pred_of cmp (sl_key sl x) sl ys"
    and new: "Node_Next p i sl' = Some (Some x)" "Node_Next x i sl' = Node_Next p i sl"
    and same: "\<And>y. y \<noteq> p \<Longrightarrow> y \<noteq> x \<Longrightarrow> Node_Next y i sl' = Node_Next y i sl"
    and keys: "\<And>y. sl_key sl' y = sl_key sl y" and nodes: "length (sl_nodes sl') = length (sl_nodes sl)"
  shows "level_ok cmp valid sl' i (with_node sl x ys)"
proof -
  let ?k = "sl_key sl x"
  let ?A = "takeWhile (below cmp ?k sl) ys" and ?B = "dropWhile (below cmp ?k sl) ys"
  let ?R = "\<lambda>x y. cmp (sl_key sl x) (sl_key sl y) < 0"
  have ys: "?A @ ?B = ys" by simp
  have valid: "y \<in> set ys \<Longrightarrow> valid (sl_key sl y)" for y using ok by (simp add: level_ok_def)
  have sorted: "sorted_wrt ?R (?A @ ?B)" using ok by (simp add: level_ok_def)
  have "distinct ys" using ok valid cmp_refl by (intro sorted_wrt_distinct [of ?R]) (auto simp: level_ok_def)
  then have "distinct (0 # ?A @ ?B)" using ok by (auto simp: level_ok_def)
  then have "path i 0 (with_node sl x ys) sl'"
    unfolding with_node_def
    using path_insert [of i 0 ?A ?B sl x p sl'] ok x(1,4) p new same by (simp add: level_ok_def pred_of_def)
  moreover have "sorted_wrt ?R (with_node sl x ys)"
  proof -
    have "\<forall>y\<in>set ?A. cmp (sl_key sl y) ?k < 0" by (auto simp: below_def dest!: set_takeWhileD)
    moreover have "\<forall>y\<in>set ?B. cmp ?k (sl_key sl y) < 0"
    proof
      fix y assume y: "y \<in> set ?B"
      then have "y \<in> set ys" by (rule set_dropWhileD)
      then show "cmp ?k (sl_key sl y) < 0"
        using not_below_rest [OF ok x(3) y] absent valid x(3) cmp_sym [of ?k "sl_key sl y"] by (force simp: below_def)
    qed
    moreover have "\<forall>a\<in>set ?A. \<forall>b\<in>set ?B. ?R a b" "sorted_wrt ?R ?A" "sorted_wrt ?R ?B"
      using sorted unfolding sorted_wrt_append by blast+
    ultimately show ?thesis by (auto simp: with_node_def sorted_wrt_append)
  qed
  ultimately show ?thesis using ok x keys nodes by (auto simp: level_ok_def set_with_node)
qed

text \<open>The three stores for a level, and the start of an insertion.\<close>

lemma Insert_link_ok:
  assumes inv: "sl_inv cmp valid sl Ls" and pending: "pending sl Ls x prev h i" and i: "i < h"
  obtains sl' where "Insert_link x prev i sl = Some sl'" "sl_inv cmp valid sl' Ls" "pending sl' Ls x prev h i"
    "Node_Next x i sl' = Node_Next (pred_of cmp (sl_key sl' x) sl' (Ls i)) i sl'"
    "\<And>y. sl_key sl' y = sl_key sl y" "sl_nputs sl' = sl_nputs sl" "sl_max_height sl' = sl_max_height sl"
proof -
  let ?p = "pred_of cmp (sl_key sl x) sl (Ls i)"
  have bound: "i < kMaxHeight" using inv pending i by (simp add: pending_def sl_inv_def)
  have ok: "level_ok cmp valid sl i (Ls i)" by (rule sl_inv_level [OF inv bound])
  have x: "0 < x" "x \<notin> set (Ls i)" "Node_Next x i sl \<noteq> None" "prev ! i = Some ?p" "valid (sl_key sl x)"
    using pending i by (auto simp: pending_def)
  have "search_pos sl (sl_key sl x) (Ls i) ?p" by (rule pred_of_search_pos [OF ok])
  then have "?p \<noteq> x" using x by (auto simp: search_pos_def)
  obtain nx where nx: "Node_Next ?p i sl = Some nx"
    using search_load [OF ok x(5) pred_of_search_pos [OF ok]] by blast
  obtain sl' where sl': "Node_SetNext x i nx sl = Some sl'"
      "\<And>z m. Node_Next z m sl' = (if z = x \<and> m = i then Some nx else Node_Next z m sl)"
      "\<And>z. sl_key sl' z = sl_key sl z" "length (sl_nodes sl') = length (sl_nodes sl)" "sl_max_height sl' = sl_max_height sl"
      "sl_nputs sl' = sl_nputs sl"
    using Node_SetNext_Some [OF x(3), of nx] by metis
  have "sl_inv cmp valid sl' Ls"
  proof (rule sl_inv_frame [OF inv])
    fix j y assume "y \<in> set (0 # Ls j)"
    then show "Node_Next y j sl' = Node_Next y j sl" using sl'(2) x(1,2) by auto
  qed (use sl' inv in \<open>auto simp: sl_inv_def\<close>)
  moreover have "pending sl' Ls x prev h i"
    using pending sl' by (intro pending_frame [OF inv pending]) (auto simp: pending_def)
  moreover have "pred_of cmp (sl_key sl' x) sl' (Ls i) = ?p" using sl'(3) pred_of_frame [of "Ls i" sl' sl] by simp
  ultimately show ?thesis using that [of sl'] sl' x nx \<open>?p \<noteq> x\<close> by (simp add: Insert_link_def)
qed

lemma Insert_publish_ok:
  assumes inv: "sl_inv cmp valid sl Ls" and pending: "pending sl Ls x prev h i" and i: "i < h"
    and linked: "Node_Next x i sl = Node_Next (pred_of cmp (sl_key sl x) sl (Ls i)) i sl"
  obtains sl' where "Insert_publish x prev i sl = Some sl'" "sl_inv cmp valid sl' (Ls(i := with_node sl x (Ls i)))"
    "pending sl' (Ls(i := with_node sl x (Ls i))) x prev h (Suc i)"
    "\<And>y. sl_key sl' y = sl_key sl y" "sl_nputs sl' = sl_nputs sl" "sl_max_height sl' = sl_max_height sl"
proof -
  let ?p = "pred_of cmp (sl_key sl x) sl (Ls i)" and ?Ls = "Ls(i := with_node sl x (Ls i))"
  have bound: "i < kMaxHeight" "h \<le> kMaxHeight" using inv pending i by (simp_all add: pending_def sl_inv_def)
  have ok: "level_ok cmp valid sl i (Ls i)" by (rule sl_inv_level [OF inv bound(1)])
  have x: "0 < x" "x < length (sl_nodes sl)" "valid (sl_key sl x)" "x \<notin> set (Ls i)" "prev ! i = Some ?p"
      "\<forall>y\<in>set (Ls i). cmp (sl_key sl y) (sl_key sl x) \<noteq> 0" "h \<le> sl_max_height sl"
    using pending i by (auto simp: pending_def)
  have "?p \<noteq> x" using pred_of_search_pos [OF ok, of "sl_key sl x"] x(1,4) by (auto simp: search_pos_def)
  obtain nx where "Node_Next ?p i sl = Some nx"
    using search_load [OF ok x(3) pred_of_search_pos [OF ok]] by blast
  then have "Node_Next ?p i sl \<noteq> None" by simp
  then obtain sl' where sl': "Node_SetNext ?p i (Some x) sl = Some sl'"
      "\<And>z m. Node_Next z m sl' = (if z = ?p \<and> m = i then Some (Some x) else Node_Next z m sl)"
      "\<And>z. sl_key sl' z = sl_key sl z" "length (sl_nodes sl') = length (sl_nodes sl)" "sl_max_height sl' = sl_max_height sl"
      "sl_nputs sl' = sl_nputs sl"
    using Node_SetNext_Some [of ?p i sl "Some x"] by metis
  have level: "level_ok cmp valid sl' i (with_node sl x (Ls i))"
    using sl' linked \<open>?p \<noteq> x\<close> by (intro with_node_level [OF ok x(1-4) x(6) refl]) auto
  have others: "level_ok cmp valid sl' j (Ls j)" if "j < kMaxHeight" "j \<noteq> i" for j
  proof -
    have "path j 0 (Ls j) sl' = path j 0 (Ls j) sl" using sl'(2) that(2) by (intro path_cong) auto
    then show ?thesis using sl_inv_level [OF inv that(1)] sl'(3,4) by (simp add: level_ok_def)
  qed
  have below: "i = Suc j \<Longrightarrow> x \<in> set (Ls j)" for j using pending by (simp add: pending_def)
  have "sl_inv cmp valid sl' ?Ls"
    unfolding sl_inv_def
  proof (intro conjI allI impI)
    fix j
    show "set (?Ls (Suc j)) \<subseteq> set (?Ls j)"
      using inv below [of j] by (auto simp: sl_inv_def set_with_node)
    show "j < kMaxHeight \<Longrightarrow> level_ok cmp valid sl' j (?Ls j)" using level others by simp
    show "sl_max_height sl' \<le> j \<Longrightarrow> ?Ls j = []" using inv sl'(5) i x(7) by (auto simp: sl_inv_def)
  qed (use inv sl' in \<open>auto simp: sl_inv_def\<close>)
  moreover have "pending sl' ?Ls x prev h (Suc i)"
  proof -
    have same: "pred_of cmp k sl' (Ls j) = pred_of cmp k sl (Ls j)" for j k
      using sl'(3) pred_of_frame [of "Ls j" sl' sl] by simp
    have "prev ! j = Some (pred_of cmp (sl_key sl' x) sl' (?Ls j)) \<and> (\<forall>y\<in>set (?Ls j). cmp (sl_key sl' y) (sl_key sl' x) \<noteq> 0)"
      if "Suc i \<le> j \<and> j < h" for j
    proof -
      have j: "?Ls j = Ls j" "i \<le> j" using that by auto
      show ?thesis unfolding j(1) same sl'(3) using pending that j(2) unfolding pending_def by blast
    qed
    then show ?thesis unfolding pending_def
      by (intro conjI allI impI) (use pending sl' i in \<open>auto simp: pending_def set_with_node less_Suc_eq\<close>)
  qed
  ultimately show ?thesis using that [of sl'] sl' x(5) by (simp add: Insert_publish_def)
qed

lemma sl_inv_count:
  assumes "sl_inv cmp valid sl Ls"
  shows "sl_inv cmp valid (Insert_count i sl) Ls" "sl_key (Insert_count i sl) = sl_key sl" "Node_Next y j (Insert_count i sl) = Node_Next y j sl"
    "length (sl_nodes (Insert_count i sl)) = length (sl_nodes sl)" "sl_max_height (Insert_count i sl) = sl_max_height sl"
proof -
  have same: "sl_key (Insert_count i sl) = sl_key sl" "Node_Next y j (Insert_count i sl) = Node_Next y j sl"
      "sl_max_height (Insert_count i sl) = sl_max_height sl" "sl_nodes (Insert_count i sl) = sl_nodes sl" for y j
    by (simp_all add: Insert_count_def sl_key_def Node_Next_def fun_eq_iff)
  then show "sl_inv cmp valid (Insert_count i sl) Ls"
    using assms by (intro sl_inv_frame [OF assms]) (auto simp: sl_inv_def)
  show "sl_key (Insert_count i sl) = sl_key sl" "Node_Next y j (Insert_count i sl) = Node_Next y j sl"
    "length (sl_nodes (Insert_count i sl)) = length (sl_nodes sl)" "sl_max_height (Insert_count i sl) = sl_max_height sl"
    using same by simp_all
qed

end

lemma RandomHeight_loop_bounds: "height \<le> kMaxHeight \<Longrightarrow> height \<le> fst (RandomHeight_loop height seed) \<and> fst (RandomHeight_loop height seed) \<le> kMaxHeight"
proof (induction height seed rule: RandomHeight_loop.induct)
  case (1 height seed)
  show ?case
  proof (cases "height < kMaxHeight \<and> Random_Next seed mod 4 = 0")
    case True
    then have "RandomHeight_loop height seed = RandomHeight_loop (height + 1) (Random_Next seed)"
      by (subst RandomHeight_loop.simps) (simp add: Let_def)
    then show ?thesis using "1.IH" [OF _ refl] True by simp
  next
    case False
    then consider "\<not> height < kMaxHeight" | "height < kMaxHeight" "\<not> Random_Next seed mod 4 = 0"
      by (cases "height < kMaxHeight") auto
    then have "fst (RandomHeight_loop height seed) = height"
      by cases (simp_all only: RandomHeight_loop.simps [of height seed] Let_def if_True if_False fst_conv simp_thms)
    then show ?thesis using "1.prems" by simp
  qed
qed

lemma RandomHeight_bounds:
  assumes "RandomHeight sl = (h, sl1)"
  shows "0 < h" "h \<le> kMaxHeight" "sl_nodes sl1 = sl_nodes sl" "sl_max_height sl1 = sl_max_height sl" "sl_nputs sl1 = sl_nputs sl"
  using assms RandomHeight_loop_bounds [of 1 "sl_rnd sl"]
  by (auto simp: RandomHeight_def kMaxHeight_def split: prod.splits)

lemma foldl_update_range:
  "length (foldl (\<lambda>p i. p[i := v]) p [a..<b]) = length p \<and>
   (\<forall>j < length p. foldl (\<lambda>p i. p[i := v]) p [a..<b] ! j = (if a \<le> j \<and> j < b then v else p ! j))"
  by (induction b) (auto simp: nth_list_update less_Suc_eq)

context comparator
begin

lemma Insert_locate_iff:
  assumes inv: "sl_inv cmp valid sl Ls" and key: "valid key"
  shows "Insert_locate cmp key sl =
    (if \<forall>y\<in>set (Ls 0). cmp (sl_key sl y) key \<noteq> 0
     then Some (fill_prev key sl Ls (sl_max_height sl) (replicate kMaxHeight None)) else None)"
proof -
  have "level_ok cmp valid sl 0 (Ls 0)" by (rule sl_inv_level [OF inv]) (simp add: kMaxHeight_def)
  from absent_iff [OF this key] show ?thesis
    by (auto simp: Insert_locate_def FindGreaterOrEqual_ok [OF inv key] split: option.splits)
qed

lemma begin_insert_ok:
  assumes inv: "sl_inv cmp valid sl Ls" and key: "valid key" and locate: "Insert_locate cmp key sl = Some prev"
    and height: "RandomHeight sl = (h, sl1)" and raise: "Insert_raise h prev sl1 = (prev', sl2)" and new: "NewNode key h sl2 = (x, sl3)"
  shows "sl_inv cmp valid sl3 Ls" "pending sl3 Ls x prev' h 0" "0 < h" "sl_key sl3 x = key"
    "\<And>y. y < length (sl_nodes sl) \<Longrightarrow> sl_key sl3 y = sl_key sl y"
    "x = length (sl_nodes sl)" "sl_nputs sl3 = sl_nputs sl" "\<forall>y\<in>set (Ls 0). cmp (sl_key sl y) key \<noteq> 0"
proof -
  note h = RandomHeight_bounds [OF height]
  have absent: "\<forall>y\<in>set (Ls 0). cmp (sl_key sl y) key \<noteq> 0"
    and prev: "prev = fill_prev key sl Ls (sl_max_height sl) (replicate kMaxHeight None)"
    using locate Insert_locate_iff [OF inv key] by (auto split: if_splits)
  have sl2: "sl_nodes sl2 = sl_nodes sl" "sl_nputs sl2 = sl_nputs sl" "sl_max_height sl2 = max (sl_max_height sl) h"
    using raise h(3-5) by (auto simp: Insert_raise_def split: if_splits)
  let ?n = "\<lparr> node_key = key, node_next = replicate h None \<rparr>"
  have sl3: "x = length (sl_nodes sl)" "sl_nodes sl3 = sl_nodes sl @ [?n]" "sl_max_height sl3 = max (sl_max_height sl) h" "sl_nputs sl3 = sl_nputs sl"
    using new sl2 by (auto simp: NewNode_def)
  have keys: "sl_key sl3 y = sl_key sl y" if "y < length (sl_nodes sl)" for y using that by (simp add: sl_key_def sl3 nth_append)
  have links: "Node_Next y j sl3 = Node_Next y j sl" if "y < length (sl_nodes sl)" for y j using that by (simp add: Node_Next_def sl3 nth_append)
  have nodes: "y < length (sl_nodes sl)" if "y \<in> set (0 # Ls j)" for y j
  proof (cases "j < kMaxHeight")
    case True
    then show ?thesis using that sl_inv_level [OF inv True] inv by (auto simp: level_ok_def sl_inv_def)
  next
    case False
    then show ?thesis using that inv by (auto simp: sl_inv_def)
  qed
  show inv3: "sl_inv cmp valid sl3 Ls"
    by (rule sl_inv_frame [OF inv]) (use nodes links keys sl3 h(2) inv in \<open>auto simp: sl_inv_def\<close>)
  show xkey: "sl_key sl3 x = key" by (simp add: sl_key_def sl3)
  have prev': "prev' ! j = Some (pred_of cmp key sl (Ls j))" if j: "j < h" for j
  proof -
    have "j < kMaxHeight" using j h(2) by simp
    then have "prev ! j = (if j < sl_max_height sl then Some (pred_of cmp key sl (Ls j)) else None)" "length prev = kMaxHeight"
      by (simp_all add: prev fill_prev_def)
    moreover have "\<not> j < sl_max_height sl \<Longrightarrow> pred_of cmp key sl (Ls j) = 0" using inv by (simp add: sl_inv_def pred_of_def)
    moreover have "prev' = (if h > sl_max_height sl then foldl (\<lambda>p i. p[i := Some 0]) prev [sl_max_height sl..<h] else prev)"
      using raise by (auto simp: Insert_raise_def h(4) split: if_splits)
    ultimately show ?thesis
      using j foldl_update_range [of "Some 0" prev "sl_max_height sl" h] \<open>j < kMaxHeight\<close> by (auto split: if_splits)
  qed
  have "pred_of cmp key sl3 (Ls j) = pred_of cmp key sl (Ls j)" for j
    using nodes keys by (intro pred_of_frame) auto
  moreover have "cmp (sl_key sl3 y) key \<noteq> 0" if "y \<in> set (Ls j)" for y j
    using absent that sl_inv_subset [OF inv, of 0 j] keys nodes [of y j] by auto
  moreover have "x \<notin> set (Ls j)" for j using nodes [of x j] sl3(1) by auto
  moreover have "Node_Next x j sl3 \<noteq> None" if "j < h" for j using that by (simp add: Node_Next_def sl3)
  moreover have "0 < x" using inv sl3(1) by (auto simp: sl_inv_def)
  ultimately show "pending sl3 Ls x prev' h 0"
    unfolding pending_def xkey using key sl3 prev' by auto
  show "0 < h" by (rule h(1))
  show "x = length (sl_nodes sl)" "sl_nputs sl3 = sl_nputs sl" by (simp_all add: sl3)
  show "\<forall>y\<in>set (Ls 0). cmp (sl_key sl y) key \<noteq> 0" by (rule absent)
  show "\<And>y. y < length (sl_nodes sl) \<Longrightarrow> sl_key sl3 y = sl_key sl y" by (rule keys)
qed

subsubsection \<open>Every state of a writer\<close>

fun pc_ok :: "bytes SkipList \<Rightarrow> (nat \<Rightarrow> nat list) \<Rightarrow> insert_pc \<Rightarrow> bool" where
  "pc_ok sl Ls Idle \<longleftrightarrow> True"
| "pc_ok sl Ls (Linking x prev h i) \<longleftrightarrow> i < h \<and> pending sl Ls x prev h i"
| "pc_ok sl Ls (Publishing x prev h i) \<longleftrightarrow> i < h \<and> pending sl Ls x prev h i \<and>
     Node_Next x i sl = Node_Next (pred_of cmp (sl_key sl x) sl (Ls i)) i sl"
| "pc_ok sl Ls (Counting x prev h i) \<longleftrightarrow> i < h \<and> pending sl Ls x prev h (Suc i)"

definition state_ok :: "bytes SkipList \<times> insert_pc \<Rightarrow> (nat \<Rightarrow> nat list) \<Rightarrow> bool" where
  "state_ok st Ls \<longleftrightarrow> sl_inv cmp valid (fst st) Ls \<and> pc_ok (fst st) Ls (snd st)"

definition grows :: "bytes SkipList \<Rightarrow> (nat \<Rightarrow> nat list) \<Rightarrow> bytes SkipList \<Rightarrow> (nat \<Rightarrow> nat list) \<Rightarrow> bool" where
  "grows sl Ls sl' Ls' \<longleftrightarrow> (\<forall>i. set (Ls i) \<subseteq> set (Ls' i)) \<and> length (sl_nodes sl) \<le> length (sl_nodes sl') \<and>
     (\<forall>y < length (sl_nodes sl). sl_key sl' y = sl_key sl y)"

lemma grows_refl: "grows sl Ls sl Ls"
  by (simp add: grows_def)

lemma grows_trans: "grows sl Ls sl' Ls' \<Longrightarrow> grows sl' Ls' sl'' Ls'' \<Longrightarrow> grows sl Ls sl'' Ls''"
  by (auto simp: grows_def)

lemma Node_SetNext_length: "Node_SetNext x i y sl = Some sl' \<Longrightarrow> length (sl_nodes sl') = length (sl_nodes sl)"
  by (auto simp: Node_SetNext_def Let_def split: if_splits)

lemma sl_write_ok:
  assumes "sl_write cmp valid st st'" "state_ok st Ls"
  shows "\<exists>Ls'. state_ok st' Ls' \<and> grows (fst st) Ls (fst st') Ls'"
  using assms
proof (induction rule: sl_write.induct)
  case (begin_insert key sl prev h sl1 prev' sl2 x sl3)
  have inv: "sl_inv cmp valid sl Ls" using begin_insert.prems by (simp add: state_ok_def)
  note ok = begin_insert_ok [OF inv begin_insert.hyps]
  have "length (sl_nodes sl) \<le> length (sl_nodes sl3)" using ok(2,6) by (simp add: pending_def)
  then show ?case using ok by (intro exI [of _ Ls]) (simp add: state_ok_def grows_def)
next
  case (link x prev i sl sl' h)
  have ok: "sl_inv cmp valid sl Ls" "pending sl Ls x prev h i" "i < h" using link.prems by (simp_all add: state_ok_def)
  have "length (sl_nodes sl') = length (sl_nodes sl)"
    using link.hyps by (auto simp: Insert_link_def Node_SetNext_length split: option.splits)
  moreover obtain sl'' where "Insert_link x prev i sl = Some sl''" "sl_inv cmp valid sl'' Ls" "pending sl'' Ls x prev h i"
    "Node_Next x i sl'' = Node_Next (pred_of cmp (sl_key sl'' x) sl'' (Ls i)) i sl''" "\<And>y. sl_key sl'' y = sl_key sl y"
    using Insert_link_ok [OF ok] by metis
  ultimately show ?case using link.hyps ok(3) by (intro exI [of _ Ls]) (simp add: state_ok_def grows_def)
next
  case (publish x prev i sl sl' h)
  define Ls' where "Ls' = Ls(i := with_node sl x (Ls i))"
  have ok: "sl_inv cmp valid sl Ls" "pending sl Ls x prev h i" "i < h"
      "Node_Next x i sl = Node_Next (pred_of cmp (sl_key sl x) sl (Ls i)) i sl"
    using publish.prems by (simp_all add: state_ok_def)
  have "length (sl_nodes sl') = length (sl_nodes sl)"
    using publish.hyps by (auto simp: Insert_publish_def Node_SetNext_length split: option.splits)
  moreover obtain sl'' where "Insert_publish x prev i sl = Some sl''" "sl_inv cmp valid sl'' Ls'"
    "pending sl'' Ls' x prev h (Suc i)" "\<And>y. sl_key sl'' y = sl_key sl y"
    using Insert_publish_ok [OF ok] unfolding Ls'_def by metis
  moreover have "set (Ls j) \<subseteq> set (Ls' j)" for j by (auto simp: set_with_node Ls'_def)
  ultimately show ?case
    using publish.hyps ok(3) by (intro exI [of _ Ls']) (simp add: state_ok_def grows_def)
next
  case (count sl x prev h i)
  have inv: "sl_inv cmp valid sl Ls" and pending: "pending sl Ls x prev h (Suc i)" using count.prems by (simp_all add: state_ok_def)
  note same = sl_inv_count [OF inv]
  have "pending (Insert_count i sl) Ls x prev h (Suc i)"
    using pending same by (intro pending_frame [OF inv pending]) (auto simp: pending_def)
  then show ?case using same by (intro exI [of _ Ls]) (simp add: state_ok_def grows_def)
qed

text \<open>A search between the stores of a writer keeps its position, because levels only grow.\<close>

fun search_ok :: "bytes SkipList \<Rightarrow> (nat \<Rightarrow> nat list) \<Rightarrow> bytes \<Rightarrow> search_pc \<Rightarrow> bool" where
  "search_ok sl Ls key (Searching level x) \<longleftrightarrow> level < kMaxHeight \<and> search_pos sl key (Ls level) x"
| "search_ok sl Ls key (Found r) \<longleftrightarrow> True"

lemma search_ok_grows:
  assumes inv: "sl_inv cmp valid sl Ls" and "grows sl Ls sl' Ls'" "search_ok sl Ls key pc"
  shows "search_ok sl' Ls' key pc"
proof (cases pc)
  case (Searching level x)
  then have "level < kMaxHeight" "search_pos sl key (Ls level) x" using assms(3) by simp_all
  moreover from sl_inv_level [OF inv this(1)] have "x \<in> set (Ls level) \<Longrightarrow> x < length (sl_nodes sl)" by (simp add: level_ok_def)
  ultimately show ?thesis using assms(2) Searching by (auto simp: grows_def search_pos_def below_def)
qed simp

lemma search_step_ok:
  assumes inv: "sl_inv cmp valid sl Ls" and key: "valid key" and ok: "search_ok sl Ls key (Searching level x)"
  obtains pc where "search_step cmp key sl level x = Some pc" "search_ok sl Ls key pc"
    "\<And>r. pc = Found r \<Longrightarrow> FindGreaterOrEqual cmp key None sl = Some (r, None)"
proof -
  have level: "level < kMaxHeight" and pos: "search_pos sl key (Ls level) x" using ok by simp_all
  obtain nx where nx: "Node_Next x level sl = Some nx"
      "KeyIsAfterNode cmp key nx sl \<Longrightarrow> nx \<noteq> None \<and> search_pos sl key (Ls level) (the nx)"
      "\<not> KeyIsAfterNode cmp key nx sl \<Longrightarrow> x = pred_of cmp key sl (Ls level) \<and> nx = first_from cmp key sl (Ls level)"
    using search_load [OF sl_inv_level [OF inv level] key pos] by metis
  have "FindGreaterOrEqual cmp key None sl = Some (first_from cmp key sl (Ls 0), None)"
    using FindGreaterOrEqual_ok [OF inv key, of None] by simp
  moreover have "search_pos sl key (Ls (level - 1)) x" if "0 < level" using search_down [OF inv, of key "level - 1" x] pos that by simp
  ultimately show ?thesis
    using nx level pos by (intro that) (auto simp: search_step_def split: if_splits)
qed

lemma sl_search_ok:
  assumes "sl_search cmp valid key st st' pc" "state_ok st Ls" "valid key"
  shows "\<exists>Ls'. state_ok st' Ls' \<and> grows (fst st) Ls (fst st') Ls' \<and> search_ok (fst st') Ls' key pc"
  using assms
proof (induction rule: sl_search.induct)
  case start
  then have "sl_max_height (fst st) - 1 < kMaxHeight" by (auto simp: state_ok_def sl_inv_def)
  then show ?case using start grows_refl by (auto simp: search_pos_def)
next
  case (store st' pc st'')
  then obtain Ls' where "state_ok st' Ls'" "grows (fst st) Ls (fst st') Ls'" "search_ok (fst st') Ls' key pc" by blast
  moreover from sl_write_ok [OF store.hyps(2) this(1)] obtain Ls'' where "state_ok st'' Ls''" "grows (fst st') Ls' (fst st'') Ls''" by blast
  ultimately show ?case using grows_trans search_ok_grows by (metis state_ok_def)
next
  case (load st' level x pc)
  then obtain Ls' where "state_ok st' Ls'" "grows (fst st) Ls (fst st') Ls'" "search_ok (fst st') Ls' key (Searching level x)" by blast
  then show ?case using search_step_ok [of "fst st'" Ls' key level x] load.hyps(2) load.prems(2) by (metis option.inject state_ok_def)
qed

subsubsection \<open>A whole insertion\<close>

definition counted :: "bytes SkipList \<Rightarrow> (nat \<Rightarrow> nat list) \<Rightarrow> bool" where
  "counted sl Ls \<longleftrightarrow> length (sl_nputs sl) = kMaxHeight \<and> (\<forall>i < kMaxHeight. sl_nputs sl ! i = int (length (Ls i)))"

lemma Insert_levels_ok:
  assumes "sl_inv cmp valid sl Ls" "pending sl Ls x prev h i" "i < h" "length (sl_nputs sl) = kMaxHeight"
    "\<forall>j < kMaxHeight. sl_nputs sl ! j = int (length (Ls j))"
  shows "\<exists>sl' Ls'. Insert_levels x prev [i..<h] sl = Some sl' \<and> sl_inv cmp valid sl' Ls' \<and> counted sl' Ls' \<and>
    (sl_write cmp valid)\<^sup>*\<^sup>* (sl, Linking x prev h i) (sl', Idle) \<and> (\<forall>y. sl_key sl' y = sl_key sl y) \<and>
    Ls' 0 = (if i = 0 then with_node sl x (Ls 0) else Ls 0) \<and> length (sl_nodes sl') = length (sl_nodes sl)"
  using assms
proof (induction "h - i" arbitrary: i sl Ls)
  case (Suc n)
  obtain sl1 where sl1: "Insert_link x prev i sl = Some sl1" "sl_inv cmp valid sl1 Ls" "pending sl1 Ls x prev h i"
    "Node_Next x i sl1 = Node_Next (pred_of cmp (sl_key sl1 x) sl1 (Ls i)) i sl1" "\<And>y. sl_key sl1 y = sl_key sl y"
    "sl_nputs sl1 = sl_nputs sl"
    using Insert_link_ok [OF Suc.prems(1-3)] by metis
  define Ls2 where "Ls2 = Ls(i := with_node sl1 x (Ls i))"
  obtain sl2 where sl2: "Insert_publish x prev i sl1 = Some sl2" "sl_inv cmp valid sl2 Ls2" "pending sl2 Ls2 x prev h (Suc i)"
    "\<And>y. sl_key sl2 y = sl_key sl1 y" "sl_nputs sl2 = sl_nputs sl1"
    using Insert_publish_ok [OF sl1(2,3) Suc.prems(3) sl1(4)] unfolding Ls2_def by metis
  let ?sl3 = "Insert_count i sl2"
  note same = sl_inv_count [OF sl2(2)]
  have len: "length (sl_nodes sl1) = length (sl_nodes sl)" "length (sl_nodes sl2) = length (sl_nodes sl1)"
    using sl1(1) sl2(1) by (auto simp: Insert_link_def Insert_publish_def Node_SetNext_length split: option.splits)
  have with_node: "with_node sl1 x (Ls i) = with_node sl x (Ls i)"
    using sl1(5) by (simp add: with_node_def below_def [abs_def])
  have pending3: "pending ?sl3 Ls2 x prev h (Suc i)"
    using sl2(3) same by (intro pending_frame [OF sl2(2) sl2(3)]) (auto simp: pending_def)
  have bound: "i < kMaxHeight" using Suc.prems(1-3) by (simp add: pending_def sl_inv_def)
  have lw: "length (with_node sl x (Ls i)) = Suc (length (Ls i))"
    by (simp add: with_node_def) (metis length_append takeWhile_dropWhile_id)
  have counted3: "length (sl_nputs ?sl3) = kMaxHeight" "\<forall>j < kMaxHeight. sl_nputs ?sl3 ! j = int (length (Ls2 j))"
    using Suc.prems(4,5) sl1(6) sl2(5) bound with_node lw by (auto simp: Insert_count_def Ls2_def nth_list_update)
  have steps: "(sl_write cmp valid)\<^sup>*\<^sup>* (sl, Linking x prev h i) (?sl3, if Suc i < h then Linking x prev h (Suc i) else Idle)"
    using sl_write.link [OF sl1(1), of cmp valid h] sl_write.publish [OF sl2(1), of cmp valid h] sl_write.count [of cmp valid sl2 x prev h i]
    by (meson rtranclp.rtrancl_into_rtrancl rtranclp.rtrancl_refl)
  have unroll: "Insert_levels x prev [i..<h] sl = Insert_levels x prev [Suc i..<h] ?sl3"
    using Suc.prems(3) sl1(1) sl2(1) by (simp add: upt_conv_Cons)
  have keys: "\<forall>y. sl_key ?sl3 y = sl_key sl y" using same(2) sl2(4) sl1(5) by simp
  have Ls0: "Ls2 0 = (if i = 0 then with_node sl x (Ls 0) else Ls 0)" using with_node by (simp add: Ls2_def)
  show ?case
  proof (cases "Suc i < h")
    case False
    then have "Insert_levels x prev [i..<h] sl = Some ?sl3" using unroll by simp
    then show ?thesis
      using same(1,4) counted3 steps False keys Ls0 len by (intro exI [of _ ?sl3] exI [of _ Ls2]) (simp add: counted_def)
  next
    case True
    have "n = h - Suc i" using Suc.hyps(2) by simp
    from Suc.hyps(1) [OF this same(1) pending3 True counted3] obtain sl' Ls' where
      "Insert_levels x prev [Suc i..<h] ?sl3 = Some sl'" "sl_inv cmp valid sl' Ls'" "counted sl' Ls'"
      "(sl_write cmp valid)\<^sup>*\<^sup>* (?sl3, Linking x prev h (Suc i)) (sl', Idle)" "\<forall>y. sl_key sl' y = sl_key ?sl3 y"
      "Ls' 0 = Ls2 0" "length (sl_nodes sl') = length (sl_nodes ?sl3)" by auto
    then show ?thesis
      using steps True unroll keys Ls0 len same(4) by (intro exI [of _ sl'] exI [of _ Ls']) (auto intro: rtranclp_trans)
  qed
qed simp

definition list_keys :: "bytes SkipList \<Rightarrow> (nat \<Rightarrow> nat list) \<Rightarrow> bytes list" where
  "list_keys sl Ls = map (sl_key sl) (Ls 0)"

lemma SkipList_Insert_ok:
  assumes inv: "sl_inv cmp valid sl Ls" and counted: "counted sl Ls" and key: "valid key"
    and absent: "\<forall>k\<in>set (list_keys sl Ls). cmp k key \<noteq> 0"
  shows "\<exists>sl' Ls'. SkipList_Insert cmp key sl = Some sl' \<and> sl_inv cmp valid sl' Ls' \<and> counted sl' Ls' \<and>
    (sl_write cmp valid)\<^sup>*\<^sup>* (sl, Idle) (sl', Idle) \<and>
    list_keys sl' Ls' = takeWhile (\<lambda>k. cmp k key < 0) (list_keys sl Ls) @ key # dropWhile (\<lambda>k. cmp k key < 0) (list_keys sl Ls)"
proof -
  obtain prev where locate: "Insert_locate cmp key sl = Some prev"
    using Insert_locate_iff [OF inv key] absent by (auto simp: list_keys_def)
  obtain h sl1 where height: "RandomHeight sl = (h, sl1)" by (cases "RandomHeight sl")
  obtain prev' sl2 where raise: "Insert_raise h prev sl1 = (prev', sl2)" by (cases "Insert_raise h prev sl1")
  obtain x sl3 where new: "NewNode key h sl2 = (x, sl3)" by (cases "NewNode key h sl2")
  note start = begin_insert_ok [OF inv key locate height raise new]
  have "length (sl_nputs sl3) = kMaxHeight" "\<forall>j < kMaxHeight. sl_nputs sl3 ! j = int (length (Ls j))"
    using counted start(7) by (simp_all add: counted_def)
  from Insert_levels_ok [OF start(1,2,3) this] obtain sl' Ls' where sl':
    "Insert_levels x prev' [0..<h] sl3 = Some sl'" "sl_inv cmp valid sl' Ls'" "counted sl' Ls'"
    "(sl_write cmp valid)\<^sup>*\<^sup>* (sl3, Linking x prev' h 0) (sl', Idle)" "\<forall>y. sl_key sl' y = sl_key sl3 y"
    "Ls' 0 = with_node sl3 x (Ls 0)" by auto
  have "SkipList_Insert cmp key sl = Some sl'"
    using sl'(1) by (simp add: SkipList_Insert_def locate height raise new)
  moreover have "(sl_write cmp valid)\<^sup>*\<^sup>* (sl, Idle) (sl', Idle)"
    using sl_write.begin_insert [of valid, OF key locate height raise new] sl'(4) by (rule converse_rtranclp_into_rtranclp)
  moreover have "list_keys sl' Ls' = takeWhile (\<lambda>k. cmp k key < 0) (list_keys sl Ls) @ key # dropWhile (\<lambda>k. cmp k key < 0) (list_keys sl Ls)"
  proof -
    have "level_ok cmp valid sl 0 (Ls 0)" by (rule sl_inv_level [OF inv]) (simp add: kMaxHeight_def)
    then have keys: "sl_key sl3 y = sl_key sl y" if "y \<in> set (Ls 0)" for y using start(5) that by (simp add: level_ok_def)
    have "map (sl_key sl3) (with_node sl3 x (Ls 0)) =
        takeWhile (\<lambda>k. cmp k key < 0) (map (sl_key sl3) (Ls 0)) @ key # dropWhile (\<lambda>k. cmp k key < 0) (map (sl_key sl3) (Ls 0))"
      by (simp add: with_node_def start(4) takeWhile_map dropWhile_map below_def [abs_def] o_def)
    moreover have "map (sl_key sl3) (Ls 0) = map (sl_key sl) (Ls 0)" using keys by simp
    moreover have "sl_key sl' = sl_key sl3" using sl'(5) by auto
    ultimately show ?thesis using sl'(6) by (simp add: list_keys_def)
  qed
  ultimately show ?thesis using sl'(2,3) by blast
qed

lemma SkipList_new_ok: "sl_inv cmp valid (SkipList_new any_key) (\<lambda>_. [])" "counted (SkipList_new any_key) (\<lambda>_. [])"
  by (auto simp: sl_inv_def level_ok_def path_Nil Node_Next_def SkipList_new_def kMaxHeight_def counted_def)

lemma list_keys_sorted:
  assumes "sl_inv cmp valid sl Ls"
  shows "sorted_wrt (\<lambda>a b. cmp a b < 0) (list_keys sl Ls)" "\<forall>k\<in>set (list_keys sl Ls). valid k"
  using sl_inv_level [OF assms, of 0] by (auto simp: level_ok_def list_keys_def sorted_wrt_map kMaxHeight_def)

end

subsection \<open>Sequences of operations\<close>

text \<open>Inserting keys one after the other, and the keys an iterator shows from its position on, forwards and backwards.\<close>

primrec insert_keys :: "('k \<Rightarrow> 'k \<Rightarrow> int) \<Rightarrow> 'k list \<Rightarrow> 'k SkipList \<Rightarrow> 'k SkipList option" where
  "insert_keys compare [] sl = Some sl"
| "insert_keys compare (k # ks) sl = Option.bind (SkipList_Insert compare k sl) (insert_keys compare ks)"

primrec keys_from :: "nat \<Rightarrow> 'k SkipList \<Rightarrow> SkipListIterator \<Rightarrow> 'k list option" where
  "keys_from 0 sl it = (if SkipListIterator_Valid it then None else Some [])"
| "keys_from (Suc n) sl it =
     (if \<not> SkipListIterator_Valid it then Some []
      else Option.bind (SkipListIterator_key sl it) (\<lambda>k. Option.bind (SkipListIterator_Next sl it)
        (\<lambda>it. map_option ((#) k) (keys_from n sl it))))"

primrec keys_back :: "('k \<Rightarrow> 'k \<Rightarrow> int) \<Rightarrow> nat \<Rightarrow> 'k SkipList \<Rightarrow> SkipListIterator \<Rightarrow> 'k list option" where
  "keys_back compare 0 sl it = (if SkipListIterator_Valid it then None else Some [])"
| "keys_back compare (Suc n) sl it =
     (if \<not> SkipListIterator_Valid it then Some []
      else Option.bind (SkipListIterator_key sl it) (\<lambda>k. Option.bind (SkipListIterator_Prev compare sl it)
        (\<lambda>it. map_option ((#) k) (keys_back compare n sl it))))"

context comparator
begin

lemma insert_keys_ok:
  assumes "sl_inv cmp valid sl Ls" "counted sl Ls" "\<forall>k\<in>set ks. valid k"
    "sorted_wrt (\<lambda>a b. cmp a b \<noteq> 0) ks" "\<forall>a\<in>set (list_keys sl Ls). \<forall>k\<in>set ks. cmp a k \<noteq> 0"
  shows "\<exists>sl' Ls'. insert_keys cmp ks sl = Some sl' \<and> sl_inv cmp valid sl' Ls' \<and> counted sl' Ls' \<and>
    (sl_write cmp valid)\<^sup>*\<^sup>* (sl, Idle) (sl', Idle) \<and>
    set (list_keys sl' Ls') = set (list_keys sl Ls) \<union> set ks \<and> length (list_keys sl' Ls') = length (list_keys sl Ls) + length ks"
  using assms
proof (induction ks arbitrary: sl Ls)
  case (Cons k ks)
  from SkipList_Insert_ok [OF Cons.prems(1,2), of k] Cons.prems(3,5) obtain sl1 Ls1 where sl1:
    "SkipList_Insert cmp k sl = Some sl1" "sl_inv cmp valid sl1 Ls1" "counted sl1 Ls1"
    "(sl_write cmp valid)\<^sup>*\<^sup>* (sl, Idle) (sl1, Idle)"
    "list_keys sl1 Ls1 = takeWhile (\<lambda>a. cmp a k < 0) (list_keys sl Ls) @ k # dropWhile (\<lambda>a. cmp a k < 0) (list_keys sl Ls)" by auto
  have keys: "set (list_keys sl1 Ls1) = insert k (set (list_keys sl Ls))"
    using set_takeWhile_dropWhile [of "list_keys sl Ls" "\<lambda>a. cmp a k < 0"] by (auto simp: sl1(5))
  have len: "length (list_keys sl1 Ls1) = Suc (length (list_keys sl Ls))"
    unfolding sl1(5) by simp (metis length_append takeWhile_dropWhile_id)
  have "\<forall>a\<in>set (list_keys sl1 Ls1). \<forall>k'\<in>set ks. cmp a k' \<noteq> 0" using Cons.prems(4,5) by (auto simp: keys)
  with Cons.IH [OF sl1(2,3)] Cons.prems(3,4) obtain sl2 Ls2 where
    "insert_keys cmp ks sl1 = Some sl2" "sl_inv cmp valid sl2 Ls2" "counted sl2 Ls2"
    "(sl_write cmp valid)\<^sup>*\<^sup>* (sl1, Idle) (sl2, Idle)" "set (list_keys sl2 Ls2) = set (list_keys sl1 Ls1) \<union> set ks"
    "length (list_keys sl2 Ls2) = length (list_keys sl1 Ls1) + length ks" by auto
  then show ?case using sl1 keys len by (intro exI [of _ sl2] exI [of _ Ls2]) (auto intro: rtranclp_trans)
qed auto

text \<open>An iterator on a level.\<close>

lemma keys_from_path:
  "path i x ys sl \<Longrightarrow> length ys \<le> n \<Longrightarrow> sit_level it = i \<Longrightarrow> sit_node it = (case ys of [] \<Rightarrow> None | y # _ \<Rightarrow> Some y) \<Longrightarrow>
   keys_from n sl it = Some (map (sl_key sl) ys)"
proof (induction ys arbitrary: x n it)
  case Nil
  then show ?case by (cases n) (simp_all add: SkipListIterator_Valid_def)
next
  case (Cons y ys)
  obtain m where n: "n = Suc m" using Cons.prems(2) by (cases n) auto
  have "Node_Next y i sl = Some (case ys of [] \<Rightarrow> None | y # _ \<Rightarrow> Some y)"
    using Cons.prems(1) by (cases ys) (simp_all add: path_Cons path_Nil)
  then show ?case
    using Cons.prems Cons.IH [of y m "it \<lparr> sit_node := case ys of [] \<Rightarrow> None | y # _ \<Rightarrow> Some y \<rparr>"]
    by (simp add: n path_Cons SkipListIterator_Valid_def SkipListIterator_key_def SkipListIterator_Next_def)
qed

lemma keys_from_first:
  assumes inv: "sl_inv cmp valid sl Ls" and level: "sit_level it < kMaxHeight" and n: "length (Ls (sit_level it)) \<le> n"
  shows "Option.bind (SkipListIterator_SeekToFirst sl it) (keys_from n sl) = Some (map (sl_key sl) (Ls (sit_level it)))"
proof -
  let ?ys = "Ls (sit_level it)"
  have path: "path (sit_level it) 0 ?ys sl" using sl_inv_level [OF inv level] by (simp add: level_ok_def)
  then have "Node_Next 0 (sit_level it) sl = Some (case ?ys of [] \<Rightarrow> None | y # _ \<Rightarrow> Some y)"
    by (cases ?ys) (simp_all add: path_Nil path_Cons)
  then show ?thesis
    using keys_from_path [OF path n, of "it \<lparr> sit_node := case ?ys of [] \<Rightarrow> None | y # _ \<Rightarrow> Some y \<rparr>"]
    by (simp add: SkipListIterator_SeekToFirst_def)
qed

lemma keys_back_path:
  assumes inv: "sl_inv cmp valid sl Ls"
  shows "Ls 0 = A @ B \<Longrightarrow> length A \<le> n \<Longrightarrow> sit_sampled_puts it = 0 \<Longrightarrow>
    sit_node it = (if A = [] then None else Some (last A)) \<Longrightarrow> keys_back cmp n sl it = Some (rev (map (sl_key sl) A))"
proof (induction A arbitrary: B n it rule: rev_induct)
  case Nil
  then show ?case by (cases n) (simp_all add: SkipListIterator_Valid_def)
next
  case (snoc y A)
  obtain m where n: "n = Suc m" using snoc.prems(2) by (cases n) auto
  have ok: "level_ok cmp valid sl 0 (Ls 0)" by (rule sl_inv_level [OF inv]) (simp add: kMaxHeight_def)
  then have y: "valid (sl_key sl y)" "\<forall>a\<in>set A. below cmp (sl_key sl y) sl a" "\<not> below cmp (sl_key sl y) sl y" "0 \<notin> set A"
    using snoc.prems(1) cmp_refl by (auto simp: level_ok_def sorted_wrt_append below_def)
  have "pred_of cmp (sl_key sl y) sl (Ls 0) = last (0 # A)"
    using split_level(1) [OF y(2), of "y # B"] y(3) snoc.prems(1) by simp
  then have less: "FindLessThan cmp (sl_key sl y) sl = Some (last (0 # A))" using FindLessThan_ok [OF inv y(1)] by simp
  have "last A \<noteq> 0" if "A \<noteq> []" using y(4) last_in_set [OF that] by metis
  then have "SkipListIterator_Prev cmp sl it = Some (it \<lparr> sit_node := if A = [] then None else Some (last A) \<rparr>)"
    using snoc.prems(3,4) less by (simp add: SkipListIterator_Prev_def)
  then show ?case
    using snoc.prems snoc.IH [of "y # B" m "it \<lparr> sit_node := if A = [] then None else Some (last A) \<rparr>"]
    by (simp add: n SkipListIterator_Valid_def SkipListIterator_key_def)
qed

lemma keys_back_last:
  assumes inv: "sl_inv cmp valid sl Ls" and "sit_sampled_puts it = 0" "length (Ls 0) \<le> n"
  shows "Option.bind (SkipListIterator_SeekToLast sl it) (keys_back cmp n sl) = Some (rev (list_keys sl Ls))"
proof -
  have "level_ok cmp valid sl 0 (Ls 0)" by (rule sl_inv_level [OF inv]) (simp add: kMaxHeight_def)
  then have "0 \<notin> set (Ls 0)" by (auto simp: level_ok_def)
  then have "last (Ls 0) \<noteq> 0" if "Ls 0 \<noteq> []" using last_in_set [OF that] by metis
  then have "SkipListIterator_SeekToLast sl it = Some (it \<lparr> sit_node := if Ls 0 = [] then None else Some (last (Ls 0)) \<rparr>)"
    using assms(2) FindLast_ok [OF inv] by (simp add: SkipListIterator_SeekToLast_def)
  then show ?thesis
    using keys_back_path [OF inv, of "Ls 0" "[]" n "it \<lparr> sit_node := if Ls 0 = [] then None else Some (last (Ls 0)) \<rparr>"] assms(2,3)
    by (simp add: list_keys_def)
qed

lemma Seek_ok:
  assumes "sl_inv cmp valid sl Ls" "valid target" "sit_sampled_puts it = 0"
  shows "Option.bind (SkipListIterator_Seek cmp sl target it) (SkipListIterator_key sl) = find (\<lambda>k. \<not> cmp k target < 0) (list_keys sl Ls) \<and>
    SkipListIterator_Seek cmp sl target it \<noteq> None"
proof -
  have "find (\<lambda>k. \<not> cmp k target < 0) (map (sl_key sl) ys) = map_option (sl_key sl) (first_from cmp target sl ys)" for ys
    unfolding first_from_def below_def by (induction ys) auto
  then show ?thesis
    using assms FindGreaterOrEqual_ok [OF assms(1,2), of None]
    by (simp add: SkipListIterator_Seek_def SkipListIterator_key_def list_keys_def)
qed

lemma Contains_ok:
  assumes inv: "sl_inv cmp valid sl Ls" and key: "valid key"
  shows "Contains cmp key sl = Some (\<exists>k\<in>set (list_keys sl Ls). cmp k key = 0)"
proof -
  have "level_ok cmp valid sl 0 (Ls 0)" by (rule sl_inv_level [OF inv]) (simp add: kMaxHeight_def)
  from absent_iff [OF this key] show ?thesis
    using FindGreaterOrEqual_ok [OF inv key, of None] by (auto simp: Contains_def list_keys_def split: option.splits)
qed

lemma iter_level_cases:
  "iter_level s sl n < max n 1 \<and> (iter_level s sl n = 0 \<or> (of_int (sl_nputs sl ! iter_level s sl n) :: u32) > s)"
  by (induction n) auto

lemma level_subseq:
  assumes inv: "sl_inv cmp valid sl Ls" and i: "i < kMaxHeight"
  shows "subseq (map (sl_key sl) (Ls i)) (list_keys sl Ls)"
proof -
  have ok: "level_ok cmp valid sl j (Ls j)" if "j < kMaxHeight" for j by (rule sl_inv_level [OF inv that])
  have 0: "level_ok cmp valid sl 0 (Ls 0)" by (rule ok) (simp add: kMaxHeight_def)
  have "subseq (Ls i) (Ls 0)"
  proof (rule subseq_of_subset [of "\<lambda>x y. cmp (sl_key sl x) (sl_key sl y) < 0"])
    fix a b assume "a \<in> set (Ls 0)" "b \<in> set (Ls 0)" "cmp (sl_key sl a) (sl_key sl b) < 0"
    then show "\<not> cmp (sl_key sl b) (sl_key sl a) < 0"
      using 0 cmp_sym [of "sl_key sl a" "sl_key sl b"] by (auto simp: level_ok_def)
  qed (use 0 ok [OF i] sl_inv_subset [OF inv, of 0 i] in \<open>auto simp: level_ok_def\<close>)
  then show ?thesis by (simp add: list_keys_def subseq_map)
qed

lemma sampled_iterator:
  assumes inv: "sl_inv cmp valid sl Ls" and counted: "counted sl Ls" and n: "length (Ls 0) \<le> n" and small: "n < 2 ^ 32"
  shows "\<exists>ys. Option.bind (SkipListIterator_SeekToFirst sl (SkipListIterator_new sampled sl)) (keys_from n sl) = Some ys \<and>
    subseq ys (list_keys sl Ls) \<and> (ys = list_keys sl Ls \<or> length ys > unat sampled)"
proof -
  define it where "it = SkipListIterator_new sampled sl"
  have level: "sit_level it < kMaxHeight" "sit_level it = 0 \<or> (of_int (sl_nputs sl ! sit_level it) :: u32) > sampled"
    using iter_level_cases [of sampled sl kMaxHeight] by (auto simp: it_def SkipListIterator_new_def kMaxHeight_def)
  have sub: "subseq (map (sl_key sl) (Ls (sit_level it))) (list_keys sl Ls)" by (rule level_subseq [OF inv level(1)])
  then have len: "length (Ls (sit_level it)) \<le> n" using n list_emb_length [OF sub] by (simp add: list_keys_def)
  have "length (Ls (sit_level it)) > unat sampled" if "sit_level it \<noteq> 0"
  proof -
    have "(of_nat (length (Ls (sit_level it))) :: u32) > sampled" using level that counted by (simp add: counted_def)
    then show ?thesis using len small by (simp add: word_less_nat_alt)
  qed
  then show ?thesis
    using keys_from_first [OF inv level(1) len] sub unfolding it_def [symmetric]
    by (cases "sit_level it = 0") (auto simp: list_keys_def)
qed

lemma insert_keys_new:
  assumes "\<forall>k\<in>set ks. valid k" "sorted_wrt (\<lambda>a b. cmp a b \<noteq> 0) ks"
  obtains sl Ls where "insert_keys cmp ks (SkipList_new any_key) = Some sl" "sl_inv cmp valid sl Ls" "counted sl Ls"
    "(sl_write cmp valid)\<^sup>*\<^sup>* (SkipList_new any_key, Idle) (sl, Idle)"
    "set (list_keys sl Ls) = set ks" "length (list_keys sl Ls) = length ks"
  using insert_keys_ok [OF SkipList_new_ok assms, of any_key] by (auto simp: list_keys_def)

lemma ordered_set:
  assumes "\<forall>k\<in>set ks. valid k" "sorted_wrt (\<lambda>a b. cmp a b \<noteq> 0) ks" "length ks < 2 ^ 32"
  shows "\<exists>sl xs. insert_keys cmp ks (SkipList_new any_key) = Some sl \<and>
    set xs = set ks \<and> length xs = length ks \<and> sorted_wrt (\<lambda>a b. cmp a b < 0) xs \<and>
    Option.bind (SkipListIterator_SeekToFirst sl (SkipListIterator_new 0 sl)) (keys_from (length ks) sl) = Some xs \<and>
    Option.bind (SkipListIterator_SeekToLast sl (SkipListIterator_new 0 sl)) (keys_back cmp (length ks) sl) = Some (rev xs) \<and>
    (\<forall>target. valid target \<longrightarrow>
      Option.bind (SkipListIterator_Seek cmp sl target (SkipListIterator_new 0 sl)) (SkipListIterator_key sl) = find (\<lambda>k. \<not> cmp k target < 0) xs \<and>
      Contains cmp target sl = Some (\<exists>k\<in>set ks. cmp k target = 0)) \<and>
    (\<forall>sampled. \<exists>ys. Option.bind (SkipListIterator_SeekToFirst sl (SkipListIterator_new sampled sl)) (keys_from (length ks) sl) = Some ys \<and>
      subseq ys xs \<and> (ys = xs \<or> length ys > unat sampled))"
proof -
  obtain sl Ls where sl: "insert_keys cmp ks (SkipList_new any_key) = Some sl" "sl_inv cmp valid sl Ls" "counted sl Ls"
      "set (list_keys sl Ls) = set ks" "length (list_keys sl Ls) = length ks"
    using insert_keys_new [OF assms(1,2), of any_key] by metis
  let ?xs = "list_keys sl Ls" and ?it = "SkipListIterator_new 0 sl"
  have it: "sit_level ?it = 0" "sit_sampled_puts ?it = 0" by (simp_all add: SkipListIterator_new_def)
  have len: "length (Ls 0) = length ks" using sl(5) by (simp add: list_keys_def)
  have first: "Option.bind (SkipListIterator_SeekToFirst sl ?it) (keys_from (length ks) sl) = Some ?xs"
    using keys_from_first [OF sl(2), of ?it "length ks"] it len by (simp add: list_keys_def kMaxHeight_def)
  have last: "Option.bind (SkipListIterator_SeekToLast sl ?it) (keys_back cmp (length ks) sl) = Some (rev ?xs)"
    using keys_back_last [OF sl(2), of ?it "length ks"] it len by simp
  have seek: "Option.bind (SkipListIterator_Seek cmp sl target ?it) (SkipListIterator_key sl) = find (\<lambda>k. \<not> cmp k target < 0) ?xs \<and>
      Contains cmp target sl = Some (\<exists>k\<in>set ks. cmp k target = 0)" if "valid target" for target
    using Seek_ok [OF sl(2) that it(2)] Contains_ok [OF sl(2) that] sl(4) by simp
  have sampled: "\<exists>ys. Option.bind (SkipListIterator_SeekToFirst sl (SkipListIterator_new sampled sl)) (keys_from (length ks) sl) = Some ys \<and>
      subseq ys ?xs \<and> (ys = ?xs \<or> length ys > unat sampled)" for sampled
    by (rule sampled_iterator [OF sl(2,3)]) (use len assms(3) in simp_all)
  show ?thesis
    by (rule exI [of _ sl], rule exI [of _ ?xs])
      (intro conjI allI impI sl(1,4,5) list_keys_sorted(1) [OF sl(2)] first last sampled, simp_all add: seek)
qed

lemma state_ok_reachable:
  assumes "(sl_write cmp valid)\<^sup>*\<^sup>* (SkipList_new any_key, Idle) st"
  shows "\<exists>Ls. state_ok st Ls"
  using assms
proof (induction rule: rtranclp_induct)
  case base
  then show ?case using SkipList_new_ok(1) by (intro exI [of _ "\<lambda>_. []"]) (simp add: state_ok_def)
next
  case (step st st')
  then show ?case using sl_write_ok by blast
qed

lemma concurrent_search:
  assumes "(sl_write cmp valid)\<^sup>*\<^sup>* (SkipList_new any_key, Idle) st" "valid target"
    "sl_search cmp valid target st st' (Searching level x)"
  shows "(\<exists>pc. search_step cmp target (fst st') level x = Some pc \<and>
      (\<forall>r. pc = Found r \<longrightarrow> FindGreaterOrEqual cmp target None (fst st') = Some (r, None))) \<and>
    (\<forall>k. valid k \<and> Contains cmp k (fst st) = Some True \<longrightarrow> Contains cmp k (fst st') = Some True)"
proof -
  obtain Ls where Ls: "state_ok st Ls" using state_ok_reachable [OF assms(1)] by blast
  from sl_search_ok [OF assms(3) this assms(2)] obtain Ls' where Ls': "state_ok st' Ls'" "grows (fst st) Ls (fst st') Ls'"
    "search_ok (fst st') Ls' target (Searching level x)" by blast
  have inv: "sl_inv cmp valid (fst st) Ls" "sl_inv cmp valid (fst st') Ls'" using Ls Ls'(1) by (simp_all add: state_ok_def)
  have "level_ok cmp valid (fst st) 0 (Ls 0)" by (rule sl_inv_level [OF inv(1)]) (simp add: kMaxHeight_def)
  then have "set (list_keys (fst st) Ls) \<subseteq> set (list_keys (fst st') Ls')"
    using Ls'(2) by (force simp: grows_def level_ok_def list_keys_def)
  then have "Contains cmp k (fst st') = Some True" if "valid k" "Contains cmp k (fst st) = Some True" for k
    using that Contains_ok [OF inv(1) that(1)] Contains_ok [OF inv(2) that(1)] by auto
  moreover obtain pc where "search_step cmp target (fst st') level x = Some pc"
      "\<And>r. pc = Found r \<Longrightarrow> FindGreaterOrEqual cmp target None (fst st') = Some (r, None)"
    using search_step_ok [OF inv(2) assms(2) Ls'(3)] by metis
  ultimately show ?thesis by blast
qed

end

subsection \<open>Properties\<close>

text \<open>
  (C34) A skip list is an ordered set. Keys no two of which compare equal are inserted in any order, whatever
  heights the random generator gives: no assertion fails, no search runs on for ever or follows a missing link, and then
  an iterator shows exactly the inserted keys in increasing order, forwards from the first and backwards from the
  last; \<^verbatim>\<open>Seek\<close> ends at the first key that is not below its target and \<^verbatim>\<open>Contains\<close> finds exactly the inserted
  keys. A sampling iterator shows a subsequence, either of more than the requested number of keys or of all of them.
\<close>

theorem skiplist_ordered_set:
  assumes "comparator cmp valid" and "\<forall>k\<in>set ks. valid k" and "sorted_wrt (\<lambda>a b. cmp a b \<noteq> 0) ks" and "length ks < 2 ^ 32"
  shows "\<exists>sl xs. insert_keys cmp ks (SkipList_new any_key) = Some sl \<and>
    set xs = set ks \<and> length xs = length ks \<and> sorted_wrt (\<lambda>a b. cmp a b < 0) xs \<and>
    Option.bind (SkipListIterator_SeekToFirst sl (SkipListIterator_new 0 sl)) (keys_from (length ks) sl) = Some xs \<and>
    Option.bind (SkipListIterator_SeekToLast sl (SkipListIterator_new 0 sl)) (keys_back cmp (length ks) sl) = Some (rev xs) \<and>
    (\<forall>target. valid target \<longrightarrow>
      Option.bind (SkipListIterator_Seek cmp sl target (SkipListIterator_new 0 sl)) (SkipListIterator_key sl) = find (\<lambda>k. \<not> cmp k target < 0) xs \<and>
      Contains cmp target sl = Some (\<exists>k\<in>set ks. cmp k target = 0)) \<and>
    (\<forall>sampled. \<exists>ys. Option.bind (SkipListIterator_SeekToFirst sl (SkipListIterator_new sampled sl)) (keys_from (length ks) sl) = Some ys \<and>
      subseq ys xs \<and> (ys = xs \<or> length ys > unat sampled))"
  by (rule comparator.ordered_set [OF assms])

theorem skiplist_ordered_set_witness:
  "\<exists>sl xs. insert_keys Bytewise_Compare [[2], [1], [2, 0]] (SkipList_new []) = Some sl \<and> set xs = {[1], [2], [2, 0]} \<and>
     sorted_wrt (\<lambda>a b. Bytewise_Compare a b < 0) xs \<and>
     Option.bind (SkipListIterator_SeekToFirst sl (SkipListIterator_new 0 sl)) (keys_from 3 sl) = Some xs"
proof -
  have "sorted_wrt (\<lambda>a b. Bytewise_Compare a b \<noteq> 0) [[2], [1], [2, 0]]"
    by (simp add: Bytewise_Compare_def Slice_compare_def)
  from skiplist_ordered_set [OF bytewise.comparator_axioms _ this, of "[]"] show ?thesis
    by (auto simp: numeral_3_eq_3 simp del: insert_keys.simps keys_from.simps)
qed

text \<open>
  (C35) Readers need no lock. A search runs between the stores of concurrent insertions, from any reachable state of the
  list, also in the middle of an insertion. Every link it loads exists, so it never runs into memory that is not
  initialised; what it returns is what an undisturbed search would return in the memory at the moment of its last
  load; and a key that was in the list when the search began is still there.
\<close>

theorem skiplist_concurrent_search:
  assumes "comparator cmp valid" and "(sl_write cmp valid)\<^sup>*\<^sup>* (SkipList_new any_key, Idle) st" and "valid target"
    and "sl_search cmp valid target st st' (Searching level x)"
  shows "(\<exists>pc. search_step cmp target (fst st') level x = Some pc \<and>
      (\<forall>r. pc = Found r \<longrightarrow> FindGreaterOrEqual cmp target None (fst st') = Some (r, None))) \<and>
    (\<forall>k. valid k \<and> Contains cmp k (fst st) = Some True \<longrightarrow> Contains cmp k (fst st') = Some True)"
  by (rule comparator.concurrent_search [OF assms])

theorem skiplist_concurrent_search_witness:
  "\<exists>sl pc. SkipList_Insert Bytewise_Compare [5] (SkipList_new []) = Some sl \<and>
     sl_search Bytewise_Compare (\<lambda>_. True) [5] (SkipList_new [], Idle) (sl, Idle) (Searching 0 0) \<and>
     search_step Bytewise_Compare [5] sl 0 0 = Some pc"
proof -
  obtain sl where sl: "SkipList_Insert Bytewise_Compare [5] (SkipList_new []) = Some sl"
      "(sl_write Bytewise_Compare (\<lambda>_. True))\<^sup>*\<^sup>* (SkipList_new [], Idle) (sl, Idle)"
    using bytewise.SkipList_Insert_ok [OF bytewise.SkipList_new_ok, of "[]" "[5]"] by (auto simp: bytewise.list_keys_def)
  have "sl_search Bytewise_Compare (\<lambda>_. True) [5] (SkipList_new [], Idle) st (Searching 0 0)"
    if "(sl_write Bytewise_Compare (\<lambda>_. True))\<^sup>*\<^sup>* (SkipList_new [], Idle) st" for st
    using that
  proof (induction rule: rtranclp_induct)
    case base
    then show ?case
      using sl_search.start [of Bytewise_Compare "\<lambda>_. True" "[5]" "(SkipList_new [], Idle)"] by (simp add: SkipList_new_def)
  qed (rule sl_search.store)
  from this [OF sl(2)] show ?thesis
    using skiplist_concurrent_search [OF bytewise.comparator_axioms, of "[]" "(SkipList_new [], Idle)" "[5]" "(sl, Idle)" 0 0] sl(1)
    by auto
qed

end
