(* ===== verification/MemTables.thy ===== *)
theory MemTables
  imports SkipLists YCSBComparator FileMeta Status
begin

text \<open>
  Memtables (\<^verbatim>\<open>db/memtable.h\<close>, \<^verbatim>\<open>db/memtable.cc\<close>) and the reference counted holder of a memtable that readers
  and the flushing thread share. A memtable is a skip list whose keys are
  buffers: a length-prefixed internal key followed by a length-prefixed value. The arena that owns the buffers is not
  repeated here. \<^verbatim>\<open>WaitUntilReady\<close> blocks a reader until a migrated memtable is complete and changes nothing; the
  operations below are what runs after it.
\<close>

subsection \<open>Entries\<close>

text \<open>
  A slice at the start of a buffer and the buffer behind it. The code takes the buffer as well formed: on a malformed
  length it would go on from a null pointer.
\<close>

definition entry_slice :: "bytes \<Rightarrow> bytes \<times> bytes" where
  "entry_slice data = (case GetVarint32Ptr data of
     Some (len, p) \<Rightarrow> (take (unat len) p, drop (unat len) p)
   | None \<Rightarrow> ([], []))"

definition MemTable_KeyComparator :: "(bytes \<Rightarrow> bytes \<Rightarrow> int) \<Rightarrow> bytes \<Rightarrow> bytes \<Rightarrow> int" where
  "MemTable_KeyComparator user_compare aptr bptr =
     InternalKeyComparator_Compare user_compare (fst (entry_slice aptr)) (fst (entry_slice bptr))"

definition EncodeKey :: "bytes \<Rightarrow> bytes" where
  "EncodeKey target = PutVarint32 [] (of_nat (length target)) @ target"

subsection \<open>Memtables\<close>

record MemTable =
  mt_is_ready :: bool
  mt_refs :: int
  mt_memtable_id :: u32
  mt_table :: "bytes SkipList"

definition MemTable_new :: "u32 \<Rightarrow> bool \<Rightarrow> MemTable" where
  "MemTable_new memtable_id is_ready =
     \<lparr> mt_is_ready = is_ready, mt_refs = 0, mt_memtable_id = memtable_id, mt_table = SkipList_new [] \<rparr>"

definition SetReadyToProcessRequests :: "MemTable \<Rightarrow> MemTable" where
  "SetReadyToProcessRequests mem = mem \<lparr> mt_is_ready := True \<rparr>"

definition MemTable_Ref :: "MemTable \<Rightarrow> MemTable" where
  "MemTable_Ref mem = mem \<lparr> mt_refs := mt_refs mem + 1 \<rparr>"

text \<open>The remaining count; \<open>None\<close> when the assertion that it is not negative fails.\<close>

definition MemTable_Unref :: "u32 \<Rightarrow> MemTable \<Rightarrow> (int \<times> MemTable) option" where
  "MemTable_Unref unrefcount mem =
     (let refs = mt_refs mem - uint unrefcount in
      if refs \<ge> 0 then Some (refs, mem \<lparr> mt_refs := refs \<rparr>) else None)"

text \<open>\<open>None\<close>: the assertion on the encoded length, or one of the list's.\<close>

definition MemTable_Add ::
    "(bytes \<Rightarrow> bytes \<Rightarrow> int) \<Rightarrow> SequenceNumber \<Rightarrow> ValueType \<Rightarrow> bytes \<Rightarrow> bytes \<Rightarrow> MemTable \<Rightarrow> MemTable option" where
  "MemTable_Add user_compare s type key value mem =
     (let key_size = length key;
          val_size = length value;
          internal_key_size = key_size + 8;
          encoded_len = VarintLength (of_nat internal_key_size) + internal_key_size +
            VarintLength (of_nat val_size) + val_size;
          buf = EncodeVarint32 (of_nat internal_key_size) @ key @ EncodeFixed64 (push_bit 8 s OR ValueType_code type) @
            EncodeVarint32 (of_nat val_size) @ value
      in if length buf = encoded_len
         then map_option (\<lambda>table. mem \<lparr> mt_table := table \<rparr>)
           (SkipList_Insert (MemTable_KeyComparator user_compare) buf (mt_table mem))
         else None)"

text \<open>
  The result is whether the memtable decides the lookup, the value and the status; the last two are unchanged where
  the code does not write them.
\<close>

definition MemTable_Get ::
    "(bytes \<Rightarrow> bytes \<Rightarrow> int) \<Rightarrow> LookupKey \<Rightarrow> bytes \<Rightarrow> status \<Rightarrow> MemTable \<Rightarrow> (bool \<times> bytes \<times> status) option" where
  "MemTable_Get user_compare key value s mem =
     (let table = mt_table mem in
      case SkipListIterator_Seek (MemTable_KeyComparator user_compare) table (LookupKey_memtable_key key)
        (SkipListIterator_new 0 table) of
        None \<Rightarrow> None
      | Some iter \<Rightarrow>
         (case SkipListIterator_key table iter of
            None \<Rightarrow> Some (False, value, s)
          | Some entry \<Rightarrow>
             (case GetVarint32Ptr entry of
                None \<Rightarrow> None
              | Some (key_length, key_ptr) \<Rightarrow>
                 if user_compare (take (unat key_length - 8) key_ptr) (LookupKey_user_key key) = 0 then
                   (case DecodeFixed64_ptr (drop (unat key_length - 8) key_ptr) of
                      None \<Rightarrow> None
                    | Some tag \<Rightarrow>
                       if tag AND 0xff = ValueType_code kTypeValue then
                         Some (True, fst (entry_slice (drop (unat key_length) key_ptr)), s)
                       else if tag AND 0xff = ValueType_code kTypeDeletion then Some (True, value, Status_NotFound [] [])
                       else Some (False, value, s))
                 else Some (False, value, s))))"

subsection \<open>Iterators of a memtable\<close>

record MemTableIterator =
  mi_iter :: SkipListIterator
  mi_seeked :: bool

definition MemTable_NewIterator :: "u32 \<Rightarrow> MemTable \<Rightarrow> MemTableIterator" where
  "MemTable_NewIterator sample_size mem =
     \<lparr> mi_iter = SkipListIterator_new sample_size (mt_table mem), mi_seeked = False \<rparr>"

definition MemTableIterator_Valid :: "MemTableIterator \<Rightarrow> bool" where
  "MemTableIterator_Valid it = SkipListIterator_Valid (mi_iter it)"

definition MemTableIterator_Seek ::
    "(bytes \<Rightarrow> bytes \<Rightarrow> int) \<Rightarrow> MemTable \<Rightarrow> bytes \<Rightarrow> MemTableIterator \<Rightarrow> MemTableIterator option" where
  "MemTableIterator_Seek user_compare mem k it =
     map_option (\<lambda>i. it \<lparr> mi_iter := i, mi_seeked := True \<rparr>)
       (SkipListIterator_Seek (MemTable_KeyComparator user_compare) (mt_table mem) (EncodeKey k) (mi_iter it))"

definition MemTableIterator_SeekToFirst :: "MemTable \<Rightarrow> MemTableIterator \<Rightarrow> MemTableIterator option" where
  "MemTableIterator_SeekToFirst mem it =
     map_option (\<lambda>i. it \<lparr> mi_iter := i, mi_seeked := True \<rparr>) (SkipListIterator_SeekToFirst (mt_table mem) (mi_iter it))"

definition MemTableIterator_SeekToLast :: "MemTable \<Rightarrow> MemTableIterator \<Rightarrow> MemTableIterator option" where
  "MemTableIterator_SeekToLast mem it =
     map_option (\<lambda>i. it \<lparr> mi_iter := i, mi_seeked := True \<rparr>) (SkipListIterator_SeekToLast (mt_table mem) (mi_iter it))"

definition MemTableIterator_Next :: "MemTable \<Rightarrow> MemTableIterator \<Rightarrow> MemTableIterator option" where
  "MemTableIterator_Next mem it =
     map_option (\<lambda>i. it \<lparr> mi_iter := i \<rparr>) (SkipListIterator_Next (mt_table mem) (mi_iter it))"

definition MemTableIterator_Prev ::
    "(bytes \<Rightarrow> bytes \<Rightarrow> int) \<Rightarrow> MemTable \<Rightarrow> MemTableIterator \<Rightarrow> MemTableIterator option" where
  "MemTableIterator_Prev user_compare mem it =
     map_option (\<lambda>i. it \<lparr> mi_iter := i \<rparr>)
       (SkipListIterator_Prev (MemTable_KeyComparator user_compare) (mt_table mem) (mi_iter it))"

definition MemTableIterator_key :: "MemTable \<Rightarrow> MemTableIterator \<Rightarrow> bytes option" where
  "MemTableIterator_key mem it = map_option (\<lambda>e. fst (entry_slice e)) (SkipListIterator_key (mt_table mem) (mi_iter it))"

definition MemTableIterator_value :: "MemTable \<Rightarrow> MemTableIterator \<Rightarrow> bytes option" where
  "MemTableIterator_value mem it =
     map_option (\<lambda>e. fst (entry_slice (snd (entry_slice e)))) (SkipListIterator_key (mt_table mem) (mi_iter it))"

text \<open>
  \<^verbatim>\<open>SkipToNextUserKey\<close>: the loop, and the seek before it when the iterator has no position yet. The variable of
  the target's number is not initialised, that of an entry's number is zero.
\<close>

partial_function (option) skip_memtable_key :: "u64 \<Rightarrow> MemTable \<Rightarrow> MemTableIterator \<Rightarrow> MemTableIterator option" where
  "skip_memtable_key userkeyint mem it =
     (if \<not> MemTableIterator_Valid it then Some it
      else case MemTableIterator_key mem it of
        None \<Rightarrow> None
      | Some k \<Rightarrow>
          (case user_key_int (Some 0) k of
             None \<Rightarrow> None
           | Some pivot \<Rightarrow>
               if userkeyint \<noteq> pivot then Some it
               else (case MemTableIterator_Next mem it of None \<Rightarrow> None | Some it \<Rightarrow> skip_memtable_key userkeyint mem it)))"

definition MemTableIterator_SkipToNextUserKey ::
    "(bytes \<Rightarrow> bytes \<Rightarrow> int) \<Rightarrow> MemTable \<Rightarrow> bytes \<Rightarrow> MemTableIterator \<Rightarrow> MemTableIterator option" where
  "MemTableIterator_SkipToNextUserKey user_compare mem target it =
     do { it \<leftarrow> (if mi_seeked it then Some it else MemTableIterator_Seek user_compare mem target it);
          userkeyint \<leftarrow> user_key_int None target;
          skip_memtable_key userkeyint mem it }"

subsection \<open>The shared holder of a memtable\<close>

text \<open>Every operation holds the mutex of the holder for its whole body. The set of table numbers is ascending.\<close>

record AtomicMemTable =
  am_is_immutable :: bool
  am_is_flushed :: bool
  am_generation_id :: u64
  am_is_scheduled_for_flushing :: bool
  am_last_version_id :: u32
  am_memtable_id :: u32
  am_l0_file_numbers :: "u64 list"
  am_memtable :: "MemTable option"
  am_nentries :: int
  am_memtable_size :: u32
  am_number_of_pending_writes :: u32

record MemTableL0FilesEdit =
  mle_add_fns :: "u64 list"
  mle_remove_fns :: "u64 list"

definition AtomicMemTable_SetMemTable :: "u64 \<Rightarrow> MemTable \<Rightarrow> AtomicMemTable \<Rightarrow> AtomicMemTable" where
  "AtomicMemTable_SetMemTable generation_id mem a =
     a \<lparr> am_l0_file_numbers := [], am_is_flushed := False, am_is_immutable := False, am_is_scheduled_for_flushing := False,
       am_generation_id := generation_id, am_memtable_id := mt_memtable_id mem, am_memtable := Some (MemTable_Ref mem) \<rparr>"

text \<open>Dropping references deletes the memtable with the last one.\<close>

definition drop_refs :: "u32 \<Rightarrow> AtomicMemTable \<Rightarrow> AtomicMemTable option" where
  "drop_refs n a = (case am_memtable a of
     None \<Rightarrow> None
   | Some mem \<Rightarrow> (case MemTable_Unref n mem of
       None \<Rightarrow> None
     | Some (refs, mem) \<Rightarrow> Some (a \<lparr> am_memtable := if refs = 0 then None else Some mem \<rparr>)))"

definition AtomicMemTable_SetFlushed :: "u64 list \<Rightarrow> u32 \<Rightarrow> AtomicMemTable \<Rightarrow> AtomicMemTable option" where
  "AtomicMemTable_SetFlushed l0_file_numbers version_id a =
     (if am_is_flushed a \<or> am_l0_file_numbers a \<noteq> [] \<or> \<not> am_is_immutable a then None
      else drop_refs 1 (a \<lparr> am_last_version_id := max (am_last_version_id a) version_id,
        am_l0_file_numbers := fold set_insert l0_file_numbers (am_l0_file_numbers a), am_is_flushed := True \<rparr>))"

definition AtomicMemTable_RefMemTable :: "AtomicMemTable \<Rightarrow> bool \<times> AtomicMemTable" where
  "AtomicMemTable_RefMemTable a = (case am_memtable a of
     Some mem \<Rightarrow> (True, a \<lparr> am_memtable := Some (MemTable_Ref mem) \<rparr>)
   | None \<Rightarrow> (False, a))"

definition AtomicMemTable_Unref :: "u32 \<Rightarrow> AtomicMemTable \<Rightarrow> AtomicMemTable option" where
  "AtomicMemTable_Unref unrefcount a = drop_refs unrefcount a"

definition AtomicMemTable_UpdateL0Files :: "u32 \<Rightarrow> MemTableL0FilesEdit \<Rightarrow> AtomicMemTable \<Rightarrow> AtomicMemTable option" where
  "AtomicMemTable_UpdateL0Files version_id edit a =
     (if \<not> am_is_immutable a \<or> \<not> am_is_flushed a then None
      else Some (a \<lparr> am_last_version_id := max (am_last_version_id a) version_id,
        am_l0_file_numbers := fold (\<lambda>rm xs. filter (\<lambda>x. x \<noteq> rm) xs) (mle_remove_fns edit)
          (fold set_insert (mle_add_fns edit) (am_l0_file_numbers a)) \<rparr>))"

definition AtomicMemTable_Encode :: "AtomicMemTable \<Rightarrow> bytes" where
  "AtomicMemTable_Encode a =
     EncodeBool (am_is_immutable a) @ EncodeBool (am_is_flushed a) @ EncodeFixed32 (am_last_version_id a) @
     EncodeFixed32 (am_memtable_id a) @ EncodeFixed32 (of_int (am_nentries a)) @ EncodeFixed32 (am_memtable_size a) @
     EncodeFixed32 (of_nat (length (am_l0_file_numbers a))) @ concat (map EncodeFixed64 (am_l0_file_numbers a))"

text \<open>The flag tells that the memtable existed; otherwise an empty one that is not ready is made.\<close>

definition AtomicMemTable_Decode :: "AtomicMemTable \<Rightarrow> (bool \<times> AtomicMemTable) decoder" where
  "AtomicMemTable_Decode a buf =
     do { (is_immutable, buf) \<leftarrow> DecodeBool buf;
          (is_flushed, buf) \<leftarrow> DecodeBool buf;
          (last_version_id, buf) \<leftarrow> DecodeFixed32 buf;
          (memtable_id, buf) \<leftarrow> DecodeFixed32 buf;
          (nentries, buf) \<leftarrow> DecodeFixed32 buf;
          (memtable_size, buf) \<leftarrow> DecodeFixed32 buf;
          (size, buf) \<leftarrow> DecodeFixed32 buf;
          (l0s, buf) \<leftarrow> decode_n (unat size) DecodeFixed64 buf;
          (let a = a \<lparr> am_is_immutable := is_immutable, am_is_flushed := is_flushed, am_last_version_id := last_version_id,
                 am_memtable_id := memtable_id, am_nentries := uint nentries, am_memtable_size := memtable_size,
                 am_l0_file_numbers := fold set_insert l0s (am_l0_file_numbers a) \<rparr>
           in if \<not> is_flushed \<and> am_memtable a = None
              then Some ((False, a \<lparr> am_memtable := Some (MemTable_new memtable_id False) \<rparr>), buf)
              else Some ((True, a), buf)) }"

text \<open>The memtables of a partition by generation, \<^verbatim>\<open>generation_num_memtables_\<close>.\<close>

type_synonym generations = "u64 \<rightharpoonup> u32 set"

definition MemTablePartition_AddMemTable :: "u64 \<Rightarrow> u32 \<Rightarrow> generations \<Rightarrow> generations" where
  "MemTablePartition_AddMemTable generation_id memtableid g =
     g(generation_id \<mapsto> insert memtableid (case g generation_id of None \<Rightarrow> {} | Some ids \<Rightarrow> ids))"

definition MemTablePartition_RemoveMemTable :: "u64 \<Rightarrow> u32 \<Rightarrow> generations \<Rightarrow> generations option" where
  "MemTablePartition_RemoveMemTable generation_id memtableid g = (case g generation_id of
     None \<Rightarrow> None
   | Some ids \<Rightarrow> Some (if ids - {memtableid} = {} then g(generation_id := None) else g(generation_id \<mapsto> ids - {memtableid})))"

subsection \<open>Entries are ordered by their internal keys\<close>

definition entry_ok :: "bytes \<Rightarrow> bool" where
  "entry_ok e \<longleftrightarrow> (\<exists>k rest. e = EncodeVarint32 (of_nat (length k)) @ k @ rest \<and> fits32 k \<and> internal_key_ok k)"

lemma entry_slice_Encode: "fits32 k \<Longrightarrow> entry_slice (EncodeVarint32 (of_nat (length k)) @ k @ rest) = (k, rest)"
  by (simp add: entry_slice_def codec_simps)

lemma entry_ok_key: "entry_ok e \<Longrightarrow> internal_key_ok (fst (entry_slice e))"
  by (auto simp: entry_ok_def entry_slice_Encode)

lemma entry_okI: "fits32 k \<Longrightarrow> internal_key_ok k \<Longrightarrow> entry_ok (EncodeVarint32 (of_nat (length k)) @ k @ rest)"
  unfolding entry_ok_def by blast

lemma EncodeKey_ok: "fits32 k \<Longrightarrow> internal_key_ok k \<Longrightarrow> entry_ok (EncodeKey k) \<and> entry_slice (EncodeKey k) = (k, [])"
  using entry_slice_Encode [of k "[]"] entry_okI [of k "[]"] by (simp add: EncodeKey_def PutVarint32_def)

sublocale internal_comparator \<subseteq> entries: comparator "MemTable_KeyComparator user_compare" entry_ok
  by unfold_locales (auto simp: MemTable_KeyComparator_def icmp_sym entry_ok_key intro: icmp_le_trans dest: entry_ok_key)

subsection \<open>Adding and looking up\<close>

text \<open>An operation on a memtable: sequence number, type, user key and value.\<close>

type_synonym mem_op = "SequenceNumber \<times> ValueType \<times> bytes \<times> bytes"

fun mem_op_ok :: "mem_op \<Rightarrow> bool" where
  "mem_op_ok (s, t, k, v) \<longleftrightarrow> s \<le> kMaxSequenceNumber \<and> length k + 8 < 2 ^ 32 \<and> fits32 v"

fun mem_entry :: "mem_op \<Rightarrow> bytes" where
  "mem_entry (s, t, k, v) = EncodeVarint32 (of_nat (length (InternalKey_new k s t))) @ InternalKey_new k s t @
     EncodeVarint32 (of_nat (length v)) @ v"

fun add_ops :: "(bytes \<Rightarrow> bytes \<Rightarrow> int) \<Rightarrow> mem_op list \<Rightarrow> MemTable \<Rightarrow> MemTable option" where
  "add_ops user_compare [] mem = Some mem"
| "add_ops user_compare ((s, t, k, v) # ops) mem =
     Option.bind (MemTable_Add user_compare s t k v mem) (add_ops user_compare ops)"

lemma length_EncodeVarint32_nat: "n < 2 ^ 32 \<Longrightarrow> length (EncodeVarint32 (of_nat n)) = VarintLength (of_nat n)"
proof -
  assume "n < 2 ^ 32"
  then have "(ucast (of_nat n :: u32) :: u64) = of_nat n"
    by (intro word_unat_eq_iff [THEN iffD2]) (simp add: unat_of_nat)
  then show ?thesis by (simp add: EncodeVarint32_eq_EncodeVarint64 length_EncodeVarint64)
qed

lemma MemTable_Add_entry:
  assumes "mem_op_ok (s, t, k, v)"
  shows "MemTable_Add user_compare s t k v mem =
    map_option (\<lambda>table. mem \<lparr> mt_table := table \<rparr>)
      (SkipList_Insert (MemTable_KeyComparator user_compare) (mem_entry (s, t, k, v)) (mt_table mem))"
  using assms length_EncodeVarint32_nat [of "length k + 8"] length_EncodeVarint32_nat [of "length v"]
  by (simp add: MemTable_Add_def Let_def InternalKey_new_alt PackSequenceAndType_def del: of_nat_add)

lemma add_ops_insert_keys:
  "\<forall>op\<in>set ops. mem_op_ok op \<Longrightarrow> add_ops user_compare ops mem =
   map_option (\<lambda>table. mem \<lparr> mt_table := table \<rparr>)
     (insert_keys (MemTable_KeyComparator user_compare) (map mem_entry ops) (mt_table mem))"
proof (induction ops arbitrary: mem)
  case (Cons op ops)
  obtain s t k v where op: "op = (s, t, k, v)" by (cases op)
  show ?case
    using Cons.IH Cons.prems MemTable_Add_entry [of s t k v user_compare mem]
    by (cases "SkipList_Insert (MemTable_KeyComparator user_compare) (mem_entry op) (mt_table mem)")
      (simp_all add: op option.map_comp o_def cong: map_option_cong)
qed simp

lemma mem_entry_slice:
  "mem_op_ok (s, t, k, v) \<Longrightarrow> entry_ok (mem_entry (s, t, k, v)) \<and> fst (entry_slice (mem_entry (s, t, k, v))) = InternalKey_new k s t"
  using entry_slice_Encode [of "InternalKey_new k s t"] entry_okI [of "InternalKey_new k s t"] by simp

lemma LookupKey_entry:
  "length u + 8 < 2 ^ 32 \<Longrightarrow> entry_ok (LookupKey_memtable_key (LookupKey_new u s)) \<and>
   fst (entry_slice (LookupKey_memtable_key (LookupKey_new u s))) = InternalKey_new u s kValueTypeForSeek"
  using EncodeKey_ok [of "InternalKey_new u s kValueTypeForSeek"]
  by (simp add: EncodeKey_def PutVarint32_def LookupKey_memtable_key_def LookupKey_new_def Let_def InternalKey_new_alt)

text \<open>The result of a lookup that ends at an entry.\<close>

definition entry_result :: "ValueType \<Rightarrow> bytes \<Rightarrow> bytes \<Rightarrow> status \<Rightarrow> bool \<times> bytes \<times> status" where
  "entry_result t v value s = (case t of kTypeValue \<Rightarrow> (True, v, s) | kTypeDeletion \<Rightarrow> (True, value, Status_NotFound [] []))"

lemma find_least:
  assumes "sorted_wrt R xs" "e \<in> set xs" "P e" "\<And>e'. e' \<in> set xs \<Longrightarrow> P e' \<Longrightarrow> e' = e \<or> \<not> R e' e"
  shows "find P xs = Some e"
  using assms by (induction xs) auto

context internal_comparator
begin

lemma entry_less_iff:
  assumes "mem_op_ok (s, t, k, v)" "mem_op_ok (s', t', k', v')"
  shows "MemTable_KeyComparator user_compare (mem_entry (s, t, k, v)) (mem_entry (s', t', k', v')) < 0 \<longleftrightarrow>
    user_compare k k' < 0 \<or> user_compare k k' = 0 \<and> (s > s' \<or> s = s' \<and> ValueType_code t > ValueType_code t')"
  using assms mem_entry_slice [OF assms(1)] mem_entry_slice [OF assms(2)]
    icmp_less_iff [OF InternalKey_tag_new InternalKey_tag_new, of k s t k' s' t']
  by (auto simp: MemTable_KeyComparator_def Pack_less_iff simp del: mem_entry.simps)

lemma entry_below_lookup_iff:
  assumes "mem_op_ok (s, t, k, v)" "length u + 8 < 2 ^ 32" "snapshot \<le> kMaxSequenceNumber"
  shows "MemTable_KeyComparator user_compare (mem_entry (s, t, k, v)) (LookupKey_memtable_key (LookupKey_new u snapshot)) < 0 \<longleftrightarrow>
    user_compare k u < 0 \<or> user_compare k u = 0 \<and> s > snapshot"
  using assms mem_entry_slice [OF assms(1)] LookupKey_entry [OF assms(2), of snapshot]
    icmp_less_iff [OF InternalKey_tag_new InternalKey_tag_new, of k s t u snapshot kValueTypeForSeek]
  by (cases t) (auto simp: MemTable_KeyComparator_def Pack_less_iff kValueTypeForSeek_def simp del: mem_entry.simps)

lemma MemTable_Get_seek:
  assumes inv: "sl_inv (MemTable_KeyComparator user_compare) entry_ok (mt_table mem) Ls" and u: "length u + 8 < 2 ^ 32"
    and target: "target = LookupKey_memtable_key (LookupKey_new u snapshot)"
    and first: "find (\<lambda>e. \<not> MemTable_KeyComparator user_compare e target < 0) (entries.list_keys (mt_table mem) Ls) =
      map_option mem_entry op" and op: "\<And>x. op = Some x \<Longrightarrow> mem_op_ok x"
  shows "MemTable_Get user_compare (LookupKey_new u snapshot) value st mem = Some (case op of
    None \<Rightarrow> (False, value, st)
  | Some (s, t, k, v) \<Rightarrow> if user_compare k u = 0 then entry_result t v value st else (False, value, st))"
proof -
  let ?it = "SkipListIterator_new 0 (mt_table mem)"
  have "sit_sampled_puts ?it = 0" by (simp add: SkipListIterator_new_def)
  then obtain iter where iter: "SkipListIterator_Seek (MemTable_KeyComparator user_compare) (mt_table mem) target ?it = Some iter"
      "SkipListIterator_key (mt_table mem) iter = map_option mem_entry op"
    using entries.Seek_ok [OF inv, of target ?it] LookupKey_entry [OF u, of snapshot] first
    by (auto simp: target simp del: mem_entry.simps)
  show ?thesis
  proof (cases op)
    case None
    then show ?thesis using iter by (simp add: MemTable_Get_def Let_def target [symmetric])
  next
    case (Some x)
    obtain s t k v where x: "x = (s, t, k, v)" by (cases x)
    have ok: "length k + 8 < 2 ^ 32" "fits32 v" using op [OF Some] x by simp_all
    let ?rest = "k @ EncodeFixed64 (PackSequenceAndType s t) @ EncodeVarint32 (of_nat (length v)) @ v"
    have varint: "GetVarint32Ptr (mem_entry (s, t, k, v)) = Some (of_nat (length k + 8), ?rest)"
      by (simp add: codec_simps InternalKey_new_alt)
    have len: "unat (of_nat (length k + 8) :: u32) = length k + 8" using ok(1) by (simp del: of_nat_add)
    have "DecodeFixed64_ptr (drop (length k) ?rest) = Some (PackSequenceAndType s t)"
      by (simp add: DecodeFixed64_ptr_Encode)
    moreover have "drop (length k + 8) ?rest = EncodeVarint32 (of_nat (length v)) @ v @ []" by simp
    then have "fst (entry_slice (drop (length k + 8) ?rest)) = v"
      using entry_slice_Encode [OF ok(2), of "[]"] by simp
    ultimately show ?thesis
      using iter varint len Pack_type [of s t]
      by (cases t) (simp_all add: MemTable_Get_def Let_def target [symmetric] Some x entry_result_def LookupKey_user_key_new
        del: mem_entry.simps of_nat_add)
  qed
qed

end

text \<open>The newest operation on a user key that a snapshot sees, as a scan over the operations.\<close>

definition newest :: "(bytes \<Rightarrow> bytes \<Rightarrow> int) \<Rightarrow> bytes \<Rightarrow> SequenceNumber \<Rightarrow> mem_op list \<Rightarrow> (SequenceNumber \<times> ValueType \<times> bytes) option" where
  "newest user_compare u snapshot ops = fold (\<lambda>(s, t, k, v) best.
     if user_compare k u = 0 \<and> s \<le> snapshot \<and> (case best of None \<Rightarrow> True | Some (s', _) \<Rightarrow> s' < s) then Some (s, t, v) else best)
     ops None"

lemma newest_snoc:
  "newest user_compare u snapshot (ops @ [(s, t, k, v)]) =
   (if user_compare k u = 0 \<and> s \<le> snapshot \<and> (case newest user_compare u snapshot ops of None \<Rightarrow> True | Some (s', _) \<Rightarrow> s' < s)
    then Some (s, t, v) else newest user_compare u snapshot ops)"
  by (simp add: newest_def)

lemma newest_spec:
  "(newest user_compare u snapshot ops = None \<longleftrightarrow> (\<forall>(s, t, k, v)\<in>set ops. \<not> (user_compare k u = 0 \<and> s \<le> snapshot))) \<and>
   (\<forall>s t v. newest user_compare u snapshot ops = Some (s, t, v) \<longrightarrow>
     (\<exists>k. (s, t, k, v) \<in> set ops \<and> user_compare k u = 0 \<and> s \<le> snapshot) \<and>
     (\<forall>(s', t', k', v')\<in>set ops. user_compare k' u = 0 \<and> s' \<le> snapshot \<longrightarrow> s' \<le> s))"
proof (induction ops rule: rev_induct)
  case Nil
  then show ?case by (simp add: newest_def)
next
  case (snoc op ops)
  obtain s t k v where op: "op = (s, t, k, v)" by (cases op)
  show ?case
  proof (cases "newest user_compare u snapshot ops")
    case None
    then show ?thesis using snoc by (auto simp: op newest_snoc split: if_splits)
  next
    case (Some best)
    obtain s' t' v' where "best = (s', t', v')" by (cases best)
    then show ?thesis using snoc Some by (fastforce simp: op newest_snoc split: if_splits)
  qed
qed

text \<open>Two operations are versions of one user key with one sequence number. A database never makes two of them.\<close>

fun same_version :: "(bytes \<Rightarrow> bytes \<Rightarrow> int) \<Rightarrow> mem_op \<Rightarrow> mem_op \<Rightarrow> bool" where
  "same_version user_compare (s, t, k, v) (s', t', k', v') \<longleftrightarrow> user_compare k k' = 0 \<and> s = s'"

definition ops_distinct :: "(bytes \<Rightarrow> bytes \<Rightarrow> int) \<Rightarrow> mem_op list \<Rightarrow> bool" where
  "ops_distinct user_compare ops \<longleftrightarrow> sorted_wrt (\<lambda>x y. \<not> same_version user_compare x y) ops"

lemma sorted_wrt_same:
  "sorted_wrt R xs \<Longrightarrow> x \<in> set xs \<Longrightarrow> y \<in> set xs \<Longrightarrow> \<not> R x y \<Longrightarrow> \<not> R y x \<Longrightarrow> x = y"
  by (induction xs) auto

context internal_comparator
begin

lemma user_equal_trans: "user_compare k u = 0 \<Longrightarrow> user_compare k' u = 0 \<Longrightarrow> user_compare k' k = 0"
  using user.cmp_eq_sym [of k u] user.cmp_le_trans [of k' u k] user.cmp_le_trans [of k u k'] user.cmp_eq_sym [of k' u]
    user.cmp_sym [of k' k] user.cmp_sym [of k k'] by force

lemma user_greater_trans: "user_compare k u = 0 \<Longrightarrow> user_compare k' u > 0 \<Longrightarrow> user_compare k' k > 0"
  using user.cmp_le_less_trans [of k u k'] user.cmp_sym [of u k'] user.cmp_sym [of k k'] by force

lemma entries_distinct:
  assumes "\<forall>op\<in>set ops. mem_op_ok op" "ops_distinct user_compare ops"
  shows "sorted_wrt (\<lambda>a b. MemTable_KeyComparator user_compare a b \<noteq> 0) (map mem_entry ops)"
  unfolding sorted_wrt_map
proof (rule sorted_wrt_mono_rel [OF _ assms(2) [unfolded ops_distinct_def]])
  fix x y assume xy: "x \<in> set ops" "y \<in> set ops" and diff: "\<not> same_version user_compare x y"
  obtain s t k v where x: "x = (s, t, k, v)" by (cases x)
  obtain s' t' k' v' where y: "y = (s', t', k', v')" by (cases y)
  let ?cmp = "MemTable_KeyComparator user_compare"
  have ok: "mem_op_ok (s, t, k, v)" "mem_op_ok (s', t', k', v')" using assms(1) xy x y by auto
  consider "user_compare k k' < 0" | "user_compare k' k < 0" | "user_compare k k' = 0" "s > s'" | "user_compare k' k = 0" "s' > s"
  proof (cases "user_compare k k'" "0 :: int" rule: linorder_cases)
    case equal
    then have "s \<noteq> s'" using diff x y by simp
    then show ?thesis using that(3,4) equal user.cmp_eq_sym [of k k'] by (cases s s' rule: linorder_cases) auto
  qed (use that(1,2) user.cmp_sym [of k' k] in auto)
  then have "?cmp (mem_entry x) (mem_entry y) < 0 \<or> ?cmp (mem_entry y) (mem_entry x) < 0"
    unfolding x y by cases (use entry_less_iff [OF ok] entry_less_iff [OF ok(2,1)] in blast)+
  then show "?cmp (mem_entry x) (mem_entry y) \<noteq> 0"
    using entries.cmp_sym [of "mem_entry y" "mem_entry x"] mem_entry_slice [OF ok(1)] mem_entry_slice [OF ok(2)]
    by (auto simp: x y simp del: mem_entry.simps)
qed

lemma newest_first:
  assumes ok: "\<forall>op\<in>set ops. mem_op_ok op" and distinct: "ops_distinct user_compare ops"
    and u: "length u + 8 < 2 ^ 32" and snapshot: "snapshot \<le> kMaxSequenceNumber"
    and newest: "newest user_compare u snapshot ops = Some (s, t, v)"
    and xs: "set xs = mem_entry ` set ops" "sorted_wrt (\<lambda>a b. MemTable_KeyComparator user_compare a b < 0) xs"
  obtains k where "(s, t, k, v) \<in> set ops" "user_compare k u = 0"
    "find (\<lambda>e. \<not> MemTable_KeyComparator user_compare e (LookupKey_memtable_key (LookupKey_new u snapshot)) < 0) xs = Some (mem_entry (s, t, k, v))"
proof -
  obtain k where k: "(s, t, k, v) \<in> set ops" "user_compare k u = 0" "s \<le> snapshot"
      "\<forall>(s', t', k', v')\<in>set ops. user_compare k' u = 0 \<and> s' \<le> snapshot \<longrightarrow> s' \<le> s"
    using newest_spec [THEN conjunct2, THEN spec, THEN spec, THEN spec, THEN mp, OF newest] by blast
  have ok1: "mem_op_ok (s, t, k, v)" using ok k(1) by blast
  have "find (\<lambda>e. \<not> MemTable_KeyComparator user_compare e (LookupKey_memtable_key (LookupKey_new u snapshot)) < 0) xs =
      Some (mem_entry (s, t, k, v))"
  proof (rule find_least [OF xs(2)])
    show "mem_entry (s, t, k, v) \<in> set xs" using xs(1) k(1) by blast
    show "\<not> MemTable_KeyComparator user_compare (mem_entry (s, t, k, v)) (LookupKey_memtable_key (LookupKey_new u snapshot)) < 0"
      using entry_below_lookup_iff [OF ok1 u snapshot] k(2,3) by (simp del: mem_entry.simps)
    fix e' assume e': "e' \<in> set xs" "\<not> MemTable_KeyComparator user_compare e' (LookupKey_memtable_key (LookupKey_new u snapshot)) < 0"
    then obtain s' t' k' v' where op': "(s', t', k', v') \<in> set ops" "e' = mem_entry (s', t', k', v')" using xs(1) by auto
    have ok2: "mem_op_ok (s', t', k', v')" using ok op'(1) by blast
    have "user_compare k' u > 0 \<or> user_compare k' u = 0 \<and> s' \<le> snapshot"
      using entry_below_lookup_iff [OF ok2 u snapshot] e'(2) op'(2) by (auto simp del: mem_entry.simps)
    then have "user_compare k' k > 0 \<or> user_compare k' k = 0 \<and> s' \<le> s"
      using user_greater_trans [OF k(2)] user_equal_trans [OF k(2)] k(4) op'(1) by auto
    moreover have "(s', t', k', v') = (s, t, k, v)" if "user_compare k' k = 0" "s' = s"
      using sorted_wrt_same [OF distinct [unfolded ops_distinct_def] op'(1) k(1)] that user.cmp_eq_sym [of k k'] by auto
    ultimately show "e' = mem_entry (s, t, k, v) \<or> \<not> MemTable_KeyComparator user_compare e' (mem_entry (s, t, k, v)) < 0"
      using entry_less_iff [OF ok2 ok1] op'(2) by (auto simp del: mem_entry.simps)
  qed
  then show ?thesis using that k(1,2) by blast
qed

text \<open>A lookup in a memtable whose entries are those of a list of operations.\<close>

lemma MemTable_Get_newest:
  assumes ok: "\<forall>op\<in>set ops. mem_op_ok op" and distinct: "ops_distinct user_compare ops"
    and u: "length u + 8 < 2 ^ 32" and snapshot: "snapshot \<le> kMaxSequenceNumber"
    and inv: "sl_inv (MemTable_KeyComparator user_compare) entry_ok (mt_table mem) Ls"
    and keys: "set (entries.list_keys (mt_table mem) Ls) = mem_entry ` set ops"
  shows "MemTable_Get user_compare (LookupKey_new u snapshot) value st mem = Some (case newest user_compare u snapshot ops of
    None \<Rightarrow> (False, value, st) | Some (s, t, v) \<Rightarrow> entry_result t v value st)"
proof -
  let ?P = "\<lambda>e. \<not> MemTable_KeyComparator user_compare e (LookupKey_memtable_key (LookupKey_new u snapshot)) < 0"
  let ?xs = "entries.list_keys (mt_table mem) Ls"
  note get = MemTable_Get_seek [OF inv u refl]
  show ?thesis
  proof (cases "newest user_compare u snapshot ops")
    case None
    show ?thesis
    proof (cases "find ?P ?xs")
      case (Some e)
      then have "e \<in> set ?xs" "?P e" by (auto simp: find_Some_iff)
      then obtain s t k v where op: "(s, t, k, v) \<in> set ops" "e = mem_entry (s, t, k, v)" using keys by auto
      have "mem_op_ok (s, t, k, v)" using ok op(1) by blast
      then have "user_compare k u \<noteq> 0"
        using \<open>?P e\<close> op entry_below_lookup_iff [OF _ u snapshot] newest_spec [of user_compare u snapshot ops] None
        by (auto simp del: mem_entry.simps)
      then show ?thesis using get [of snapshot "Some (s, t, k, v)"] Some op None \<open>mem_op_ok (s, t, k, v)\<close> by (simp del: mem_entry.simps)
    qed (use get [of snapshot None] None in simp)
  next
    case (Some best)
    obtain s t v where best: "best = (s, t, v)" by (cases best)
    obtain k where k: "(s, t, k, v) \<in> set ops" "user_compare k u = 0" "find ?P ?xs = Some (mem_entry (s, t, k, v))"
      by (rule newest_first [OF ok distinct u snapshot Some [unfolded best] keys entries.list_keys_sorted(1) [OF inv]])
    have "mem_op_ok (s, t, k, v)" using ok k(1) by blast
    then show ?thesis using get [of snapshot "Some (s, t, k, v)"] k(2,3) Some best by (simp del: mem_entry.simps mem_op_ok.simps)
  qed
qed

lemma add_ops_new:
  assumes ok: "\<forall>op\<in>set ops. mem_op_ok op" and distinct: "ops_distinct user_compare ops"
  obtains mem Ls where "add_ops user_compare ops (MemTable_new mid ready) = Some mem"
    "sl_inv (MemTable_KeyComparator user_compare) entry_ok (mt_table mem) Ls"
    "set (entries.list_keys (mt_table mem) Ls) = mem_entry ` set ops"
proof -
  have valid: "\<forall>e\<in>set (map mem_entry ops). entry_ok e" using ok mem_entry_slice by (auto simp del: mem_entry.simps)
  obtain table Ls where "insert_keys (MemTable_KeyComparator user_compare) (map mem_entry ops) (SkipList_new []) = Some table"
      "sl_inv (MemTable_KeyComparator user_compare) entry_ok table Ls" "set (entries.list_keys table Ls) = set (map mem_entry ops)"
    using entries.insert_keys_new [OF valid entries_distinct [OF assms], of "[]"] by metis
  then show ?thesis
    using that [of "MemTable_new mid ready \<lparr> mt_table := table \<rparr>" Ls] add_ops_insert_keys [OF ok, of user_compare "MemTable_new mid ready"]
    by (simp add: MemTable_new_def del: mem_entry.simps)
qed

end

subsection \<open>Skipping to the next user key\<close>

abbreviation node_user_int :: "bytes SkipList \<Rightarrow> nat \<Rightarrow> u64" where
  "node_user_int table y \<equiv> key_int (ExtractUserKey (fst (entry_slice (sl_key table y))))"

abbreviation hd_node :: "nat list \<Rightarrow> nat option" where
  "hd_node ys \<equiv> case ys of [] \<Rightarrow> None | y # _ \<Rightarrow> Some y"

text \<open>The loop ends, at the first node behind the position whose user key is another number.\<close>

lemma skip_memtable_key_path:
  "path (sit_level (mi_iter it)) x ys (mt_table mem) \<Longrightarrow> sit_node (mi_iter it) = hd_node ys \<Longrightarrow>
   \<forall>y\<in>set ys. 8 < length (fst (entry_slice (sl_key (mt_table mem) y))) \<Longrightarrow>
   skip_memtable_key n mem it = Some (it \<lparr> mi_iter := mi_iter it \<lparr> sit_node := hd_node (dropWhile (\<lambda>y. node_user_int (mt_table mem) y = n) ys) \<rparr> \<rparr>)"
proof (induction ys arbitrary: x it)
  case Nil
  then show ?case by (simp add: skip_memtable_key.simps MemTableIterator_Valid_def SkipListIterator_Valid_def)
next
  case (Cons y ys)
  have step: "Node_Next y (sit_level (mi_iter it)) (mt_table mem) = Some (hd_node ys)"
    using Cons.prems(1) by (cases ys) (simp_all add: path_Cons path_Nil)
  have key: "MemTableIterator_key mem it = Some (fst (entry_slice (sl_key (mt_table mem) y)))"
    using Cons.prems(2) by (simp add: MemTableIterator_key_def SkipListIterator_key_def)
  have valid: "MemTableIterator_Valid it" using Cons.prems(2) by (simp add: MemTableIterator_Valid_def SkipListIterator_Valid_def)
  have pivot: "user_key_int (Some 0) (fst (entry_slice (sl_key (mt_table mem) y))) = Some (node_user_int (mt_table mem) y)"
    using Cons.prems(3) by (intro user_key_int_eq) simp_all
  show ?case
  proof (cases "node_user_int (mt_table mem) y = n")
    case True
    have "MemTableIterator_Next mem it = Some (it \<lparr> mi_iter := mi_iter it \<lparr> sit_node := hd_node ys \<rparr> \<rparr>)"
      using step Cons.prems(2) by (simp add: MemTableIterator_Next_def SkipListIterator_Next_def)
    then show ?thesis
      using True valid key pivot Cons.prems(1,3) Cons.IH [of "it \<lparr> mi_iter := mi_iter it \<lparr> sit_node := hd_node ys \<rparr> \<rparr>" y]
      by (subst skip_memtable_key.simps) (simp add: path_Cons)
  next
    case False
    then show ?thesis using valid key pivot Cons.prems(2) by (subst skip_memtable_key.simps) simp
  qed
qed

lemma find_hd_dropWhile: "find P ys = hd_node (dropWhile (\<lambda>y. \<not> P y) ys)"
  by (induction ys) auto

context internal_comparator
begin

lemma SkipToNextUserKey_ok:
  assumes inv: "sl_inv (MemTable_KeyComparator user_compare) entry_ok (mt_table mem) Ls" and target: "fits32 target" "has_number target"
    and keys: "\<forall>e\<in>set (entries.list_keys (mt_table mem) Ls). 8 < length (fst (entry_slice e))"
  obtains it where "MemTableIterator_SkipToNextUserKey user_compare mem target (MemTable_NewIterator 0 mem) = Some it"
    "MemTableIterator_key mem it = map_option (\<lambda>e. fst (entry_slice e))
      (find (\<lambda>e. key_int (ExtractUserKey (fst (entry_slice e))) \<noteq> key_int (ExtractUserKey target))
        (dropWhile (\<lambda>e. MemTable_KeyComparator user_compare e (EncodeKey target) < 0) (entries.list_keys (mt_table mem) Ls)))"
proof -
  let ?below = "below (MemTable_KeyComparator user_compare) (EncodeKey target) (mt_table mem)"
  let ?n = "key_int (ExtractUserKey target)"
  let ?it = "\<lparr> mi_iter = SkipListIterator_new 0 (mt_table mem) \<lparr> sit_node := hd_node (dropWhile ?below (Ls 0)) \<rparr>, mi_seeked = True \<rparr>"
  have new: "MemTable_NewIterator 0 mem = \<lparr> mi_iter = SkipListIterator_new 0 (mt_table mem), mi_seeked = False \<rparr>"
      "sit_level (SkipListIterator_new 0 (mt_table mem)) = 0" "sit_sampled_puts (SkipListIterator_new 0 (mt_table mem)) = 0"
    by (simp_all add: MemTable_NewIterator_def SkipListIterator_new_def)
  have seek: "MemTableIterator_Seek user_compare mem target (MemTable_NewIterator 0 mem) = Some ?it"
    using entries.FindGreaterOrEqual_ok [OF inv, of "EncodeKey target" None] EncodeKey_ok [OF target(1)] target(2) new
    by (simp add: has_number_def MemTableIterator_Seek_def SkipListIterator_Seek_def first_from_def find_hd_dropWhile)
  have "path 0 0 (takeWhile ?below (Ls 0) @ dropWhile ?below (Ls 0)) (mt_table mem)"
    using entries.sl_inv_level [OF inv, of 0] by (simp add: level_ok_def kMaxHeight_def)
  then have "path 0 (last (0 # takeWhile ?below (Ls 0))) (dropWhile ?below (Ls 0)) (mt_table mem)"
    unfolding path_append by blast
  then have skip: "skip_memtable_key ?n mem ?it = Some (?it \<lparr> mi_iter := mi_iter ?it \<lparr> sit_node :=
      hd_node (dropWhile (\<lambda>y. node_user_int (mt_table mem) y = ?n) (dropWhile ?below (Ls 0))) \<rparr> \<rparr>)"
    using new(2) keys
    by (intro skip_memtable_key_path) (auto simp: entries.list_keys_def dest: set_dropWhileD)
  have "map_option (sl_key (mt_table mem)) (hd_node (dropWhile (\<lambda>y. node_user_int (mt_table mem) y = ?n) ys)) =
      find (\<lambda>e. key_int (ExtractUserKey (fst (entry_slice e))) \<noteq> ?n) (map (sl_key (mt_table mem)) ys)" for ys
    by (induction ys) auto
  moreover have "map (sl_key (mt_table mem)) (dropWhile ?below (Ls 0)) =
      dropWhile (\<lambda>e. MemTable_KeyComparator user_compare e (EncodeKey target) < 0) (entries.list_keys (mt_table mem) Ls)"
    by (simp add: entries.list_keys_def dropWhile_map o_def below_def [abs_def])
  ultimately show ?thesis
    using that seek skip new(1) user_key_int_has_number [OF target(2)]
    by (simp add: MemTableIterator_SkipToNextUserKey_def MemTableIterator_key_def SkipListIterator_key_def)
qed

end

subsection \<open>The encoding of a holder\<close>

text \<open>
  A holder decoded into a fresh one has the fields that were written. When its memtable is not flushed, the receiver
  makes an empty memtable that is not ready for requests and holds no reference.
\<close>

lemma AtomicMemTable_Decode_Encode:
  assumes "am_memtable a\<^sub>0 = None" "am_l0_file_numbers a\<^sub>0 = []" "sorted_wrt (<) (am_l0_file_numbers a)"
    and "length (am_l0_file_numbers a) < 2 ^ 32" "0 \<le> am_nentries a" "am_nentries a < 2 ^ 32"
  shows "AtomicMemTable_Decode a\<^sub>0 (AtomicMemTable_Encode a @ rest) = Some ((am_is_flushed a,
    a\<^sub>0 \<lparr> am_is_immutable := am_is_immutable a, am_is_flushed := am_is_flushed a, am_last_version_id := am_last_version_id a,
      am_memtable_id := am_memtable_id a, am_nentries := am_nentries a, am_memtable_size := am_memtable_size a,
      am_l0_file_numbers := am_l0_file_numbers a,
      am_memtable := if am_is_flushed a then None else Some (MemTable_new (am_memtable_id a) False) \<rparr>), rest)"
  using assms fold_set_insert_ascending [of "[]" "am_l0_file_numbers a"] fixed64.decode_n_enc [of "am_l0_file_numbers a" rest]
  by (cases a\<^sub>0) (simp add: unsigned_of_int take_bit_int_eq_self list_all_iff AtomicMemTable_Decode_def AtomicMemTable_Encode_def codec_simps Let_def unat_of_nat)

text \<open>
  Such a memtable is lost with its first reader: the reader's reference is the only one, so that releasing it frees
  the memtable although it was never flushed.
\<close>

lemma decoded_memtable_freed:
  assumes "am_memtable a\<^sub>0 = None" "am_l0_file_numbers a\<^sub>0 = []" "sorted_wrt (<) (am_l0_file_numbers a)"
    and "length (am_l0_file_numbers a) < 2 ^ 32" "0 \<le> am_nentries a" "am_nentries a < 2 ^ 32" "\<not> am_is_flushed a"
  obtains a\<^sub>1 a\<^sub>2 where "AtomicMemTable_Decode a\<^sub>0 (AtomicMemTable_Encode a @ rest) = Some ((False, a\<^sub>1), rest)"
    "am_memtable a\<^sub>1 \<noteq> None" "AtomicMemTable_Unref 1 (snd (AtomicMemTable_RefMemTable a\<^sub>1)) = Some a\<^sub>2"
    "am_memtable a\<^sub>2 = None" "\<not> am_is_flushed a\<^sub>2"
  using that AtomicMemTable_Decode_Encode [OF assms(1-6), of rest] assms(7)
  by (simp add: AtomicMemTable_RefMemTable_def AtomicMemTable_Unref_def drop_refs_def MemTable_Unref_def MemTable_Ref_def
      MemTable_new_def Let_def)

subsection \<open>References\<close>

text \<open>
  A holder together with the number of references its readers have. The steps are the operations of the holder,
  interleaved in any order: the thread that installs a memtable, the writers that make it immutable, the readers that
  take and drop references, and the flushing thread. The count is a C++ \<^verbatim>\<open>int\<close>; readers stay below its limit.
\<close>

inductive holder_step :: "AtomicMemTable \<times> nat \<Rightarrow> AtomicMemTable \<times> nat \<Rightarrow> bool" where
  install: "am_memtable a = None \<Longrightarrow> mt_refs mem = 0 \<Longrightarrow> holder_step (a, 0) (AtomicMemTable_SetMemTable generation mem a, 0)"
| immutable: "holder_step (a, n) (a \<lparr> am_is_immutable := True \<rparr>, n)"
| ref: "n + 2 < 2 ^ 31 \<Longrightarrow> AtomicMemTable_RefMemTable a = (taken, a') \<Longrightarrow> holder_step (a, n) (a', if taken then n + 1 else n)"
| unref: "0 < c \<Longrightarrow> unat c \<le> n \<Longrightarrow> AtomicMemTable_Unref c a = Some a' \<Longrightarrow> holder_step (a, n) (a', n - unat c)"
| flushed: "AtomicMemTable_SetFlushed l0s version_id a = Some a' \<Longrightarrow> holder_step (a, n) (a', n)"
| update: "AtomicMemTable_UpdateL0Files version_id edit a = Some a' \<Longrightarrow> holder_step (a, n) (a', n)"

text \<open>The holder owns one reference until its memtable is flushed, and every reader owns those it took.\<close>

definition holder_ok :: "AtomicMemTable \<times> nat \<Rightarrow> bool" where
  "holder_ok an = (case an of (a, n) \<Rightarrow>
     (\<not> am_is_flushed a \<longrightarrow> am_l0_file_numbers a = []) \<and> sorted_wrt (<) (am_l0_file_numbers a) \<and> n + 1 < 2 ^ 31 \<and>
     (case am_memtable a of
        None \<Rightarrow> n = 0
      | Some mem \<Rightarrow> mt_refs mem = int n + (if am_is_flushed a then 0 else 1) \<and> mt_refs mem > 0))"

lemmas holder_defs = holder_ok_def AtomicMemTable_SetMemTable_def AtomicMemTable_RefMemTable_def AtomicMemTable_Unref_def
  AtomicMemTable_SetFlushed_def AtomicMemTable_UpdateL0Files_def drop_refs_def MemTable_Ref_def MemTable_Unref_def

lemma fold_set_insert_sorted: "sorted_wrt (<) xs \<Longrightarrow> sorted_wrt (<) (fold set_insert ys xs)"
  by (induction ys arbitrary: xs) (simp_all add: sorted_set_insert)

lemma fold_filter_sorted: "sorted_wrt (<) xs \<Longrightarrow> sorted_wrt (<) (fold (\<lambda>r. filter (\<lambda>x. x \<noteq> r)) rs xs)"
  by (induction rs arbitrary: xs) (simp_all add: sorted_wrt_filter)

lemma drop_refs_Some:
  assumes "am_memtable a = Some mem" "mt_refs mem = int r" "unat c \<le> r"
  shows "drop_refs c a = Some (a \<lparr> am_memtable := if unat c = r then None else Some (mem \<lparr> mt_refs := int (r - unat c) \<rparr>) \<rparr>)"
proof -
  define m where "m = unat c"
  have "uint c = int m" by (simp add: m_def)
  then show ?thesis using assms unfolding m_def [symmetric] by (auto simp: drop_refs_def MemTable_Unref_def Let_def of_nat_diff)
qed

lemma holder_release:
  assumes "holder_ok (a, n)" "0 < c" "unat c \<le> n"
  obtains a' where "AtomicMemTable_Unref c a = Some a'" "am_memtable a' = None \<longleftrightarrow> am_is_flushed a \<and> unat c = n"
    "holder_ok (a', n - unat c)"
proof -
  have "0 < unat c" using assms(2) by (simp add: unat_gt_0)
  then obtain mem where mem: "am_memtable a = Some mem" "mt_refs mem = int (n + (if am_is_flushed a then 0 else 1))"
    using assms by (auto simp: holder_ok_def split: option.splits)
  define r where "r = n + (if am_is_flushed a then 0 else 1)"
  have "AtomicMemTable_Unref c a = Some (a \<lparr> am_memtable := if unat c = r then None else Some (mem \<lparr> mt_refs := int (r - unat c) \<rparr>) \<rparr>)"
    using drop_refs_Some [OF mem [folded r_def]] assms(3) by (simp add: AtomicMemTable_Unref_def r_def)
  moreover have "unat c = r \<longleftrightarrow> am_is_flushed a \<and> unat c = n" using assms(3) by (auto simp: r_def)
  moreover have "int (r - unat c) = int (n - unat c) + (if am_is_flushed a then 0 else 1)" "unat c \<noteq> r \<longrightarrow> 0 < int (n - unat c) + (if am_is_flushed a then 0 else 1)"
    using assms(3) by (auto simp: r_def simp del: of_nat_diff)
  moreover have "n - unat c < 2147483647" using assms(1) by (auto simp: holder_ok_def)
  ultimately show ?thesis using that assms(1) by (cases "unat c = r") (simp_all add: holder_ok_def del: of_nat_diff)
qed

lemma holder_step_ok: "holder_step an an' \<Longrightarrow> holder_ok an \<Longrightarrow> holder_ok an'"
proof (induction rule: holder_step.induct)
  case (flushed l0s version_id a a' n)
  then show ?case using fold_set_insert_sorted [of "[]" l0s]
    by (auto simp: holder_defs Let_def split: if_splits option.splits)
next
  case (update version_id edit a a' n)
  then show ?case using fold_filter_sorted [OF fold_set_insert_sorted, of "am_l0_file_numbers a" "mle_remove_fns edit" "mle_add_fns edit"]
    by (auto simp: holder_defs Let_def split: if_splits option.splits)
next
  case (unref c n a a')
  show ?case by (rule holder_release [OF unref.prems unref.hyps(1,2)]) (use unref.hyps(3) in simp)
qed (auto simp: holder_defs split: option.splits)

lemma holder_reachable_ok: "holder_step\<^sup>*\<^sup>* an an' \<Longrightarrow> holder_ok an \<Longrightarrow> holder_ok an'"
  by (induction rule: rtranclp_induct) (auto intro: holder_step_ok)

text \<open>
  (C38) The operations on a shared memtable never use a freed one. Whatever the interleaving of installing, referencing,
  releasing, flushing and updating, the count is the number of references the readers hold, plus one until the
  memtable is flushed, and fits its \<^verbatim>\<open>int\<close>; a memtable with readers is present; a reader's release never fails an
  assertion, and it frees the memtable exactly when it gives back the last reference of a flushed one; flushing an
  immutable memtable that is not flushed fails no assertion, records the new tables, and frees the memtable exactly
  when it has no reader.
\<close>

theorem atomic_memtable_refs:
  assumes "am_memtable a\<^sub>0 = None" "\<not> am_is_flushed a\<^sub>0" "am_l0_file_numbers a\<^sub>0 = []"
    and "holder_step\<^sup>*\<^sup>* (a\<^sub>0, 0) (a, n)"
  shows "(am_memtable a = None \<longrightarrow> n = 0) \<and>
    (\<forall>mem. am_memtable a = Some mem \<longrightarrow> mt_refs mem = int n + (if am_is_flushed a then 0 else 1) \<and> mt_refs mem < 2 ^ 31) \<and>
    (\<forall>c. 0 < c \<and> unat c \<le> n \<longrightarrow> (\<exists>a'. AtomicMemTable_Unref c a = Some a' \<and>
      (am_memtable a' = None \<longleftrightarrow> am_is_flushed a \<and> unat c = n))) \<and>
    (\<forall>l0s version_id. am_memtable a \<noteq> None \<and> am_is_immutable a \<and> \<not> am_is_flushed a \<longrightarrow>
      (\<exists>a'. AtomicMemTable_SetFlushed l0s version_id a = Some a' \<and> set (am_l0_file_numbers a') = set l0s \<and>
        (am_memtable a' = None \<longleftrightarrow> n = 0)))"
proof -
  have ok: "holder_ok (a, n)"
    using holder_reachable_ok [OF assms(4)] assms(1-3) by (simp add: holder_ok_def)
  have release: "\<exists>a'. AtomicMemTable_Unref c a = Some a' \<and> (am_memtable a' = None \<longleftrightarrow> am_is_flushed a \<and> unat c = n)"
    if "0 < c" "unat c \<le> n" for c
    using holder_release [OF ok that] by metis
  have flush: "\<exists>a'. AtomicMemTable_SetFlushed l0s version_id a = Some a' \<and> set (am_l0_file_numbers a') = set l0s \<and>
      (am_memtable a' = None \<longleftrightarrow> n = 0)"
    if "am_memtable a \<noteq> None" "am_is_immutable a" "\<not> am_is_flushed a" for l0s version_id
    using ok that by (auto simp: holder_defs Let_def set_fold_set_insert)
  show ?thesis
    using ok release flush by (auto simp: holder_ok_def split: option.splits)
qed

definition fresh_holder :: AtomicMemTable where
  "fresh_holder = \<lparr> am_is_immutable = False, am_is_flushed = False, am_generation_id = 0, am_is_scheduled_for_flushing = False,
     am_last_version_id = 0, am_memtable_id = 0, am_l0_file_numbers = [], am_memtable = None, am_nentries = 0,
     am_memtable_size = 0, am_number_of_pending_writes = 0 \<rparr>"

theorem atomic_memtable_refs_witness:
  "\<exists>a a'. holder_step\<^sup>*\<^sup>* (fresh_holder, 0) (a, 1) \<and> am_is_flushed a \<and> am_memtable a \<noteq> None \<and>
    AtomicMemTable_Unref 1 a = Some a' \<and> am_memtable a' = None"
proof -
  define a1 where "a1 = AtomicMemTable_SetMemTable 7 (MemTable_new 3 True) fresh_holder"
  define a2 where "a2 = snd (AtomicMemTable_RefMemTable a1)"
  define a3 where "a3 = a2 \<lparr> am_is_immutable := True \<rparr>"
  obtain a4 where a4: "AtomicMemTable_SetFlushed [12] 5 a3 = Some a4" "am_is_flushed a4" "am_memtable a4 \<noteq> None"
    by (auto simp: a3_def a2_def a1_def fresh_holder_def MemTable_new_def holder_defs Let_def)
  have "holder_step (fresh_holder, 0) (a1, 0)"
    unfolding a1_def by (rule holder_step.install) (simp_all add: fresh_holder_def MemTable_new_def)
  moreover have "holder_step (a1, 0) (a2, 1)"
    using holder_step.ref [of 0 a1 True a2] by (simp add: a2_def a1_def holder_defs)
  moreover have "holder_step (a2, 1) (a3, 1)" unfolding a3_def by (rule holder_step.immutable)
  moreover have "holder_step (a3, 1) (a4, 1)" by (rule holder_step.flushed [OF a4(1)])
  ultimately have steps: "holder_step\<^sup>*\<^sup>* (fresh_holder, 0) (a4, 1)" by (meson converse_rtranclp_into_rtranclp rtranclp.rtrancl_refl)
  have "\<forall>c. 0 < c \<and> unat c \<le> 1 \<longrightarrow>
      (\<exists>a'. AtomicMemTable_Unref c a4 = Some a' \<and> (am_memtable a' = None \<longleftrightarrow> am_is_flushed a4 \<and> unat c = 1))"
    using atomic_memtable_refs [OF _ _ _ steps] by (simp add: fresh_holder_def)
  from this [THEN spec, of 1] have "\<exists>a'. AtomicMemTable_Unref 1 a4 = Some a' \<and> am_memtable a' = None"
    using a4(2) by simp
  then show ?thesis using steps a4(2,3) by blast
qed

text \<open>
  (C37) A memtable answers a lookup with the newest version that the snapshot sees. Whatever operations were added, in
  any order of their sequence numbers, as long as no two write the same key under the same number: adding fails no
  assertion, and the lookup finds the value of the version with the greatest sequence number up to the snapshot,
  reports a deletion as not found, and leaves value and status alone when there is no such version.
\<close>

theorem memtable_get_newest:
  assumes "\<forall>op\<in>set ops. mem_op_ok op" "ops_distinct YCSB_Compare ops"
    and "length u + 8 < 2 ^ 32" "snapshot \<le> kMaxSequenceNumber"
  shows "\<exists>mem. add_ops YCSB_Compare ops (MemTable_new mid ready) = Some mem \<and>
    MemTable_Get YCSB_Compare (LookupKey_new u snapshot) value st mem =
      Some (case newest YCSB_Compare u snapshot ops of None \<Rightarrow> (False, value, st) | Some (s, t, v) \<Rightarrow> entry_result t v value st)"
  using internal_ycsb.add_ops_new [OF assms(1,2)] internal_ycsb.MemTable_Get_newest [OF assms] by metis

theorem memtable_get_newest_witness:
  "\<exists>mem. add_ops YCSB_Compare [(4, kTypeValue, [49], [8]), (2, kTypeDeletion, [50], []), (3, kTypeValue, [49], [7])]
      (MemTable_new 1 True) = Some mem \<and>
    MemTable_Get YCSB_Compare (LookupKey_new [49] 3) [] Status_OK mem = Some (True, [7], Status_OK)"
proof -
  let ?ops = "[(4, kTypeValue, [49], [8]), (2, kTypeDeletion, [50], []), (3, kTypeValue, [49], [7])]"
  have "newest YCSB_Compare [49] 3 ?ops = Some (3, kTypeValue, [7])" by code_simp
  moreover have "ops_distinct YCSB_Compare ?ops" by (simp add: ops_distinct_def)
  ultimately show ?thesis
    using memtable_get_newest [of ?ops "[49]" 3 1 True "[]" Status_OK] by (simp add: kMaxSequenceNumber_def entry_result_def)
qed

end
