(* ===== verification/WriteBatches.thy ===== *)
theory WriteBatches
  imports MemTables
begin

text \<open>
  Write batches (\<^verbatim>\<open>db/write_batch.cc\<close>): the string a client builds from put and delete operations, its iteration, and
  its insertion into a memtable under consecutive sequence numbers.
\<close>

subsection \<open>Write batches\<close>

text \<open>
  A batch is the string \<^verbatim>\<open>rep_\<close>: a sequence number, a count and the operations. The count is a signed 32-bit number.
  Storing to a position inside the string is undefined when the string is shorter than the header; the batches a
  program can build are not.
\<close>

definition kHeader :: nat where
  "kHeader = 12"

definition WriteBatch_Clear :: bytes where
  "WriteBatch_Clear = replicate kHeader 0"

definition WriteBatch_ApproximateSize :: "bytes \<Rightarrow> nat" where
  "WriteBatch_ApproximateSize rep = length rep"

definition WriteBatch_Count :: "bytes \<Rightarrow> int" where
  "WriteBatch_Count rep = (case DecodeFixed32_ptr (drop 8 rep) of Some v \<Rightarrow> sint v | None \<Rightarrow> 0)"

definition WriteBatch_SetCount :: "int \<Rightarrow> bytes \<Rightarrow> bytes" where
  "WriteBatch_SetCount n rep = take 8 rep @ EncodeFixed32 (of_int n) @ drop 12 rep"

definition WriteBatch_Sequence :: "bytes \<Rightarrow> SequenceNumber" where
  "WriteBatch_Sequence rep = (case DecodeFixed64_ptr rep of Some v \<Rightarrow> v | None \<Rightarrow> 0)"

definition WriteBatch_SetSequence :: "SequenceNumber \<Rightarrow> bytes \<Rightarrow> bytes" where
  "WriteBatch_SetSequence seq rep = EncodeFixed64 seq @ drop 8 rep"

definition WriteBatch_Put :: "bytes \<Rightarrow> bytes \<Rightarrow> bytes \<Rightarrow> bytes" where
  "WriteBatch_Put key value rep =
     (let rep = WriteBatch_SetCount (WriteBatch_Count rep + 1) rep;
          rep = rep @ [ucast (ValueType_code kTypeValue)];
          rep = PutLengthPrefixedSlice rep key
      in PutLengthPrefixedSlice rep value)"

definition WriteBatch_Delete :: "bytes \<Rightarrow> bytes \<Rightarrow> bytes" where
  "WriteBatch_Delete key rep =
     (let rep = WriteBatch_SetCount (WriteBatch_Count rep + 1) rep;
          rep = rep @ [ucast (ValueType_code kTypeDeletion)]
      in PutLengthPrefixedSlice rep key)"

definition WriteBatch_Append :: "bytes \<Rightarrow> bytes \<Rightarrow> bytes option" where
  "WriteBatch_Append src dst =
     (let dst = WriteBatch_SetCount (WriteBatch_Count dst + WriteBatch_Count src) dst in
      if length src \<ge> kHeader then Some (dst @ drop kHeader src) else None)"

definition WriteBatch_SetContents :: "bytes \<Rightarrow> bytes option" where
  "WriteBatch_SetContents contents = (if length contents \<ge> kHeader then Some contents else None)"

lemma GetVarint32PtrFallback_loop_length:
  "GetVarint32PtrFallback_loop shift result p = Some (v, rest) \<Longrightarrow> length rest < length p"
  by (induction shift result p rule: GetVarint32PtrFallback_loop.induct) (auto simp: Let_def split: if_splits)

lemma GetLengthPrefixedSlice_length:
  "GetLengthPrefixedSlice input = Some (x, rest) \<Longrightarrow> length rest < length input"
  using GetVarint32PtrFallback_loop_length
  by (auto simp: GetLengthPrefixedSlice_def GetVarint32_def GetVarint32Ptr_eq_Fallback GetVarint32PtrFallback_def
      split: Option.bind_splits if_splits) (fastforce dest: GetVarint32PtrFallback_loop_length)

text \<open>
  The loop of \<^verbatim>\<open>Iterate\<close> over the operations, for a handler given by its two callbacks on a state; a callback is
  \<open>None\<close> when it aborts. The result is the status, the number of operations found and the state of the handler.
\<close>

function WriteBatch_Iterate_loop ::
    "(bytes \<Rightarrow> bytes \<Rightarrow> 'h \<Rightarrow> 'h option) \<Rightarrow> (bytes \<Rightarrow> 'h \<Rightarrow> 'h option) \<Rightarrow> bytes \<Rightarrow> int \<Rightarrow> 'h \<Rightarrow> (status \<times> int \<times> 'h) option" where
  "WriteBatch_Iterate_loop put delete input found h =
     (case input of
        [] \<Rightarrow> Some (Status_OK, found, h)
      | tag # input \<Rightarrow>
          let found = found + 1 in
          if tag = ucast (ValueType_code kTypeValue) then
            (case GetLengthPrefixedSlice input of
               None \<Rightarrow> Some (Status_Corruption (cstr ''bad WriteBatch Put'') [], found, h)
             | Some (key, input') \<Rightarrow> (case GetLengthPrefixedSlice input' of
                 None \<Rightarrow> Some (Status_Corruption (cstr ''bad WriteBatch Put'') [], found, h)
               | Some (value, input'') \<Rightarrow> (case put key value h of
                   None \<Rightarrow> None
                 | Some h' \<Rightarrow> WriteBatch_Iterate_loop put delete input'' found h')))
          else if tag = ucast (ValueType_code kTypeDeletion) then
            (case GetLengthPrefixedSlice input of
               None \<Rightarrow> Some (Status_Corruption (cstr ''bad WriteBatch Delete'') [], found, h)
             | Some (key, input') \<Rightarrow> (case delete key h of
                 None \<Rightarrow> None
               | Some h' \<Rightarrow> WriteBatch_Iterate_loop put delete input' found h'))
          else Some (Status_Corruption (cstr ''unknown WriteBatch tag'') [], found, h))"
  by pat_completeness auto
termination
  by (relation "measure (\<lambda>(put, delete, input, found, h). length input)")
    (auto dest!: GetLengthPrefixedSlice_length)

declare WriteBatch_Iterate_loop.simps [simp del]

definition WriteBatch_Iterate ::
    "(bytes \<Rightarrow> bytes \<Rightarrow> 'h \<Rightarrow> 'h option) \<Rightarrow> (bytes \<Rightarrow> 'h \<Rightarrow> 'h option) \<Rightarrow> bytes \<Rightarrow> 'h \<Rightarrow> (status \<times> 'h) option" where
  "WriteBatch_Iterate put delete rep h =
     (if length rep < kHeader then Some (Status_Corruption (cstr ''malformed WriteBatch (too small)'') [], h)
      else case WriteBatch_Iterate_loop put delete (drop kHeader rep) 0 h of
        None \<Rightarrow> None
      | Some (s, found, h) \<Rightarrow>
          if \<not> Status_ok s then Some (s, h)
          else if found \<noteq> WriteBatch_Count rep then Some (Status_Corruption (cstr ''WriteBatch has wrong count'') [], h)
          else Some (Status_OK, h))"

text \<open>The handler that inserts into a memtable.\<close>

definition MemTableInserter_Put ::
    "(bytes \<Rightarrow> bytes \<Rightarrow> int) \<Rightarrow> bytes \<Rightarrow> bytes \<Rightarrow> SequenceNumber \<times> MemTable \<Rightarrow> (SequenceNumber \<times> MemTable) option" where
  "MemTableInserter_Put user_compare key value h = (case h of (sequence, mem) \<Rightarrow>
     map_option (\<lambda>mem. (sequence + 1, mem)) (MemTable_Add user_compare sequence kTypeValue key value mem))"

definition MemTableInserter_Delete ::
    "(bytes \<Rightarrow> bytes \<Rightarrow> int) \<Rightarrow> bytes \<Rightarrow> SequenceNumber \<times> MemTable \<Rightarrow> (SequenceNumber \<times> MemTable) option" where
  "MemTableInserter_Delete user_compare key h = (case h of (sequence, mem) \<Rightarrow>
     map_option (\<lambda>mem. (sequence + 1, mem)) (MemTable_Add user_compare sequence kTypeDeletion key [] mem))"

definition WriteBatch_InsertInto :: "(bytes \<Rightarrow> bytes \<Rightarrow> int) \<Rightarrow> bytes \<Rightarrow> MemTable \<Rightarrow> (status \<times> MemTable) option" where
  "WriteBatch_InsertInto user_compare rep memtable =
     map_option (\<lambda>(s, h). (s, snd h))
       (WriteBatch_Iterate (MemTableInserter_Put user_compare) (MemTableInserter_Delete user_compare) rep
         (WriteBatch_Sequence rep, memtable))"

subsection \<open>The string of a batch\<close>

datatype batch_op = Batch_Put bytes bytes | Batch_Delete bytes

fun apply_op :: "batch_op \<Rightarrow> bytes \<Rightarrow> bytes" where
  "apply_op (Batch_Put k v) rep = WriteBatch_Put k v rep"
| "apply_op (Batch_Delete k) rep = WriteBatch_Delete k rep"

fun batch_op_ok :: "batch_op \<Rightarrow> bool" where
  "batch_op_ok (Batch_Put k v) \<longleftrightarrow> fits32 k \<and> fits32 v"
| "batch_op_ok (Batch_Delete k) \<longleftrightarrow> fits32 k"

fun op_bytes :: "batch_op \<Rightarrow> bytes" where
  "op_bytes (Batch_Put k v) = 1 # PutLengthPrefixedSlice [] k @ PutLengthPrefixedSlice [] v"
| "op_bytes (Batch_Delete k) = 0 # PutLengthPrefixedSlice [] k"

text \<open>The string of a batch: sequence number, number of operations, operations.\<close>

definition batch_string :: "SequenceNumber \<Rightarrow> batch_op list \<Rightarrow> bytes" where
  "batch_string s ops = EncodeFixed64 s @ EncodeFixed32 (of_nat (length ops)) @ concat (map op_bytes ops)"

lemma PutLengthPrefixedSlice_append: "PutLengthPrefixedSlice dst x = dst @ PutLengthPrefixedSlice [] x"
  by (simp add: PutLengthPrefixedSlice_def PutVarint32_def)

lemma Clear_batch: "WriteBatch_Clear = batch_string 0 []"
  by (simp add: WriteBatch_Clear_def batch_string_def kHeader_def EncodeFixed64_def EncodeFixed32_def eval_nat_numeral)

lemma sint_of_nat_less: "n < 2 ^ 31 \<Longrightarrow> sint (of_nat n :: u32) = int n"
  by (simp add: signed_of_nat signed_take_bit_int_eq_self)

lemma Count_batch: "WriteBatch_Count (batch_string s ops) = sint (of_nat (length ops) :: u32)"
  by (simp add: WriteBatch_Count_def batch_string_def DecodeFixed32_ptr_Encode)

lemma SetCount_batch:
  "WriteBatch_SetCount n (batch_string s ops) = EncodeFixed64 s @ EncodeFixed32 (of_int n) @ concat (map op_bytes ops)"
  by (simp add: WriteBatch_SetCount_def batch_string_def)

lemma Sequence_batch: "WriteBatch_Sequence (batch_string s ops) = s"
  by (simp add: WriteBatch_Sequence_def batch_string_def DecodeFixed64_ptr_Encode)

lemma SetSequence_batch: "WriteBatch_SetSequence s (batch_string s' ops) = batch_string s ops"
  by (simp add: WriteBatch_SetSequence_def batch_string_def)

lemma SetCount_more:
  "WriteBatch_SetCount (WriteBatch_Count (batch_string s ops) + int n) (batch_string s ops) @ rest =
   EncodeFixed64 s @ EncodeFixed32 (of_nat (length ops + n)) @ concat (map op_bytes ops) @ rest"
  by (simp add: SetCount_batch Count_batch)

lemma apply_op_batch: "apply_op op (batch_string s ops) = batch_string s (ops @ [op])"
  using SetCount_more [of s ops 1]
  by (cases op) (simp_all add: WriteBatch_Put_def WriteBatch_Delete_def Let_def batch_string_def [of s "ops @ [op]" for op]
      PutLengthPrefixedSlice_append [of "_ @ _"])

lemma fold_apply_op: "fold apply_op ops' (batch_string s ops) = batch_string s (ops @ ops')"
  by (induction ops' arbitrary: ops) (simp_all add: apply_op_batch)

lemma Append_batch:
  assumes "length ops' < 2 ^ 31"
  shows "WriteBatch_Append (batch_string s' ops') (batch_string s ops) = Some (batch_string s (ops @ ops'))"
proof -
  have "WriteBatch_Count (batch_string s' ops') = int (length ops')"
    using assms by (simp add: Count_batch sint_of_nat_less)
  then show ?thesis
    using SetCount_more [of s ops "length ops'"]
    by (simp add: WriteBatch_Append_def Let_def kHeader_def)
      (simp add: batch_string_def [of s "ops @ ops'"] batch_string_def [of s' ops'])
qed

subsection \<open>Iteration\<close>

fun run_ops :: "(bytes \<Rightarrow> bytes \<Rightarrow> 'h \<Rightarrow> 'h option) \<Rightarrow> (bytes \<Rightarrow> 'h \<Rightarrow> 'h option) \<Rightarrow> batch_op list \<Rightarrow> 'h \<Rightarrow> 'h option" where
  "run_ops put delete [] h = Some h"
| "run_ops put delete (Batch_Put k v # ops) h = Option.bind (put k v h) (run_ops put delete ops)"
| "run_ops put delete (Batch_Delete k # ops) h = Option.bind (delete k h) (run_ops put delete ops)"

lemma Iterate_loop_ops:
  "\<forall>op\<in>set ops. batch_op_ok op \<Longrightarrow> WriteBatch_Iterate_loop put delete (concat (map op_bytes ops)) found h =
   map_option (\<lambda>h. (Status_OK, found + int (length ops), h)) (run_ops put delete ops h)"
proof (induction ops arbitrary: found h)
  case (Cons op ops)
  then show ?case
    by (cases op) (auto simp: WriteBatch_Iterate_loop.simps [of put delete "_ # _"] codec_simps Let_def o_def option.map_comp
        algebra_simps split: option.splits Option.bind_splits)
qed (simp add: WriteBatch_Iterate_loop.simps)

lemma Iterate_batch:
  assumes "\<forall>op\<in>set ops. batch_op_ok op" "length ops < 2 ^ 31"
  shows "WriteBatch_Iterate put delete (batch_string s ops) h = map_option (Pair Status_OK) (run_ops put delete ops h)"
  using assms Iterate_loop_ops [OF assms(1), of put delete 0 h] Count_batch [of s ops]
  by (simp add: WriteBatch_Iterate_def kHeader_def sint_of_nat_less status_simps)
     (simp add: batch_string_def status_simps split: option.splits)

text \<open>The operations of a batch under consecutive sequence numbers.\<close>

fun numbered :: "SequenceNumber \<Rightarrow> batch_op list \<Rightarrow> mem_op list" where
  "numbered s [] = []"
| "numbered s (Batch_Put k v # ops) = (s, kTypeValue, k, v) # numbered (s + 1) ops"
| "numbered s (Batch_Delete k # ops) = (s, kTypeDeletion, k, []) # numbered (s + 1) ops"

lemma run_ops_inserter:
  "run_ops (MemTableInserter_Put user_compare) (MemTableInserter_Delete user_compare) ops (s, mem) =
   map_option (Pair (s + of_nat (length ops))) (add_ops user_compare (numbered s ops) mem)"
proof (induction s ops arbitrary: mem rule: numbered.induct)
  case (2 s k v ops)
  then show ?case
    by (cases "MemTable_Add user_compare s kTypeValue k v mem") (simp_all add: MemTableInserter_Put_def algebra_simps)
next
  case (3 s k ops)
  then show ?case
    by (cases "MemTable_Add user_compare s kTypeDeletion k [] mem") (simp_all add: MemTableInserter_Delete_def algebra_simps)
qed simp

lemma InsertInto_batch:
  assumes "\<forall>op\<in>set ops. batch_op_ok op" "length ops < 2 ^ 31"
  shows "WriteBatch_InsertInto user_compare (batch_string s ops) mem =
    map_option (Pair Status_OK) (add_ops user_compare (numbered s ops) mem)"
  by (simp add: WriteBatch_InsertInto_def Iterate_batch [OF assms] run_ops_inserter Sequence_batch option.map_comp o_def)

subsection \<open>Reading what a batch wrote\<close>

fun batch_key :: "batch_op \<Rightarrow> bytes" where
  "batch_key (Batch_Put k v) = k"
| "batch_key (Batch_Delete k) = k"

fun read_result :: "batch_op option \<Rightarrow> bytes \<Rightarrow> status \<Rightarrow> bool \<times> bytes \<times> status" where
  "read_result None value st = (False, value, st)"
| "read_result (Some (Batch_Put k v)) value st = (True, v, st)"
| "read_result (Some (Batch_Delete k)) value st = (True, value, Status_NotFound [] [])"

fun number_op :: "SequenceNumber \<Rightarrow> batch_op \<Rightarrow> mem_op" where
  "number_op s (Batch_Put k v) = (s, kTypeValue, k, v)"
| "number_op s (Batch_Delete k) = (s, kTypeDeletion, k, [])"

lemma number_op_seq: "fst (number_op s op) = s"
  by (cases op) simp_all

lemma number_op_key: "number_op s op = (s', t, k, v) \<Longrightarrow> s' = s \<and> k = batch_key op"
  by (cases op) simp_all

lemma numbered_snoc: "numbered s (ops @ [op]) = numbered s ops @ [number_op (s + of_nat (length ops)) op]"
proof (induction s ops rule: numbered.induct)
  case (1 s)
  then show ?case by (cases op) simp_all
qed (simp_all add: add.assoc)

lemma unat_add_of_nat:
  fixes s :: u64
  assumes "unat s + n < 2 ^ 64"
  shows "unat (s + of_nat n) = unat s + n"
  using assms by (simp add: unat_word_ariths unat_of_nat)

lemma numbered_bounds:
  "unat s + length ops < 2 ^ 64 \<Longrightarrow> x \<in> set (numbered s ops) \<Longrightarrow> unat s \<le> unat (fst x) \<and> unat (fst x) < unat s + length ops"
proof (induction ops rule: rev_induct)
  case (snoc op ops)
  then show ?case using unat_add_of_nat [of s "length ops"] by (auto simp: numbered_snoc number_op_seq)
qed simp

text \<open>What a snapshot sees of a batch is the last operation on the key among the operations it covers.\<close>

lemma newest_numbered:
  assumes "unat s + length ops < 2 ^ 64" "s \<le> snapshot"
  shows "(case newest user_compare u snapshot (numbered s ops) of
      None \<Rightarrow> (False, val, st) | Some (s, t, v) \<Rightarrow> entry_result t v val st) =
    read_result (find (\<lambda>op. user_compare (batch_key op) u = 0) (rev (take (unat (snapshot - s) + 1) ops))) val st"
  using assms(1)
proof (induction ops rule: rev_induct)
  case Nil
  then show ?case by (simp add: newest_def)
next
  case (snoc op ops)
  let ?n = "s + of_nat (length ops)"
  have n: "unat ?n = unat s + length ops" using unat_add_of_nat [of s "length ops"] snoc.prems by simp
  have diff: "unat (snapshot - s) = unat snapshot - unat s" using assms(2) by (simp add: unat_sub word_le_nat_alt)
  have seen: "?n \<le> snapshot \<longleftrightarrow> length ops < unat (snapshot - s) + 1"
    using n diff assms(2) by (auto simp: word_le_nat_alt)
  have older: "case newest user_compare u snapshot (numbered s ops) of None \<Rightarrow> True | Some (s', _) \<Rightarrow> s' < ?n"
  proof (cases "newest user_compare u snapshot (numbered s ops)")
    case (Some best)
    obtain s' t' v' where best: "best = (s', t', v')" by (cases best)
    obtain k' where "(s', t', k', v') \<in> set (numbered s ops)"
      using newest_spec [THEN conjunct2, THEN spec, THEN spec, THEN spec, THEN mp, OF Some [unfolded best]] by blast
    then show ?thesis using numbered_bounds [of s ops "(s', t', k', v')"] snoc.prems n Some best by (simp add: word_less_nat_alt)
  qed simp
  obtain t v where op: "number_op ?n op = (?n, t, batch_key op, v)"
      "entry_result t v val st = read_result (Some op) val st"
    by (cases op) (auto simp: entry_result_def)
  show ?case
  proof (cases "?n \<le> snapshot")
    case True
    then show ?thesis using snoc older seen op by (simp add: numbered_snoc newest_snoc)
  next
    case False
    then show ?thesis using snoc seen op by (simp add: numbered_snoc newest_snoc)
  qed
qed

lemma numbered_distinct:
  "unat s + length ops < 2 ^ 64 \<Longrightarrow> ops_distinct user_compare (numbered s ops)"
proof (induction ops rule: rev_induct)
  case (snoc op ops)
  have "\<not> same_version user_compare x (number_op (s + of_nat (length ops)) op)" if "x \<in> set (numbered s ops)" for x
    using numbered_bounds [of s ops x] that snoc.prems unat_add_of_nat [of s "length ops"]
    by (cases x; cases op) auto
  then show ?case using snoc by (simp add: ops_distinct_def numbered_snoc sorted_wrt_append)
qed (simp add: ops_distinct_def)

fun batch_op_fits :: "batch_op \<Rightarrow> bool" where
  "batch_op_fits (Batch_Put k v) \<longleftrightarrow> length k + 8 < 2 ^ 32 \<and> fits32 v"
| "batch_op_fits (Batch_Delete k) \<longleftrightarrow> length k + 8 < 2 ^ 32"

lemma batch_op_fits_ok: "batch_op_fits op \<Longrightarrow> batch_op_ok op"
  by (cases op) auto

lemma numbered_ok:
  "\<forall>op\<in>set ops. batch_op_fits op \<Longrightarrow> unat s + length ops \<le> unat kMaxSequenceNumber + 1 \<Longrightarrow> \<forall>x\<in>set (numbered s ops). mem_op_ok x"
proof (induction ops rule: rev_induct)
  case (snoc op ops)
  have "unat kMaxSequenceNumber + 1 < 2 ^ 64" by (simp add: kMaxSequenceNumber_def)
  then have "mem_op_ok (number_op (s + of_nat (length ops)) op)"
    using snoc.prems unat_add_of_nat [of s "length ops"] by (cases op) (auto simp: word_le_nat_alt)
  then show ?case using snoc by (auto simp: numbered_snoc)
qed simp

text \<open>
  (C39) A batch is inserted as it was built. The string made by any sequence of puts and deletes after clearing, or by
  appending one batch to another, counts its operations and inserts them into a memtable in order, the first under the
  batch's sequence number and each later one under the next; the status is OK.
\<close>

theorem write_batch_insert:
  assumes "\<forall>op\<in>set (ops @ ops'). batch_op_ok op" "length (ops @ ops') < 2 ^ 31"
  shows "\<exists>rep. WriteBatch_Append (fold apply_op ops' WriteBatch_Clear) (fold apply_op ops WriteBatch_Clear) = Some rep \<and>
    rep = fold apply_op (ops @ ops') WriteBatch_Clear \<and> WriteBatch_Count rep = int (length (ops @ ops')) \<and>
    WriteBatch_Sequence (WriteBatch_SetSequence s rep) = s \<and>
    WriteBatch_InsertInto user_compare (WriteBatch_SetSequence s rep) mem =
      map_option (Pair Status_OK) (add_ops user_compare (numbered s (ops @ ops')) mem)"
proof -
  have build: "fold apply_op xs WriteBatch_Clear = batch_string 0 xs" for xs
    using fold_apply_op [of xs 0 "[]"] by (simp add: Clear_batch)
  show ?thesis
    unfolding build
    using assms Append_batch [of ops' 0 0 ops] InsertInto_batch [OF assms] Count_batch [of 0 "ops @ ops'"]
      sint_of_nat_less [OF assms(2)]
    by (simp add: Sequence_batch SetSequence_batch del: of_nat_add)
qed

theorem write_batch_insert_witness:
  "\<exists>rep. WriteBatch_Append (fold apply_op [Batch_Delete [50]] WriteBatch_Clear) (fold apply_op [Batch_Put [49] [7]] WriteBatch_Clear) = Some rep \<and>
    WriteBatch_Count rep = 2 \<and>
    WriteBatch_InsertInto YCSB_Compare (WriteBatch_SetSequence 5 rep) (MemTable_new 1 True) =
      map_option (Pair Status_OK)
        (add_ops YCSB_Compare [(5, kTypeValue, [49], [7]), (6, kTypeDeletion, [50], [])] (MemTable_new 1 True))"
  using write_batch_insert [of "[Batch_Put [49] [7]]" "[Batch_Delete [50]]", where s = 5 and user_compare = YCSB_Compare and mem = "MemTable_new 1 True"]
  by (auto simp del: add_ops.simps)

end
