(* ===== verification/Spec2Isabelle.thy ===== *)
theory Spec2Isabelle
  imports VersionEdits Filters Blocks LogFormat WriteBatches
begin

text \<open>
  A verification of NovaLSM, a log-structured key-value store whose storage components are reached over RDMA. It
  models the data structures and formats of the store as HOL functions translated from the sources under
  \<^verbatim>\<open>src/\<close>, and proves that they do what the rest of the program relies on.

  \<^bold>\<open>The program.\<close> A client sends requests (\<^verbatim>\<open>common/nova_common.cpp\<close>) to a node that holds a database. A write is put
  into a batch (\<^verbatim>\<open>db/write_batch.cc\<close>), appended to a replicated log as a record (\<^verbatim>\<open>common/nova_common.h\<close>), and
  inserted into the memtable (\<^verbatim>\<open>db/memtable.cc\<close>) of the subrange that covers its key (\<^verbatim>\<open>db/subrange.cpp\<close>). A memtable is
  a skip list (\<^verbatim>\<open>db/skiplist.h\<close>) of internal keys (\<^verbatim>\<open>db/dbformat.cc\<close>) in the order of the database's comparator
  (\<^verbatim>\<open>ltc/db_helper.h\<close>), allocated in an arena (\<^verbatim>\<open>util/arena.cc\<close>). It is flushed to a table of blocks
  (\<^verbatim>\<open>table/block.cc\<close>, \<^verbatim>\<open>table/block_builder.cc\<close>) with a filter block (\<^verbatim>\<open>table/filter_block.cc\<close>, \<^verbatim>\<open>util/bloom.cc\<close>), described
  by table metadata (\<^verbatim>\<open>db/dbformat.cc\<close>) that version edits (\<^verbatim>\<open>db/version_edit.cc\<close>) record in a manifest, a log of
  checksummed fragments (\<^verbatim>\<open>db/log_writer.cc\<close>, \<^verbatim>\<open>db/log_reader.cc\<close>, \<^verbatim>\<open>util/crc32c.cc\<close>).

  \<^bold>\<open>The theories.\<close>
  \<^item> \<open>Nova_Prelude\<close>: bytes, machine words, decoders, the contracts of codecs, and generic lemmas.
  \<^item> \<open>Coding\<close> (\<^verbatim>\<open>util/coding.cc\<close>): fixed and variable length numbers and framed strings; every decoder undoes its
    encoder and, where the code checks its input, accepts nothing else.
  \<^item> \<open>Comparator\<close> (\<^verbatim>\<open>util/comparator.cc\<close>, \<^verbatim>\<open>slice.h\<close>): the bytewise order; the contract of a comparator with key
    shortening, as a locale.
  \<^item> \<open>DBFormat\<close> (\<^verbatim>\<open>db/dbformat.h\<close>, \<^verbatim>\<open>db/dbformat.cc\<close>): internal keys, their order over any user comparator, lookup keys.
  \<^item> \<open>NovaCommon\<close> (\<^verbatim>\<open>common/nova_common.*\<close>, \<^verbatim>\<open>log/log_recovery.cpp\<close>): decimal numbers, requests, names, log records and
    their replay.
  \<^item> \<open>YCSBComparator\<close> (\<^verbatim>\<open>ltc/db_helper.h\<close>): the comparator of the databases meets the contract.
  \<^item> \<open>Status\<close>, \<open>Util\<close> (\<^verbatim>\<open>util/\<close>): status values; hash, random numbers, printing and parsing, the arena.
  \<^item> \<open>CRC32CTables\<close>, \<open>CRC32C\<close> (\<^verbatim>\<open>util/crc32c.cc\<close>): the tables of the source and the table-driven checksum, equal to the
    polynomial division bit by bit.
  \<^item> \<open>MemFiles\<close> (\<^verbatim>\<open>util/env_mem.*\<close>): files in memory.
  \<^item> \<open>LogFormat\<close> (\<^verbatim>\<open>db/log_*\<close>): the writer and the reader of the manifest's format, on a file in memory.
  \<^item> \<open>Filters\<close> (\<^verbatim>\<open>util/bloom.cc\<close>, \<^verbatim>\<open>table/filter_block.cc\<close>): Bloom filters and filter blocks.
  \<^item> \<open>Blocks\<close> (\<^verbatim>\<open>table/block*.cc\<close>): the block builder and the block iterator, a refinement of a cursor over the entries.
  \<^item> \<open>FileMeta\<close>, \<open>Subranges\<close>, \<open>VersionEdits\<close> (\<^verbatim>\<open>db/dbformat.cc\<close>, \<^verbatim>\<open>stoc/\<close>, \<^verbatim>\<open>db/subrange.cpp\<close>, \<^verbatim>\<open>db/version_edit.cc\<close>): table
    metadata, the partition of the key space with its searches and its consistency check, edits and compaction
    requests.
  \<^item> \<open>SkipLists\<close> (\<^verbatim>\<open>db/skiplist.h\<close>): the skip list on a store of nodes, a refinement of a sorted list, and its search
    interleaved with the stores of an insertion, as a step relation.
  \<^item> \<open>MemTables\<close> (\<^verbatim>\<open>db/memtable.*\<close>): memtables, their iterator, and the reference-counted holder as a step relation.
  \<^item> \<open>WriteBatches\<close> (\<^verbatim>\<open>db/write_batch.cc\<close>): batches and their insertion. This theory adds what a reader sees afterwards.

  \<^bold>\<open>Conventions.\<close> A \<^verbatim>\<open>uint32_t\<close>, \<^verbatim>\<open>uint64_t\<close> or \<^verbatim>\<open>char\<close> is a word of its width and wraps; lengths of byte lists are natural
  numbers, and the lemmas say up to which length they are those of the source. Memory is the list of bytes from a
  pointer on. \<open>None\<close> is an abort: a failed assertion, a read behind the memory that is modelled, or the use of a
  variable that was never written. Errors the code returns are values of the result. Code that is not in the
  repository, the address \<^verbatim>\<open>new\<close> returns, clocks and random numbers are arguments. Where a user comparator is used
  through its contract, the lemmas are proved in a locale (\<open>internal_comparator\<close>) that is interpreted for the bytewise
  and the YCSB comparator; decoders are instances of \<open>codec\<close>, files of \<open>writable_file\<close>, filters of \<open>filter_policy\<close>, and the
  searches over subranges of \<open>interval_order\<close>.

  \<^bold>\<open>Termination.\<close> Loops are structurally recursive or terminate by a measure on the bytes or entries left, whatever the
  bytes are. Loops over the links of a skip list are partial functions, and the properties state that they return on
  every list that insertions build. No result is bounded by fuel.

  \<^bold>\<open>Not modelled.\<close> Threads, locks and waiting other than the two step relations above; RDMA, sockets, files of the
  operating system and caches; tables as a whole, version sets, compaction picking and the reorganisation of
  subranges, which work on floating-point statistics; the iterators that merge others; printing for debugging.
  Sizes that the source counts in 32 bits are described below $2^{32}$ bytes where a comment says so.
\<close>

text \<open>
  (C36) A snapshot sees a prefix of a batch. After a batch was inserted into an empty memtable under consecutive sequence
  numbers, a lookup at a snapshot returns what the last operation on the key, among the operations the snapshot
  covers, says: its value, not found after a deletion, and no decision when there is none.
\<close>

theorem write_then_read:
  assumes "\<forall>op\<in>set ops. batch_op_fits op" "length ops < 2 ^ 31" "unat s + length ops \<le> unat kMaxSequenceNumber + 1"
    and "length u + 8 < 2 ^ 32" "s \<le> snapshot" "snapshot \<le> kMaxSequenceNumber"
  shows "\<exists>mem. WriteBatch_InsertInto YCSB_Compare (WriteBatch_SetSequence s (fold apply_op ops WriteBatch_Clear))
      (MemTable_new mid ready) = Some (Status_OK, mem) \<and>
    MemTable_Get YCSB_Compare (LookupKey_new u snapshot) value st mem =
      Some (read_result (find (\<lambda>op. YCSB_Compare (batch_key op) u = 0) (rev (take (unat (snapshot - s) + 1) ops))) value st)"
proof -
  have s: "unat s + length ops < 2 ^ 64" using assms(3) by (simp add: kMaxSequenceNumber_def)
  have "WriteBatch_SetSequence s (fold apply_op ops WriteBatch_Clear) = batch_string s ops"
    using fold_apply_op [of ops 0 "[]"] by (simp add: Clear_batch SetSequence_batch)
  moreover have ok: "\<forall>x\<in>set (numbered s ops). mem_op_ok x" by (rule numbered_ok [OF assms(1,3)])
  obtain mem Ls where mem: "add_ops YCSB_Compare (numbered s ops) (MemTable_new mid ready) = Some mem"
      "sl_inv (MemTable_KeyComparator YCSB_Compare) entry_ok (mt_table mem) Ls"
      "set (internal_ycsb.entries.list_keys (mt_table mem) Ls) = mem_entry ` set (numbered s ops)"
    by (rule internal_ycsb.add_ops_new [OF ok numbered_distinct [OF s]])
  ultimately show ?thesis
    using InsertInto_batch [of ops, where user_compare = YCSB_Compare and s = s and mem = "MemTable_new mid ready"] assms(1,2) batch_op_fits_ok
      internal_ycsb.MemTable_Get_newest [OF ok numbered_distinct [OF s] assms(4,6) mem(2,3), of "value" st]
      newest_numbered [OF s assms(5), where user_compare = YCSB_Compare and u = u and val = "value" and st = st] by auto
qed

theorem write_then_read_witness:
  "\<exists>mem. WriteBatch_InsertInto YCSB_Compare (WriteBatch_SetSequence 5 (fold apply_op [Batch_Put [49] [7], Batch_Delete [49]]
      WriteBatch_Clear)) (MemTable_new 1 True) = Some (Status_OK, mem) \<and>
    MemTable_Get YCSB_Compare (LookupKey_new [49] 5) [] Status_OK mem = Some (True, [7], Status_OK)"
  using write_then_read [of "[Batch_Put [49] [7], Batch_Delete [49]]" 5 "[49]" 5 1 True "[]" Status_OK]
  by (simp add: kMaxSequenceNumber_def YCSB_Compare_def)

end
